(* ===== verification/Prelude.thy ===== *)
theory Prelude
  imports Main "HOL-Library.Word" "HOL-Library.Monad_Syntax"
begin

text \<open>
  Shared vocabulary of the development: the integer types of \<^verbatim>\<open>core_portme.h\<close> as words,
  the promotions of C on the RV32 target, checked array accesses, the \<^verbatim>\<open>for\<close> loop
  over an \<^verbatim>\<open>ee_u32\<close> counter, and the generic lemmas on them that the components use.

  An operation that dereferences a pointer or indexes an array has type
  \<^typ>\<open>'a option\<close>: \<^term>\<open>None\<close> stands for an access outside the objects the program
  owns, or for a loop that never ends. A theorem that an operation is
  \<^term>\<open>Some r\<close> therefore says that it terminates and stays inside its memory.
\<close>

unbundle bit_operations_syntax

section \<open>Types\<close>

text \<open>Signed and unsigned types of one width share a word type; \<^const>\<open>sint\<close> and
  \<^const>\<open>uint\<close> read it.\<close>

type_synonym ee_u8 = "8 word"
type_synonym ee_s16 = "16 word"
type_synonym ee_u16 = "16 word"
type_synonym ee_s32 = "32 word"
type_synonym ee_u32 = "32 word"
type_synonym addr = "32 word"

text \<open>The integer promotions to \<^verbatim>\<open>int\<close> (32 bits on RV32).\<close>

abbreviation promote_s16 :: "ee_s16 \<Rightarrow> 32 word" where
  "promote_s16 x \<equiv> signed x"

abbreviation promote_u16 :: "ee_u16 \<Rightarrow> 32 word" where
  "promote_u16 x \<equiv> unsigned x"

abbreviation promote_u8 :: "ee_u8 \<Rightarrow> 32 word" where
  "promote_u8 x \<equiv> unsigned x"

named_theorems mem_simps \<open>how reads see writes\<close>
named_theorems layout_simps \<open>sizes and addresses of the memory blocks\<close>

section \<open>Words\<close>

lemma odd_ucast [simp]: "odd (ucast (w :: 'a :: len word) :: 'b :: len word) \<longleftrightarrow> odd w"
  by (simp add: bit_unsigned_iff flip: bit_0)

lemma odd_xor_word [simp]: "odd ((a :: 'a :: len word) XOR b) \<longleftrightarrow> odd a \<noteq> odd b"
  by (simp add: bit_xor_iff flip: bit_0)

lemma and_one_word: "(a :: 'a :: len word) AND 1 = (if odd a then 1 else 0)"
  by (simp add: and_one_eq mod_2_eq_odd)

lemma word_eqI_bits:
  "list_all (\<lambda>n. bit (a :: 'a :: len word) n = bit b n) [0..<LENGTH('a)] \<Longrightarrow> a = b"
  by (rule bit_word_eqI) (simp add: list_all_iff)

lemma ucast_drop_bit:
  "LENGTH('a) \<le> LENGTH('b) \<Longrightarrow> ucast (drop_bit n (w :: 'a :: len word)) = drop_bit n (ucast w :: 'b :: len word)"
  by (rule bit_word_eqI) (auto simp: bit_simps dest: bit_imp_le_length)

lemma upt_8: "[0..<8] = [0, 1, 2, 3, 4, 5, 6, 7 :: nat]"
  by (simp add: upt_rec)

lemma upt_16: "[0..<16] = [0, 1, 2, 3, 4, 5, 6, 7, 8, 9, 10, 11, 12, 13, 14, 15 :: nat]"
  by (simp add: upt_rec)

lemma xor_eq_0_word: "(a :: 'a :: len word) XOR b = 0 \<longleftrightarrow> a = b"
proof
  assume "a XOR b = 0"
  then have "(a XOR b) XOR b = b" by simp
  then show "a = b" by (simp add: xor.assoc)
qed simp

lemma not_bit_beyond [simp]: "LENGTH('a) \<le> n \<Longrightarrow> \<not> bit (w :: 'a :: len word) n"
  using bit_imp_le_length by fastforce

lemma ucast_eq_0_up:
  assumes "LENGTH('a) \<le> LENGTH('b)"
  shows "(ucast (w :: 'a :: len word) :: 'b :: len word) = 0 \<longleftrightarrow> w = 0"
proof
  assume z: "(ucast w :: 'b word) = 0"
  have "bit (ucast w :: 'b word) n = bit w n" for n
    using assms by (auto simp: bit_unsigned_iff dest: bit_imp_le_length)
  with z have "\<not> bit w n" for n by (metis bit_0_eq bot_apply bot_bool_def)
  then show "w = 0" by (simp add: bit_eq_iff)
qed simp

lemma sint32_bounds: "- (2 ^ 31) \<le> sint (v :: 32 word)" "sint (v :: 32 word) < 2 ^ 31"
  using sint_greater_eq [of v] sint_less [of v] by simp_all

lemma unat_sint_pos: "0 \<le> sint (v :: 32 word) \<Longrightarrow> unat v = nat (sint v)"
  using sint32_bounds [of v] by (simp add: uint_sint take_bit_int_eq_self flip: nat_uint_eq)

lemma unat_uminus_sint_neg: "sint (v :: 32 word) < 0 \<Longrightarrow> unat (- v) = nat (- sint v)"
proof -
  assume "sint v < 0"
  moreover have "- v = word_of_int (- sint v)" by simp
  then have "uint (- v) = take_bit 32 (- sint v)" by (simp add: uint_word_of_int_eq del: word_of_int_minus of_int_minus of_int_sint)
  ultimately show ?thesis
    using sint32_bounds [of v] by (simp add: take_bit_int_eq_self flip: nat_uint_eq)
qed

lemma unat32_bound: "unat (w :: 32 word) < 4294967296"
  by (rule order_less_le_trans [OF unsigned_less]) simp

lemma ucast_add_down:
  assumes "LENGTH('b) \<le> LENGTH('a)"
  shows "(ucast ((a :: 'a :: len word) + b) :: 'b :: len word) = ucast a + ucast b"
proof -
  have "take_bit LENGTH('b) (take_bit LENGTH('a) x) = take_bit LENGTH('b) x" for x :: int
    using assms by (simp add: take_bit_take_bit min_def)
  then show ?thesis
    by transfer (metis take_bit_add)
qed

lemma ucast_of_nat_down:
  assumes "LENGTH('b) \<le> LENGTH('a)"
  shows "(ucast (word_of_nat n :: 'a :: len word) :: 'b :: len word) = word_of_nat n"
  using assms by (intro bit_word_eqI) (auto simp: bit_simps)

lemma ucast_signed_16: "(ucast (signed (v :: 16 word) :: 32 word) :: 16 word) = v"
  by (intro bit_word_eqI) (auto simp: bit_simps)

lemma sint32_of_int: "- (2 ^ 31) \<le> k \<Longrightarrow> k < 2 ^ 31 \<Longrightarrow> sint (word_of_int k :: 32 word) = k"
  by (simp add: signed_of_int signed_take_bit_int_eq_self)

section \<open>Checked arrays\<close>

definition rd :: "'a list \<Rightarrow> nat \<Rightarrow> 'a option" where
  "rd xs i = (if i < length xs then Some (xs ! i) else None)"

definition wr :: "'a list \<Rightarrow> nat \<Rightarrow> 'a \<Rightarrow> 'a list option" where
  "wr xs i v = (if i < length xs then Some (xs[i := v]) else None)"

lemma rd_Some [simp]: "i < length xs \<Longrightarrow> rd xs i = Some (xs ! i)"
  by (simp add: rd_def)

lemma wr_Some [simp]: "i < length xs \<Longrightarrow> wr xs i v = Some (xs[i := v])"
  by (simp add: wr_def)

lemma rd_eq_Some_iff: "rd xs i = Some v \<longleftrightarrow> i < length xs \<and> v = xs ! i"
  by (auto simp: rd_def)

lemma wr_eq_Some_iff: "wr xs i v = Some ys \<longleftrightarrow> i < length xs \<and> ys = xs[i := v]"
  by (auto simp: wr_def)

section \<open>The counting loop\<close>

lemma unat_Suc_less: "(i :: 'a :: len word) < n \<Longrightarrow> unat (i + 1) = Suc (unat i)"
proof -
  assume "i < n"
  then have "Suc (unat i) \<le> unat n" by (simp add: word_less_nat_alt)
  also have "unat n < 2 ^ LENGTH('a)" by (rule unsigned_less)
  finally have "Suc (unat i) < 2 ^ LENGTH('a)" .
  then show ?thesis by (simp add: unat_word_ariths)
qed

text \<open>\<^verbatim>\<open>for (i = lo; i < hi; i++) body\<close> over an unsigned 32-bit counter. The
  counter never wraps, because the guard \<^verbatim>\<open>i < hi\<close> holds before the increment.\<close>

function for_u32 :: "ee_u32 \<Rightarrow> ee_u32 \<Rightarrow> (ee_u32 \<Rightarrow> 's \<Rightarrow> 's option) \<Rightarrow> 's \<Rightarrow> 's option" where
  "for_u32 i n f s = (if i < n then Option.bind (f i s) (for_u32 (i + 1) n f) else Some s)"
  by pat_completeness auto
termination
proof (relation "measure (\<lambda>(i, n, f, s). unat n - unat i)")
  show "wf (measure (\<lambda>(i :: ee_u32, n :: ee_u32, f :: ee_u32 \<Rightarrow> 's \<Rightarrow> 's option, s :: 's).
    unat n - unat i))" by simp
next
  fix i n :: ee_u32 and f :: "ee_u32 \<Rightarrow> 's \<Rightarrow> 's option" and s x :: 's
  assume lt: "i < n"
  then have "unat (i + 1) = unat i + 1"
    by (simp add: unat_Suc_less)
  with lt show "((i + 1, n, f, x), i, n, f, s) \<in> measure (\<lambda>(i, n, f, s). unat n - unat i)"
    by (simp add: word_less_nat_alt)
qed

declare for_u32.simps [simp del]

lemma for_u32_done [simp]: "\<not> i < n \<Longrightarrow> for_u32 i n f s = Some s"
  by (simp add: for_u32.simps)

lemma for_u32_step: "i < n \<Longrightarrow> for_u32 i n f s = Option.bind (f i s) (for_u32 (i + 1) n f)"
  by (simp add: for_u32.simps)

text \<open>The loop rule, with the counter read as a natural number: an invariant that the body
  keeps, and under which the body returns, holds after the loop, and the loop returns.\<close>

lemma for_u32_rule:
  assumes "I (unat lo) s"
    and "\<And>i s. \<lbrakk>unat lo \<le> i; i < unat hi; I i s\<rbrakk> \<Longrightarrow> \<exists>s'. f (word_of_nat i) s = Some s' \<and> I (Suc i) s'"
    and "lo \<le> hi"
  shows "\<exists>s'. for_u32 lo hi f s = Some s' \<and> I (unat hi) s'"
  using assms
proof (induction "unat hi - unat lo" arbitrary: lo s)
  case 0
  then have "lo = hi" by (simp add: word_le_nat_alt word_unat_eq_iff)
  with "0.prems"(1) show ?case by simp
next
  case (Suc d)
  then have lt: "lo < hi" by (simp add: word_less_nat_alt)
  then have suc: "unat (lo + 1) = Suc (unat lo)" by (rule unat_Suc_less)
  from Suc.prems(2) [of "unat lo" s] Suc.prems(1) lt
  obtain s' where s': "f lo s = Some s'" "I (Suc (unat lo)) s'"
    by (auto simp: word_less_nat_alt)
  from lt suc have "lo + 1 \<le> hi" by (simp add: word_le_nat_alt word_less_nat_alt)
  moreover have "d = unat hi - unat (lo + 1)" using Suc.hyps(2) suc by simp
  ultimately have "\<exists>s''. for_u32 (lo + 1) hi f s' = Some s'' \<and> I (unat hi) s''"
    using Suc.hyps(1) [of "lo + 1" s'] s'(2) suc Suc.prems(2) by fastforce
  with s'(1) lt show ?case by (simp add: for_u32_step)
qed

text \<open>When the body is a total function on the states of interest, the loop is a fold.\<close>

lemma for_u32_fold:
  assumes "\<And>i s. \<lbrakk>i < unat n; P i s\<rbrakk> \<Longrightarrow> f (word_of_nat i) s = Some (g i s) \<and> P (Suc i) (g i s)"
    and "P 0 s"
  shows "for_u32 0 n f s = Some (fold g [0..<unat n] s)"
proof -
  have "\<exists>s'. for_u32 0 n f s = Some s' \<and> (s' = fold g [0..<unat n] s \<and> P (unat n) s')"
    by (rule for_u32_rule [where I = "\<lambda>i s'. s' = fold g [0..<i] s \<and> P i s'"])
      (use assms in \<open>auto simp: unat_0\<close>)
  then show ?thesis by blast
qed

section \<open>Loops that can be repeated\<close>

text \<open>What a benchmark promises to whoever runs it again and again: the states it may start in, and
  what a run keeps of the state, which includes that it may start again.\<close>

locale run_contract =
  fixes ready :: "'s \<Rightarrow> bool"
    and keeps :: "'s \<Rightarrow> 's \<Rightarrow> bool"
  assumes keeps_refl: "ready s \<Longrightarrow> keeps s s"
    and keeps_trans: "keeps s t \<Longrightarrow> keeps t u \<Longrightarrow> keeps s u"
    and keeps_ready: "keeps s t \<Longrightarrow> ready s \<Longrightarrow> ready t"

text \<open>A loop body that returns from every such state and keeps it can be run any number of times.\<close>

locale repeatable = run_contract ready keeps
  for ready :: "'s \<Rightarrow> bool" and keeps :: "'s \<Rightarrow> 's \<Rightarrow> bool" +
  fixes body :: "ee_u32 \<Rightarrow> 's \<Rightarrow> 's option"
  assumes body_keeps: "ready s \<Longrightarrow> \<exists>t. body i s = Some t \<and> keeps s t"
begin

lemma loop_keeps:
  assumes "ready s"
  shows "\<exists>t. for_u32 0 n body s = Some t \<and> keeps s t"
proof (rule for_u32_rule [where I = "\<lambda>_. keeps s"])
  show "keeps s s" using assms by (rule keeps_refl)
  fix i t
  assume "keeps s t"
  with body_keeps [OF keeps_ready [OF this assms]] show "\<exists>u. body (word_of_nat i) t = Some u \<and> keeps s u"
    using keeps_trans by blast
qed simp

end

end
