(* ===== verification/CoreUtil.thy ===== *)
theory CoreUtil
  imports Prelude
begin

text \<open>
  The service functions of \<^verbatim>\<open>coremark/core_util.c\<close>: the 16-bit CRC that every
  benchmark result is reported through (\<^verbatim>\<open>crcu8\<close>, \<^verbatim>\<open>crcu16\<close>,
  \<^verbatim>\<open>crcu32\<close>, \<^verbatim>\<open>crc16\<close>), the seed selection \<^verbatim>\<open>get_seed_32\<close> of
  the volatile-variable configuration, and the argument parser \<^verbatim>\<open>parseval\<close> of the
  command-line configuration.

  The CRC is related to a linear-feedback shift register over the reflected polynomial
  \<^verbatim>\<open>0xA001\<close>; an interface locale states what the callers use of a CRC update
  (linearity, reversibility, detection of a single changed item) and is interpreted on
  the functions of the source.
\<close>

section \<open>CRC\<close>

text \<open>One iteration of the loop of \<^verbatim>\<open>crcu8\<close>, on the pair of the remaining data bits
  and the running CRC.\<close>

fun crcu8_step :: "ee_u8 \<times> ee_u16 \<Rightarrow> ee_u8 \<times> ee_u16" where
  "crcu8_step (data, crc) =
     (let x16 = (data AND 1) XOR ((ucast crc :: ee_u8) AND 1);
          data = drop_bit 1 data;
          (crc, carry) = (if x16 = 1 then (crc XOR 0x4002, 1 :: ee_u8) else (crc, 0));
          crc = drop_bit 1 crc;
          crc = (if carry \<noteq> 0 then crc OR 0x8000 else crc AND 0x7fff)
      in (data, crc))"

definition crcu8 :: "ee_u8 \<Rightarrow> ee_u16 \<Rightarrow> ee_u16" where
  "crcu8 data crc = snd ((crcu8_step ^^ 8) (data, crc))"

definition crcu16 :: "ee_u16 \<Rightarrow> ee_u16 \<Rightarrow> ee_u16" where
  "crcu16 newval crc =
     (let crc = crcu8 (ucast newval) crc;
          crc = crcu8 (ucast (drop_bit 8 newval)) crc
      in crc)"

definition crc16 :: "ee_s16 \<Rightarrow> ee_u16 \<Rightarrow> ee_u16" where
  "crc16 newval crc = crcu16 newval crc"

definition crcu32 :: "ee_u32 \<Rightarrow> ee_u16 \<Rightarrow> ee_u16" where
  "crcu32 newval crc =
     (let crc = crc16 (ucast newval) crc;
          crc = crc16 (ucast (drop_bit 16 newval)) crc
      in crc)"

section \<open>Seeds\<close>

text \<open>The five volatile seed variables that \<^verbatim>\<open>core_portme.c\<close> defines.\<close>

record seed_vars =
  seed1_volatile :: ee_s32
  seed2_volatile :: ee_s32
  seed3_volatile :: ee_s32
  seed4_volatile :: ee_s32
  seed5_volatile :: ee_s32

definition get_seed_32 :: "seed_vars \<Rightarrow> 32 word \<Rightarrow> ee_s32" where
  "get_seed_32 sv i =
     (if i = 1 then seed1_volatile sv
      else if i = 2 then seed2_volatile sv
      else if i = 3 then seed3_volatile sv
      else if i = 4 then seed4_volatile sv
      else if i = 5 then seed5_volatile sv
      else 0)"

text \<open>The variant that asks the functions \<^verbatim>\<open>portme_sys1\<close> to \<^verbatim>\<open>portme_sys5\<close>, which this port does not
  define: the value that function number \<open>k\<close> returns is \<open>sys k\<close>.\<close>

definition get_seed_func :: "(nat \<Rightarrow> ee_s32) \<Rightarrow> 32 word \<Rightarrow> ee_s32" where
  "get_seed_func sys i =
     (if i = 1 then sys 1 else if i = 2 then sys 2 else if i = 3 then sys 3 else if i = 4 then sys 4
      else if i = 5 then sys 5 else 0)"

section \<open>Argument parser of the command-line configuration\<close>

text \<open>A C string is the list of its characters before the terminating NUL; \<^verbatim>\<open>cur_char\<close>
  reads the character under the pointer, which is NUL at the end. Arithmetic on
  \<^verbatim>\<open>ee_s32\<close> is two's complement.\<close>

definition cur_char :: "string \<Rightarrow> 32 word" where
  "cur_char s = (case s of [] \<Rightarrow> 0 | c # _ \<Rightarrow> of_char c)"

definition is_dec :: "32 word \<Rightarrow> bool" where
  "is_dec c \<longleftrightarrow> of_char (CHR ''0'') \<le> c \<and> c \<le> of_char (CHR ''9'')"

definition is_hex_letter :: "32 word \<Rightarrow> bool" where
  "is_hex_letter c \<longleftrightarrow> of_char (CHR ''a'') \<le> c \<and> c \<le> of_char (CHR ''f'')"

fun parse_hex :: "string \<Rightarrow> ee_s32 \<Rightarrow> string \<times> ee_s32" where
  "parse_hex [] retval = ([], retval)"
| "parse_hex (c # s) retval =
     (if is_dec (of_char c) \<or> is_hex_letter (of_char c)
      then let digit = of_char c - of_char (CHR ''0'');
               digit = (if 9 <s digit then 10 + of_char c - of_char (CHR ''a'') else digit)
           in parse_hex s (retval * 16 + digit)
      else (c # s, retval))"

fun parse_dec :: "string \<Rightarrow> ee_s32 \<Rightarrow> string \<times> ee_s32" where
  "parse_dec [] retval = ([], retval)"
| "parse_dec (c # s) retval =
     (if is_dec (of_char c)
      then let digit = of_char c - of_char (CHR ''0'')
           in parse_dec s (retval * 10 + digit)
      else (c # s, retval))"

definition parseval :: "string \<Rightarrow> ee_s32" where
  "parseval valstring =
     (let (neg, s) = (if cur_char valstring = of_char (CHR ''-'') then (-1, tl valstring) else (1, valstring));
          hexmode = (cur_char s = of_char (CHR ''0'') \<and> cur_char (tl s) = of_char (CHR ''x''));
          s = (if hexmode then tl (tl s) else s);
          (s, retval) = (if hexmode then parse_hex s 0 else parse_dec s 0);
          retval = (if cur_char s = of_char (CHR ''K'') then retval * 1024 else retval);
          retval = (if cur_char s = of_char (CHR ''M'') then retval * (1024 * 1024) else retval)
      in retval * neg)"

text \<open>\<^verbatim>\<open>argv\<close> as the list of the arguments, \<^verbatim>\<open>argc\<close> its length.\<close>

definition get_seed_args :: "nat \<Rightarrow> string list \<Rightarrow> ee_s32" where
  "get_seed_args i argv = (if length argv > i then parseval (argv ! i) else 0)"

section \<open>The reference register\<close>

definition lfsr :: "16 word \<Rightarrow> 16 word" where
  "lfsr c = (if bit c 0 then drop_bit 1 c XOR 0xA001 else drop_bit 1 c)"

lemma lfsr_xor: "lfsr (a XOR b) = lfsr a XOR lfsr b"
  by (simp add: lfsr_def bit_xor_iff drop_bit_xor ac_simps)

lemma lfsr_zero [simp]: "lfsr 0 = 0"
  by (simp add: lfsr_def)

lemma lfsr_pow_xor: "(lfsr ^^ n) (a XOR b) = (lfsr ^^ n) a XOR (lfsr ^^ n) b"
  by (induction n) (simp_all add: lfsr_xor)

lemma lfsr_pow_zero [simp]: "(lfsr ^^ n) 0 = 0"
  by (induction n) simp_all

lemma bit_A001: "bit (0xA001 :: 16 word) n \<longleftrightarrow> n = 0 \<or> n = 13 \<or> n = 15"
proof (cases "n < 16")
  case True
  then have "n \<in> set [0..<16]" by simp
  then show ?thesis unfolding upt_16 by (simp, elim disjE; simp)
next
  case False
  then show ?thesis using bit_imp_le_length [of "0xA001 :: 16 word" n] by auto
qed

lemma lfsr_bit15: "bit (lfsr c) 15 = bit c 0"
  using not_bit_length [of c] by (simp add: lfsr_def bit_xor_iff bit_drop_bit_eq bit_A001)

lemma lfsr_eq_0: "lfsr c = 0 \<Longrightarrow> c = 0"
proof -
  assume z: "lfsr c = 0"
  then have b0: "\<not> bit c 0" using lfsr_bit15 [of c] by simp
  with z have d: "drop_bit 1 c = 0" by (simp add: lfsr_def)
  show "c = 0"
  proof (rule bit_word_eqI)
    fix n assume "n < LENGTH(16)"
    show "bit c n = bit 0 n"
    proof (cases n)
      case 0 then show ?thesis using b0 by simp
    next
      case (Suc m)
      then show ?thesis using d [THEN arg_cong, of "\<lambda>w. bit w m"] by (simp add: bit_drop_bit_eq)
    qed
  qed
qed

lemma crcu8_carry: "((d :: ee_u8) AND 1) XOR (ucast (c :: ee_u16) AND 1) = 1 \<longleftrightarrow> odd (c XOR ucast d)"
  by (auto simp: and_one_word)

lemma crcu8_feedback:
  "(drop_bit (Suc 0) c XOR 0x2001) OR 0x8000 = drop_bit (Suc 0) c XOR (0xA001 :: 16 word)"
  by (intro word_eqI_bits) (auto simp: bit_simps upt_16 dest: bit_imp_le_length)

lemma crcu8_mask: "drop_bit (Suc 0) c AND 0x7fff = drop_bit (Suc 0) (c :: 16 word)"
  by (intro word_eqI_bits) (auto simp: bit_simps upt_16 dest: bit_imp_le_length)

lemma crcu8_step_eq:
  "crcu8_step (d, c) = (drop_bit 1 d, drop_bit 1 c XOR (if odd (c XOR ucast d) then 0xA001 else 0))"
  by (simp add: crcu8_carry crcu8_feedback crcu8_mask del: odd_xor_word)

lemma crcu8_step_lfsr:
  "crcu8_step (d, c) = (d', c') \<Longrightarrow> c' XOR ucast d' = lfsr (c XOR ucast d)"
  by (auto simp: crcu8_step_eq lfsr_def bit_0 drop_bit_xor ucast_drop_bit ac_simps
      simp del: crcu8_step.simps)

lemma crcu8_steps_lfsr:
  "(crcu8_step ^^ n) (d, c) = (d', c') \<Longrightarrow>
    c' XOR ucast d' = (lfsr ^^ n) (c XOR ucast d) \<and> d' = drop_bit n d"
proof (induction n arbitrary: d' c')
  case (Suc n)
  obtain d1 c1 where 1: "(crcu8_step ^^ n) (d, c) = (d1, c1)" by fastforce
  with Suc.prems have 2: "crcu8_step (d1, c1) = (d', c')" by simp
  from 2 have "d' = drop_bit 1 d1" by (simp only: crcu8_step_eq prod.inject)
  with Suc.IH [OF 1] crcu8_step_lfsr [OF 2] show ?case by auto
qed simp

lemma crcu8_lfsr: "crcu8 d c = (lfsr ^^ 8) (c XOR ucast d)"
proof -
  obtain d' c' where 1: "(crcu8_step ^^ 8) (d, c) = (d', c')" by fastforce
  have "drop_bit 8 d = 0"
    by (rule bit_word_eqI) (simp add: bit_drop_bit_eq bit_imp_le_length)
  with crcu8_steps_lfsr [OF 1] have "c' = (lfsr ^^ 8) (c XOR ucast d)" by auto
  with 1 show ?thesis by (simp add: crcu8_def)
qed

lemma lfsr_pow_shift: "(\<And>i. i < n \<Longrightarrow> \<not> bit c i) \<Longrightarrow> (lfsr ^^ n) c = drop_bit n c"
proof (induction n arbitrary: c)
  case (Suc n)
  then have "lfsr c = drop_bit 1 c" by (auto simp: lfsr_def)
  moreover have "(lfsr ^^ n) (drop_bit 1 c) = drop_bit n (drop_bit 1 c)"
    using Suc.prems by (intro Suc.IH) (simp add: bit_drop_bit_eq)
  ultimately show ?case by (simp add: funpow_swap1)
qed simp

lemma crcu16_lfsr: "crcu16 v c = (lfsr ^^ 16) (c XOR v)"
proof -
  let ?lo = "ucast (ucast v :: ee_u8) :: 16 word" and ?hi = "ucast (ucast (drop_bit 8 v) :: ee_u8) :: 16 word"
  have hi: "?hi = (lfsr ^^ 8) (push_bit 8 ?hi)"
    by (subst lfsr_pow_shift) (auto intro!: bit_word_eqI simp: bit_simps)
  have v: "?lo XOR push_bit 8 ?hi = v"
    by (intro word_eqI_bits) (simp add: bit_simps upt_16)
  have "crcu16 v c = (lfsr ^^ 8) ((lfsr ^^ 8) (c XOR ?lo) XOR ?hi)"
    by (simp add: crcu16_def crcu8_lfsr)
  also have "\<dots> = (lfsr ^^ 8) ((lfsr ^^ 8) (c XOR ?lo XOR push_bit 8 ?hi))"
    by (subst hi) (simp only: lfsr_pow_xor xor.assoc)
  also have "\<dots> = (lfsr ^^ (8 + 8)) (c XOR v)"
    by (simp only: funpow_add o_apply xor.assoc v)
  finally show ?thesis by simp
qed

lemma crcu32_lfsr: "crcu32 v c = (lfsr ^^ 16) ((lfsr ^^ 16) (c XOR ucast v) XOR ucast (drop_bit 16 v))"
  by (simp add: crcu32_def crc16_def crcu16_lfsr)

lemma lfsr_pow_eq_0: "(lfsr ^^ n) c = 0 \<Longrightarrow> c = 0"
  by (induction n) (auto dest: lfsr_eq_0)

section \<open>What the callers use of a CRC update\<close>

text \<open>The contract of a CRC update \<open>upd data crc\<close> over data words of one width: it is linear
  over exclusive or, and no two running values collide on the same data.\<close>

locale crc_update =
  fixes upd :: "'d :: len word \<Rightarrow> 16 word \<Rightarrow> 16 word"
  assumes upd_xor: "upd (a XOR b) (x XOR y) = upd a x XOR upd b y"
    and upd_kernel: "upd 0 x = 0 \<Longrightarrow> x = 0"
begin

lemma upd_zero: "upd 0 0 = 0"
  using upd_xor [of 0 0 0 0] by simp

lemma upd_diff: "upd a x XOR upd b y = upd (a XOR b) (x XOR y)"
  by (simp add: upd_xor)

lemma upd_inj_crc: "upd d x = upd d y \<Longrightarrow> x = y"
proof -
  assume "upd d x = upd d y"
  then have "upd 0 (x XOR y) = 0" using upd_diff [of d x d y] by simp
  then show "x = y" using upd_kernel [of "x XOR y"] by (simp add: xor_eq_0_word)
qed

text \<open>Over a whole message: the running value is never forgotten, and the difference of two
  messages of one length runs through the register on its own.\<close>

lemma fold_upd_inj: "fold upd ds x = fold upd ds y \<Longrightarrow> x = y"
  by (induction ds arbitrary: x y) (auto dest: upd_inj_crc)

lemma fold_upd_xor:
  "length ds = length es \<Longrightarrow>
    fold upd ds x XOR fold upd es y = fold upd (map2 (XOR) ds es) (x XOR y)"
  by (induction ds es arbitrary: x y rule: list_induct2) (simp_all add: upd_xor)

end

text \<open>When the data is no wider than the register, two data words never collide either, so a
  single changed item of a message always changes its CRC.\<close>

locale crc_detecting = crc_update +
  assumes upd_data: "upd d 0 = 0 \<Longrightarrow> d = 0"
begin

lemma upd_inj_data: "upd a x = upd b x \<Longrightarrow> a = b"
proof -
  assume "upd a x = upd b x"
  then have "upd (a XOR b) 0 = 0" using upd_diff [of a x b x] by simp
  then show "a = b" using upd_data [of "a XOR b"] by (simp add: xor_eq_0_word)
qed

lemma fold_upd_detects: "a \<noteq> b \<Longrightarrow> fold upd (xs @ a # ys) c \<noteq> fold upd (xs @ b # ys) c"
  by (auto dest: fold_upd_inj upd_inj_data)

end

interpretation crc_u8: crc_detecting crcu8
proof unfold_locales
  show "crcu8 (a XOR b) (x XOR y) = crcu8 a x XOR crcu8 b y" for a b x y
    by (simp add: crcu8_lfsr lfsr_pow_xor [symmetric] unsigned_xor_eq ac_simps)
  show "x = 0" if "crcu8 0 x = 0" for x
    using that lfsr_pow_eq_0 by (simp add: crcu8_lfsr)
  show "d = 0" if "crcu8 d 0 = 0" for d
    using that lfsr_pow_eq_0 [of 8 "ucast d"] by (simp add: crcu8_lfsr ucast_eq_0_up)
qed

interpretation crc_u16: crc_detecting crcu16
proof unfold_locales
  show "crcu16 (a XOR b) (x XOR y) = crcu16 a x XOR crcu16 b y" for a b x y
    by (simp add: crcu16_lfsr lfsr_pow_xor [symmetric] ac_simps)
  show "x = 0" if "crcu16 0 x = 0" for x
    using that lfsr_pow_eq_0 by (simp add: crcu16_lfsr)
  show "d = 0" if "crcu16 d 0 = 0" for d
    using that lfsr_pow_eq_0 by (simp add: crcu16_lfsr)
qed

interpretation crc_u32: crc_update crcu32
proof unfold_locales
  show "crcu32 (a XOR b) (x XOR y) = crcu32 a x XOR crcu32 b y" for a b x y
    by (simp add: crcu32_lfsr lfsr_pow_xor [symmetric] unsigned_xor_eq drop_bit_xor ac_simps)
  show "x = 0" if "crcu32 0 x = 0" for x
    using that lfsr_pow_eq_0 by (simp add: crcu32_lfsr) blast
qed

section \<open>Properties\<close>

text \<open>C17: the bit loop of \<^verbatim>\<open>crcu8\<close> and the compositions \<^verbatim>\<open>crcu16\<close> and
  \<^verbatim>\<open>crcu32\<close> compute the reflected CRC-16 with polynomial \<^verbatim>\<open>0xA001\<close>: the
  data is added to the register, which is then clocked once per bit.\<close>

theorem crc_is_reflected_crc16:
  "crcu8 d c = (lfsr ^^ 8) (c XOR ucast d) \<and>
   crcu16 v c = (lfsr ^^ 16) (c XOR v) \<and>
   crcu32 w c = (lfsr ^^ 16) ((lfsr ^^ 16) (c XOR ucast w) XOR ucast (drop_bit 16 w))"
  by (simp add: crcu8_lfsr crcu16_lfsr crcu32_lfsr)

text \<open>The byte-wise table of the usual optimised implementation.\<close>

definition crc_table :: "16 word list" where
  "crc_table = map (\<lambda>i. (lfsr ^^ 8) (word_of_nat i)) [0..<256]"

lemma crcu8_table: "crcu8 d c = drop_bit 8 c XOR (lfsr ^^ 8) ((c XOR ucast d) AND 0xff)"
proof -
  let ?x = "c XOR ucast d"
  have split: "x = push_bit 8 (drop_bit 8 x) XOR (x AND 0xff)" for x :: "16 word"
    by (intro word_eqI_bits) (auto simp: bit_simps upt_16)
  have hi: "(lfsr ^^ 8) (push_bit 8 (drop_bit 8 ?x)) = drop_bit 8 c"
    by (subst lfsr_pow_shift) (auto intro!: word_eqI_bits simp: bit_simps upt_16 dest: bit_imp_le_length)
  show ?thesis by (simp only: crcu8_lfsr) (subst split [of ?x], simp only: lfsr_pow_xor hi)
qed

text \<open>\<^verbatim>\<open>crcu8\<close> agrees with the table-driven update: shift the register down by a
  byte and add the entry selected by the low byte of register and data.\<close>

theorem crcu8_is_table_driven:
  "crcu8 d c = drop_bit 8 c XOR crc_table ! unat ((c XOR ucast d) AND 0xff)"
proof -
  have "unat ((c XOR ucast d) AND 0xff) < 256"
    using word_and_le1 [of "c XOR ucast d" "0xff"] by (simp add: word_le_nat_alt)
  then show ?thesis by (simp add: crcu8_table crc_table_def)
qed

text \<open>C36: a CRC over a sequence of 16-bit items, as the benchmark accumulates it with
  \<^verbatim>\<open>crcu16\<close>, changes whenever exactly one of the items changes.\<close>

theorem crcu16_detects_changed_item:
  "a \<noteq> b \<Longrightarrow> fold crcu16 (xs @ a # ys) c \<noteq> fold crcu16 (xs @ b # ys) c"
  by (rule crc_u16.fold_upd_detects)

theorem crcu16_detects_changed_item_witness:
  "(7 :: ee_u16) \<noteq> 9 \<and> fold crcu16 ([1] @ 7 # [2]) 0 \<noteq> fold crcu16 ([1] @ 9 # [2]) 0"
  using crcu16_detects_changed_item [of 7 9 "[1]" "[2]" 0] by simp

end
