(* ===== verification/Uart.thy ===== *)
theory Uart
  imports CoreUtil
begin

text \<open>
  The console of the bare-metal port (\<^verbatim>\<open>coremark/core_portme.c\<close>, first half): the
  memory-mapped UART writes, the number printers \<^verbatim>\<open>uart_put_unsigned\<close> and
  \<^verbatim>\<open>uart_put_signed\<close>, and the small \<^verbatim>\<open>ee_printf\<close>. The memory-mapped writes of an
  operation are its result, a list of address and value pairs in program order.

  The lemmas relate the digit buffer to a reference rendering of numbers, and the
  format interpreter to a sequence of format items.
\<close>

section \<open>UART output\<close>

type_synonym mmio_trace = "(addr \<times> ee_u32) list"

definition UART_TX_ADDR :: addr where "UART_TX_ADDR = 0xFFE0"
definition TOHOST_ADDR :: addr where "TOHOST_ADDR = 0xFFF8"

abbreviation LF :: char where "LF \<equiv> CHR 0x0A"
abbreviation CR :: char where "CR \<equiv> CHR 0x0D"

definition mmio_write32 :: "addr \<Rightarrow> ee_u32 \<Rightarrow> mmio_trace" where
  "mmio_write32 a v = [(a, v)]"

definition uart_putc :: "char \<Rightarrow> mmio_trace" where
  "uart_putc c = mmio_write32 UART_TX_ADDR (of_char c)"

fun uart_puts :: "string \<Rightarrow> mmio_trace" where
  "uart_puts [] = []"
| "uart_puts (c # s) = (if c = LF then uart_putc CR else []) @ uart_putc c @ uart_puts s"

text \<open>\<^verbatim>\<open>uart_put_unsigned\<close> fills the 32-byte buffer from the least significant digit,
  then pads, then emits the buffer backwards. A write past the buffer, or a division by a
  zero base, is \<^term>\<open>None\<close>.\<close>

definition digit_char :: "ee_u32 \<Rightarrow> char" where
  "digit_char digit =
     (if digit < 10 then char_of (of_char (CHR ''0'') + unat digit)
      else char_of (of_char (CHR ''a'') + unat digit - 10))"

partial_function (option) digit_loop ::
  "ee_u32 \<Rightarrow> ee_u32 \<Rightarrow> string \<Rightarrow> nat \<Rightarrow> (string \<times> nat) option" where
  "digit_loop val base buf pos =
     (if val \<noteq> 0
      then if base = 0 then None
           else do {
             buf \<leftarrow> wr buf pos (digit_char (val mod base));
             digit_loop (val div base) base buf (pos + 1)
           }
      else Some (buf, pos))"

declare digit_loop.simps [code]

function pad_loop :: "nat \<Rightarrow> int \<Rightarrow> char \<Rightarrow> mmio_trace" where
  "pad_loop pos width pad =
     (if int pos < width then uart_putc pad @ pad_loop pos (width - 1) pad else [])"
  by pat_completeness auto
termination
  by (relation "measure (\<lambda>(pos, width, pad). nat (width - int pos))") auto

declare pad_loop.simps [simp del]

fun emit_loop :: "string \<Rightarrow> nat \<Rightarrow> mmio_trace option" where
  "emit_loop buf 0 = Some []"
| "emit_loop buf (Suc pos) = do {
     c \<leftarrow> rd buf pos;
     out \<leftarrow> emit_loop buf pos;
     Some (uart_putc c @ out)
   }"

definition uart_put_unsigned :: "ee_u32 \<Rightarrow> ee_u32 \<Rightarrow> int \<Rightarrow> char \<Rightarrow> mmio_trace option" where
  "uart_put_unsigned val base width pad = do {
     let buf = replicate 32 (CHR 0x00);
     (buf, pos) \<leftarrow> (if val = 0 then do { buf \<leftarrow> wr buf 0 (CHR ''0''); Some (buf, 1) }
                    else digit_loop val base buf 0);
     digits \<leftarrow> emit_loop buf pos;
     Some (pad_loop pos width pad @ digits)
   }"

definition uart_put_signed :: "32 word \<Rightarrow> int \<Rightarrow> char \<Rightarrow> mmio_trace option" where
  "uart_put_signed val width pad =
     (if val <s 0
      then do {
        let magnitude = - (val + 1) + 1;
        out \<leftarrow> uart_put_unsigned magnitude 10 width pad;
        Some (uart_putc (CHR ''-'') @ out)
      }
      else uart_put_unsigned val 10 width pad)"

section \<open>The formatted print\<close>

text \<open>A variable argument is a 32-bit integer (\<^verbatim>\<open>int\<close> and \<^verbatim>\<open>long\<close> have one size on
  RV32) or a pointer to a string, \<^term>\<open>None\<close> for the null pointer. Taking an argument that
  is not there, or of the other kind, is undefined.\<close>

datatype va = VInt "32 word" | VStr "string option"

fun va_int :: "va list \<Rightarrow> (32 word \<times> va list) option" where
  "va_int (VInt x # ap) = Some (x, ap)"
| "va_int _ = None"

fun va_str :: "va list \<Rightarrow> (string option \<times> va list) option" where
  "va_str (VStr s # ap) = Some (s, ap)"
| "va_str _ = None"

fun read_width :: "string \<Rightarrow> int \<Rightarrow> int \<times> string" where
  "read_width [] width = (width, [])"
| "read_width (c # p) width =
     (if (of_char (CHR ''0'') :: nat) \<le> of_char c \<and> of_char c \<le> (of_char (CHR ''9'') :: nat)
      then read_width p (width * 10 + (of_char c - of_char (CHR ''0'')))
      else (width, c # p))"

text \<open>One directive after its \<^verbatim>\<open>%\<close>, flags and width: the output and the remaining
  arguments.\<close>

definition put_directive :: "char \<Rightarrow> int \<Rightarrow> char \<Rightarrow> va list \<Rightarrow> (mmio_trace \<times> va list) option" where
  "put_directive c width pad ap =
     (if c = CHR ''d'' \<or> c = CHR ''i'' then do {
        (x, ap) \<leftarrow> va_int ap; out \<leftarrow> uart_put_signed x width pad; Some (out, ap) }
      else if c = CHR ''u'' then do {
        (x, ap) \<leftarrow> va_int ap; out \<leftarrow> uart_put_unsigned x 10 width pad; Some (out, ap) }
      else if c = CHR ''x'' \<or> c = CHR ''X'' then do {
        (x, ap) \<leftarrow> va_int ap; out \<leftarrow> uart_put_unsigned x 16 width pad; Some (out, ap) }
      else if c = CHR ''c'' then do {
        (x, ap) \<leftarrow> va_int ap; Some (uart_putc (char_of (unat x)), ap) }
      else if c = CHR ''s'' then do {
        (s, ap) \<leftarrow> va_str ap;
        Some (uart_puts (case s of Some s \<Rightarrow> s | None \<Rightarrow> ''(null)''), ap) }
      else Some (uart_putc (CHR ''%'') @ uart_putc c, ap))"

text \<open>The flags after a \<^verbatim>\<open>%\<close> that is not doubled: padding character, width and the
  format from the conversion character on.\<close>

definition read_flags :: "string \<Rightarrow> char \<times> int \<times> string" where
  "read_flags p =
     (let (pad, p) = (case p of c # p' \<Rightarrow> if c = CHR ''0'' then (CHR ''0'', p') else (CHR '' '', p)
                      | [] \<Rightarrow> (CHR '' '', []));
          (width, p) = read_width p 0;
          p = (case p of c # p' \<Rightarrow> if c = CHR ''l'' then p' else p | [] \<Rightarrow> [])
      in (pad, width, p))"

lemma read_width_length: "read_width p w = (w', p') \<Longrightarrow> length p' \<le> length p"
  by (induction p w rule: read_width.induct) (auto split: if_splits)

lemma read_flags_length: "read_flags p = (pad, w, p') \<Longrightarrow> length p' \<le> length p"
  by (auto simp: read_flags_def Let_def split: list.splits if_splits prod.splits
      dest!: read_width_length)

text \<open>The loop over the format. When the format ends inside a directive, the conversion
  character read is the terminating NUL: the default branch prints \<^verbatim>\<open>%\<close>, and the loop
  increment steps past the terminator, so the next read is outside the string.\<close>

function ee_printf :: "string \<Rightarrow> va list \<Rightarrow> mmio_trace option" where
  "ee_printf [] ap = Some []"
| "ee_printf (c # p) ap =
     (if c \<noteq> CHR ''%'' then do {
        out \<leftarrow> ee_printf p ap;
        Some ((if c = LF then uart_putc CR else []) @ uart_putc c @ out) }
      else if (case p of d # _ \<Rightarrow> d = CHR ''%'' | [] \<Rightarrow> False) then do {
        out \<leftarrow> ee_printf (tl p) ap;
        Some (uart_putc (CHR ''%'') @ out) }
      else (case read_flags p of (pad, width, q) \<Rightarrow>
        (case q of [] \<Rightarrow> None
         | d # r \<Rightarrow> do {
             (out, ap) \<leftarrow> put_directive d width pad ap;
             rest \<leftarrow> ee_printf r ap;
             Some (out @ rest) })))"
  by pat_completeness auto
termination
proof (relation "measure (\<lambda>(fmt, ap). length fmt)", goal_cases)
  case (4 c p ap x y xa ya d r a b aa)
  then show ?case by (auto dest!: read_flags_length [OF sym])
qed auto

section \<open>Numbers as text\<close>

text \<open>Plain text on the UART, and the reference rendering of a number.\<close>

definition uart_text :: "string \<Rightarrow> mmio_trace" where
  "uart_text s = concat (map uart_putc s)"

lemma uart_text_simps [simp]:
  "uart_text [] = []"
  "uart_text (c # s) = uart_putc c @ uart_text s"
  "uart_text (s @ s') = uart_text s @ uart_text s'"
  by (simp_all add: uart_text_def)

fun digits :: "nat \<Rightarrow> nat \<Rightarrow> nat list" where
  "digits b n = (if n = 0 \<or> b < 2 then [] else n mod b # digits b (n div b))"

declare digits.simps [simp del]

lemma digits_0 [simp]: "digits b 0 = []"
  by (simp add: digits.simps)

lemma digits_rec: "n \<noteq> 0 \<Longrightarrow> 2 \<le> b \<Longrightarrow> digits b n = n mod b # digits b (n div b)"
  by (subst digits.simps) auto

lemma digits_less: "d \<in> set (digits b n) \<Longrightarrow> d < b"
  by (induction b n rule: digits.induct) (subst (asm) digits.simps, auto split: if_splits)

lemma length_digits: "n < b ^ k \<Longrightarrow> length (digits b n) \<le> k"
proof (induction k arbitrary: n)
  case (Suc k)
  show ?case
  proof (cases "n = 0 \<or> b < 2")
    case True
    then show ?thesis by (subst digits.simps) auto
  next
    case False
    then have "n div b < b ^ k" using Suc.prems by (simp add: less_mult_imp_div_less mult.commute)
    with Suc.IH False show ?thesis by (simp add: digits_rec)
  qed
qed simp

lemma digits_last: "digits b n \<noteq> [] \<Longrightarrow> last (digits b n) \<noteq> 0"
proof (induction b n rule: digits.induct)
  case (1 b n)
  then have nb: "n \<noteq> 0" "2 \<le> b" by (auto simp: digits.simps [of b n] split: if_splits)
  show ?case
  proof (cases "digits b (n div b) = []")
    case True
    then have "n div b = 0" using nb by (metis digits_rec list.distinct(1))
    then show ?thesis using nb True by (simp add: digits_rec div_eq_0_iff)
  next
    case False
    then show ?thesis using "1.IH" nb by (simp add: digits_rec)
  qed
qed

definition render :: "nat \<Rightarrow> nat \<Rightarrow> string" where
  "render b n = (if n = 0 then ''0'' else rev (map (\<lambda>d. digit_char (word_of_nat d)) (digits b n)))"

definition digit_val :: "char \<Rightarrow> nat" where
  "digit_val c = (let x = of_char c in if x < 97 then x - 48 else x - 87)"

definition value_of :: "nat \<Rightarrow> string \<Rightarrow> nat" where
  "value_of b s = foldl (\<lambda>a c. a * b + digit_val c) 0 s"

lemma digit_val_char [simp]: "d < 36 \<Longrightarrow> digit_val (digit_char (word_of_nat d)) = d"
  by (simp add: digit_val_def digit_char_def word_less_nat_alt unat_of_nat take_bit_nat_eq_self
      of_char_of take_bit_nat_eq_self)

lemma value_of_snoc: "value_of b (s @ [c]) = value_of b s * b + digit_val c"
  by (simp add: value_of_def)

lemma value_of_digits:
  "2 \<le> b \<Longrightarrow> b \<le> 36 \<Longrightarrow> value_of b (rev (map (\<lambda>d. digit_char (word_of_nat d)) (digits b n))) = n"
proof (induction b n rule: digits.induct)
  case (1 b n)
  show ?case
  proof (cases "n = 0")
    case False
    moreover have "n mod b < 36" using "1.prems" mod_less_divisor [of b n] by linarith
    ultimately show ?thesis using 1 by (simp add: digits_rec value_of_snoc)
  qed (simp add: value_of_def)
qed

lemma value_of_render: "2 \<le> b \<Longrightarrow> b \<le> 36 \<Longrightarrow> value_of b (render b n) = n"
  by (auto simp: render_def value_of_digits) (simp add: value_of_def digit_val_def)

lemma render_length: "2 \<le> b \<Longrightarrow> n < 2 ^ 32 \<Longrightarrow> length (render b n) \<le> 32 \<and> render b n \<noteq> []"
proof -
  assume b: "2 \<le> b" and n: "n < 2 ^ 32"
  have "(2 :: nat) ^ 32 \<le> b ^ 32" using b by (rule power_mono) simp
  then have "length (digits b n) \<le> 32" using n by (intro length_digits) simp
  then show ?thesis using b by (auto simp: render_def digits_rec)
qed

lemma digit_loop_render:
  assumes "2 \<le> unat base" and "length (digits (unat base) (unat v)) \<le> length rest"
  shows "digit_loop v base (pre @ rest) (length pre) =
    Some (pre @ map (\<lambda>d. digit_char (word_of_nat d)) (digits (unat base) (unat v)) @
            drop (length (digits (unat base) (unat v))) rest,
          length pre + length (digits (unat base) (unat v)))"
  using assms
proof (induction "unat base" "unat v" arbitrary: v pre rest rule: digits.induct)
  case 1
  show ?case
  proof (cases "v = 0")
    case True
    then show ?thesis by (simp add: digit_loop.simps)
  next
    case False
    let ?ds = "digits (unat base) (unat (v div base))"
    have ds: "digits (unat base) (unat v) = unat (v mod base) # ?ds"
      using False 1(2) by (simp add: digits_rec unat_eq_0 unat_div unat_mod)
    then obtain r rs where rest: "rest = r # rs" using 1(3) by (cases rest) auto
    have IH: "digit_loop (v div base) base ((pre @ [digit_char (v mod base)]) @ rs) (length (pre @ [digit_char (v mod base)])) =
      Some ((pre @ [digit_char (v mod base)]) @ map (\<lambda>d. digit_char (word_of_nat d)) ?ds @ drop (length ?ds) rs,
        length (pre @ [digit_char (v mod base)]) + length ?ds)"
      by (rule 1(1)) (use False 1(2,3) ds rest in \<open>auto simp: unat_div unat_eq_0\<close>)
    have "base \<noteq> 0" using 1(2) by auto
    with False rest IH ds show ?thesis by (subst digit_loop.simps) simp
  qed
qed

lemma emit_loop_text: "n \<le> length buf \<Longrightarrow> emit_loop buf n = Some (uart_text (rev (take n buf)))"
  by (induction n) (simp_all add: take_Suc_conv_app_nth)

lemma pad_loop_text: "pad_loop pos width pad = uart_text (replicate (nat width - pos) pad)"
proof (induction pos width pad rule: pad_loop.induct)
  case (1 pos width pad)
  show ?case
  proof (cases "int pos < width")
    case True
    then have "nat width - pos = Suc (nat (width - 1) - pos)" by linarith
    with 1 True show ?thesis by (subst pad_loop.simps) simp
  next
    case False
    then show ?thesis by (subst pad_loop.simps) simp
  qed
qed

lemma put_unsigned_text:
  assumes "2 \<le> unat base"
  shows "uart_put_unsigned v base width pad =
    Some (uart_text (replicate (nat width - length (render (unat base) (unat v))) pad @
      render (unat base) (unat v)))"
proof (cases "v = 0")
  case True
  then show ?thesis
    by (simp add: uart_put_unsigned_def render_def pad_loop_text)
next
  case False
  let ?ds = "digits (unat base) (unat v)"
  have "(2 :: nat) ^ 32 \<le> unat base ^ 32" using assms by (rule power_mono) simp
  then have "unat v < unat base ^ 32" using unsigned_less [of v, where ?'a = nat] by simp
  then have len: "length ?ds \<le> 32" by (rule length_digits)
  then have "digit_loop v base ([] @ replicate 32 (CHR 0x00)) (length ([] :: string)) =
     Some ([] @ map (\<lambda>d. digit_char (word_of_nat d)) ?ds @ drop (length ?ds) (replicate 32 (CHR 0x00)),
           length ([] :: string) + length ?ds)"
    by (intro digit_loop_render assms) simp
  then show ?thesis using False len
    by (simp add: uart_put_unsigned_def render_def pad_loop_text emit_loop_text unat_eq_0)
qed

lemma put_signed_text:
  "uart_put_signed v width pad =
    Some (uart_text ((if sint v < 0 then ''-'' else []) @
      replicate (nat width - length (render 10 (nat \<bar>sint v\<bar>))) pad @ render 10 (nat \<bar>sint v\<bar>)))"
proof (cases "v <s 0")
  case True
  then have "sint v < 0" by (simp add: word_sless_alt)
  with True show ?thesis
    by (simp add: uart_put_signed_def put_unsigned_text unat_uminus_sint_neg)
next
  case False
  then have "0 \<le> sint v" by (simp add: word_sless_alt not_less)
  with False show ?thesis
    by (simp add: uart_put_signed_def put_unsigned_text unat_sint_pos)
qed

section \<open>Formats as sequences of items\<close>

text \<open>A format string built from items: plain text, a number with its conversion, zero flag,
  width (0 for none) and length flag, and a string. \<open>item_fmt\<close> is what the programmer
  writes, \<open>item_args\<close> what it consumes, \<open>item_out\<close> what should appear.\<close>

datatype conv = Dec | Unsig | Hex

datatype item = Text string | Num conv bool nat bool "32 word" | Str string

definition conv_char :: "conv \<Rightarrow> char" where
  "conv_char k = (case k of Dec \<Rightarrow> CHR ''d'' | Unsig \<Rightarrow> CHR ''u'' | Hex \<Rightarrow> CHR ''x'')"

definition flags_text :: "bool \<Rightarrow> nat \<Rightarrow> bool \<Rightarrow> string" where
  "flags_text zero width long =
     (if zero then ''0'' else []) @ (if width = 0 then [] else render 10 width) @
     (if long then ''l'' else [])"

definition pad_to :: "bool \<Rightarrow> nat \<Rightarrow> string \<Rightarrow> string" where
  "pad_to zero width s = replicate (width - length s) (if zero then CHR ''0'' else CHR '' '') @ s"

fun item_fmt :: "item \<Rightarrow> string" where
  "item_fmt (Text s) = s"
| "item_fmt (Num k zero width long v) = ''%'' @ flags_text zero width long @ [conv_char k]"
| "item_fmt (Str s) = ''%s''"

fun item_args :: "item \<Rightarrow> va list" where
  "item_args (Text s) = []"
| "item_args (Num k zero width long v) = [VInt v]"
| "item_args (Str s) = [VStr (Some s)]"

fun item_out :: "item \<Rightarrow> mmio_trace" where
  "item_out (Text s) = uart_puts s"
| "item_out (Num k zero width long v) = uart_text
     (case k of
        Dec \<Rightarrow> (if sint v < 0 then ''-'' else []) @ pad_to zero width (render 10 (nat \<bar>sint v\<bar>))
      | Unsig \<Rightarrow> pad_to zero width (render 10 (unat v))
      | Hex \<Rightarrow> pad_to zero width (render 16 (unat v)))"
| "item_out (Str s) = uart_puts s"

definition is_digit_char :: "char \<Rightarrow> bool" where
  "is_digit_char c \<longleftrightarrow> (of_char (CHR ''0'') :: nat) \<le> of_char c \<and> of_char c \<le> (of_char (CHR ''9'') :: nat)"

lemma read_width_digits:
  "\<forall>c\<in>set s. is_digit_char c \<Longrightarrow> \<not> is_digit_char d \<Longrightarrow>
    read_width (s @ d # p) w = (foldl (\<lambda>a c. a * 10 + int (digit_val c)) w s, d # p)"
proof (induction s arbitrary: w)
  case (Cons c s)
  then have "int (digit_val c) = of_char c - of_char (CHR ''0'')"
    by (simp add: is_digit_char_def digit_val_def Let_def of_nat_diff of_nat_of_char)
  with Cons show ?case by (simp add: is_digit_char_def)
qed (auto simp: is_digit_char_def)

lemma int_value_of: "foldl (\<lambda>a c. a * 10 + int (digit_val c)) (int w) s =
    int (foldl (\<lambda>a c. a * 10 + digit_val c) w s)"
proof (induction s arbitrary: w)
  case (Cons c s)
  from Cons [of "w * 10 + digit_val c"] show ?case by simp
qed simp

lemma render_dec_digits: "c \<in> set (render 10 n) \<Longrightarrow> is_digit_char c"
  by (auto simp: render_def is_digit_char_def digit_char_def word_less_nat_alt unat_of_nat
      take_bit_nat_eq_self of_char_of split: if_splits dest!: digits_less)

lemma read_width_render:
  "\<not> is_digit_char d \<Longrightarrow> read_width (render 10 n @ d # p) 0 = (int n, d # p)"
  using read_width_digits [of "render 10 n" d p 0] int_value_of [of 0 "render 10 n"]
    value_of_render [of 10 n]
  by (simp add: value_of_def render_dec_digits)

lemma render_hd_nonzero: "0 < n \<Longrightarrow> \<exists>c s. render 10 n = c # s \<and> c \<noteq> CHR ''0''"
proof -
  assume n: "0 < n"
  then have "digits 10 n \<noteq> []" by (simp add: digits_rec)
  then obtain ds d where ds: "digits 10 n = ds @ [d]" by (metis rev_exhaust)
  then have "d \<noteq> 0" "d < 10"
    using digits_last [of 10 n] digits_less [of d 10 n] by auto
  then have "digit_val (digit_char (word_of_nat d)) \<noteq> digit_val (CHR ''0'')"
    by (simp add: digit_val_def [of "CHR ''0''"])
  with n ds show ?thesis by (auto simp: render_def)
qed

lemma read_flags_text:
  assumes "\<not> is_digit_char d" and "d \<noteq> CHR ''l''"
  shows "read_flags (flags_text zero width long @ d # p) =
    (if zero then CHR ''0'' else CHR '' '', int width, d # p)"
proof -
  have l: "\<not> is_digit_char (CHR ''l'')" by (simp add: is_digit_char_def)
  have z: "is_digit_char (CHR ''0'')" by (simp add: is_digit_char_def)
  have "read_width ((if width = 0 then [] else render 10 width) @ e # q) 0 = (int width, e # q)"
    if "\<not> is_digit_char e" for e q
    using that read_width_digits [of "[]" e q 0] by (simp add: read_width_render)
  note w = this [OF assms(1)] this [OF l]
  show ?thesis
  proof (cases "zero \<or> width = 0")
    case True
    with assms z w show ?thesis
      by (cases long; cases zero) (auto simp: read_flags_def flags_text_def)
  next
    case False
    then obtain c s where "render 10 width = c # s" "c \<noteq> CHR ''0''"
      using render_hd_nonzero by blast
    with False assms w show ?thesis
      by (cases long) (auto simp: read_flags_def flags_text_def)
  qed
qed

lemma flags_text_not_percent: "CHR ''%'' \<notin> set (flags_text zero width long)"
proof -
  have "\<not> is_digit_char (CHR ''%'')" by (simp add: is_digit_char_def)
  then have "CHR ''%'' \<notin> set (render 10 width)" using render_dec_digits by blast
  then show ?thesis by (auto simp: flags_text_def)
qed

lemma ee_printf_text:
  "CHR ''%'' \<notin> set s \<Longrightarrow> ee_printf (s @ p) ap = map_option (\<lambda>out. uart_puts s @ out) (ee_printf p ap)"
  by (induction s) (auto simp: map_option.compositionality comp_def map_conv_bind_option option.map_ident)

lemma ee_printf_directive:
  assumes "\<not> is_digit_char d" and "d \<noteq> CHR ''l''" and "d \<noteq> CHR ''%''"
  shows "ee_printf (''%'' @ flags_text zero width long @ d # p) ap =
    do { (out, ap) \<leftarrow> put_directive d (int width) (if zero then CHR ''0'' else CHR '' '') ap;
         rest \<leftarrow> ee_printf p ap; Some (out @ rest) }"
proof -
  have "\<not> (case flags_text zero width long @ d # p of e # _ \<Rightarrow> e = CHR ''%'' | [] \<Rightarrow> False)"
    using assms(3) flags_text_not_percent [of zero width long]
    by (cases "flags_text zero width long") auto
  then show ?thesis by (simp add: read_flags_text [OF assms(1,2)])
qed

lemma ee_printf_item:
  assumes "\<forall>s. it = Text s \<longrightarrow> CHR ''%'' \<notin> set s"
  shows "ee_printf (item_fmt it @ p) (item_args it @ ap) =
    map_option (\<lambda>out. item_out it @ out) (ee_printf p ap)"
proof (cases it)
  case (Text s)
  then show ?thesis using assms by (simp add: ee_printf_text)
next
  case (Num k zero width long v)
  have d: "\<not> is_digit_char (conv_char k)" "conv_char k \<noteq> CHR ''l''" "conv_char k \<noteq> CHR ''%''"
    by (cases k; simp add: conv_char_def is_digit_char_def)+
  show ?thesis using ee_printf_directive [OF d, of zero width long p "VInt v # ap"] Num
    by (cases k; cases "ee_printf p ap")
      (simp_all add: put_directive_def conv_char_def put_signed_text put_unsigned_text pad_to_def
        del: ee_printf.simps)
next
  case (Str s)
  have d: "\<not> is_digit_char (CHR ''s'')" "CHR ''s'' \<noteq> CHR ''l''" "CHR ''s'' \<noteq> CHR ''%''"
    by (simp_all add: is_digit_char_def)
  show ?thesis using ee_printf_directive [OF d, of False 0 False p "VStr (Some s) # ap"] Str
    by (cases "ee_printf p ap") (simp_all add: put_directive_def flags_text_def del: ee_printf.simps)
qed

lemma ee_printf_items:
  "\<forall>s. Text s \<in> set its \<longrightarrow> CHR ''%'' \<notin> set s \<Longrightarrow>
    ee_printf (concat (map item_fmt its)) (concat (map item_args its)) = Some (concat (map item_out its))"
  by (induction its) (simp_all add: ee_printf_item)

section \<open>Properties\<close>

text \<open>\<^verbatim>\<open>uart_put_unsigned\<close> never writes past its 32-byte buffer, whatever the value, in
  any base from 2 up; it emits the padding and then the digits of the value, and reading
  those digits back in that base gives the value.\<close>

theorem put_unsigned_roundtrip:
  assumes "2 \<le> unat base" and "unat base \<le> 36"
  shows "\<exists>ds. uart_put_unsigned v base width pad =
      Some (uart_text (replicate (nat width - length ds) pad @ ds)) \<and>
    value_of (unat base) ds = unat v \<and> 1 \<le> length ds \<and> length ds \<le> 32"
proof -
  have "length (render (unat base) (unat v)) \<le> 32 \<and> render (unat base) (unat v) \<noteq> []"
    using assms(1) unsigned_less [of v, where ?'a = nat] by (intro render_length) simp_all
  then show ?thesis
    using assms by (intro exI [of _ "render (unat base) (unat v)"])
      (simp add: put_unsigned_text value_of_render Suc_le_eq)
qed

theorem put_unsigned_roundtrip_witness:
  "\<exists>ds. uart_put_unsigned 48879 16 8 (CHR ''0'') =
      Some (uart_text (replicate (8 - length ds) (CHR ''0'') @ ds)) \<and>
    value_of 16 ds = 48879 \<and> 1 \<le> length ds \<and> length ds \<le> 32"
  using put_unsigned_roundtrip [of 16 48879 8 "CHR ''0''"] by simp

text \<open>\<^verbatim>\<open>uart_put_signed\<close> prints the two's complement value of its argument, a minus sign
  before the magnitude when it is negative, also for the least 32-bit integer, whose
  magnitude is not an \<^verbatim>\<open>int32_t\<close>.\<close>

theorem put_signed_correct:
  "uart_put_signed v width pad =
    Some (uart_text ((if sint v < 0 then ''-'' else []) @
      replicate (nat width - length (render 10 (nat \<bar>sint v\<bar>))) pad @
      render 10 (nat \<bar>sint v\<bar>)))"
  by (rule put_signed_text)



text \<open>a format that ends in a lone \<^verbatim>\<open>%\<close> makes \<^verbatim>\<open>ee_printf\<close> read past the terminator
  of the format string.\<close>

theorem ee_printf_trailing_percent:
  assumes "CHR ''%'' \<notin> set s"
  shows "ee_printf (s @ ''%'') ap = None"
  by (simp only: ee_printf_text [OF assms]) (simp add: read_flags_def)

theorem ee_printf_trailing_percent_witness: "ee_printf (''100'' @ ''%'') [] = None"
  by (rule ee_printf_trailing_percent) simp

end
