(* ===== verification/Portme.thy ===== *)
theory Portme
  imports Uart
begin

text \<open>
  The bare-metal port \<^verbatim>\<open>coremark/core_portme.c\<close>, second half: timing from the cycle
  counter, the alignment helper, the bump allocator, start-up and shut-down. Values of the
  \<^verbatim>\<open>rdcycle\<close> and \<^verbatim>\<open>rdinstret\<close> instructions are arguments of the operations that
  read them.
\<close>

section \<open>Timing\<close>

definition CORE_CLOCK_HZ :: ee_u32 where "CORE_CLOCK_HZ = 100000000"

record timer =
  t0 :: ee_u32
  t1 :: ee_u32
  instret0 :: ee_u32
  instret1 :: ee_u32

definition start_time :: "ee_u32 \<Rightarrow> ee_u32 \<Rightarrow> timer \<Rightarrow> timer" where
  "start_time cycle instret t = t\<lparr>t0 := cycle, instret0 := instret\<rparr>"

definition stop_time :: "ee_u32 \<Rightarrow> ee_u32 \<Rightarrow> timer \<Rightarrow> timer" where
  "stop_time cycle instret t = t\<lparr>t1 := cycle, instret1 := instret\<rparr>"

definition get_time :: "timer \<Rightarrow> ee_u32" where
  "get_time t = t1 t - t0 t"

definition time_in_secs :: "ee_u32 \<Rightarrow> ee_u32" where
  "time_in_secs ticks =
     (if ticks = 0 then 0 else (ticks + (CORE_CLOCK_HZ - 1)) div CORE_CLOCK_HZ)"

section \<open>Memory allocation\<close>

definition PORTABLE_HEAP_SIZE :: ee_u32 where "PORTABLE_HEAP_SIZE = 16 * 1024"

definition align_mem :: "addr \<Rightarrow> addr" where
  "align_mem p = (p + 7) AND NOT 7"

text \<open>The allocator's only state is \<^verbatim>\<open>heap_off\<close>; a block is its offset in
  \<^verbatim>\<open>portable_heap\<close>, \<^term>\<open>None\<close> the null pointer.\<close>

definition portable_malloc :: "ee_u32 \<Rightarrow> ee_u32 \<Rightarrow> ee_u32 option \<times> ee_u32" where
  "portable_malloc sz heap_off =
     (let sz = (sz + 7) AND NOT 7;
          off = (heap_off + 7) AND NOT 7
      in if off + sz > PORTABLE_HEAP_SIZE then (None, heap_off)
         else (Some off, off + sz))"

definition portable_free :: "ee_u32 option \<Rightarrow> ee_u32 \<Rightarrow> ee_u32" where
  "portable_free p heap_off = heap_off"

section \<open>Start-up and shut-down\<close>

record core_portable =
  portable_id :: ee_u8

text \<open>\<^verbatim>\<open>portable_init\<close> resets the allocator and prints the banner; the read of
  \<^verbatim>\<open>fromhost\<close> has no effect on the program's state.\<close>

definition portable_init :: "core_portable \<Rightarrow> (core_portable \<times> ee_u32 \<times> mmio_trace) option" where
  "portable_init p = do {
     n \<leftarrow> uart_put_unsigned CORE_CLOCK_HZ 10 0 (CHR '' '');
     Some (p\<lparr>portable_id := 1\<rparr>, 0,
       uart_puts (''[coremark] UART online, benchmark starting'' @ [LF]) @
       uart_puts (''[coremark] Timing uses CSR cycle/mcycle'' @ [LF]) @
       uart_puts ''[coremark] Core clock for seconds conversion = '' @ n @
       uart_puts ('' Hz'' @ [LF]))
   }"

definition ipc_x10000 :: "ee_u32 \<Rightarrow> ee_u32 \<Rightarrow> ee_u32" where
  "ipc_x10000 retired cycles =
     (if cycles \<noteq> 0
      then ucast ((ucast retired * 10000 + ucast (cycles div 2)) div (ucast cycles :: 64 word))
      else 0)"

text \<open>\<^verbatim>\<open>portable_fini\<close> reports, signals \<^verbatim>\<open>tohost\<close> and then spins for ever: the output
  is everything the program ever writes.\<close>

definition portable_fini :: "timer \<Rightarrow> mmio_trace option" where
  "portable_fini t = do {
     let measured_cycles = t1 t - t0 t;
     let retired_instructions = instret1 t - instret0 t;
     let ipc = ipc_x10000 retired_instructions measured_cycles;
     n \<leftarrow> uart_put_unsigned retired_instructions 10 0 (CHR '' '');
     whole \<leftarrow> uart_put_unsigned (ipc div 10000) 10 0 (CHR '' '');
     frac \<leftarrow> uart_put_unsigned (ipc mod 10000) 10 4 (CHR ''0'');
     Some (uart_puts ''[coremark] Retired instructions = '' @ n @
       uart_puts ([LF] @ ''[coremark] Measured IPC = '') @ whole @
       uart_putc (CHR ''.'') @ frac @ uart_putc LF @
       uart_puts (''[coremark] Benchmark finished, signaling tohost=1'' @ [LF]) @
       mmio_write32 TOHOST_ADDR 1)
   }"

section \<open>The smoke program\<close>

text \<open>\<^verbatim>\<open>coremark/hello.c\<close>: raw UART output without line-end conversion, then the success
  signal and an endless loop.\<close>

definition putc_uart :: "char \<Rightarrow> mmio_trace" where
  "putc_uart c = mmio_write32 UART_TX_ADDR (of_char c)"

fun puts_uart :: "string \<Rightarrow> mmio_trace" where
  "puts_uart [] = []"
| "puts_uart (c # s) = putc_uart c @ puts_uart s"

definition hello_main :: mmio_trace where
  "hello_main = puts_uart (''12345'' @ [LF]) @ mmio_write32 TOHOST_ADDR 1"

section \<open>Alignment\<close>

lemma and_minus_8: "(x :: 32 word) AND - 8 = x div 8 * 8"
proof -
  have "x AND NOT (mask 3) = push_bit 3 (drop_bit 3 x)"
    by (rule bit_word_eqI) (auto simp: bit_simps simp del: mask_numeral)
  then show ?thesis by (simp add: mask_eq_exp_minus_1 push_bit_eq_mult drop_bit_eq_div mult.commute)
qed

lemma unat_and_minus_8: "unat ((x :: 32 word) AND - 8) = unat x div 8 * 8"
proof -
  have "unat x div 8 * 8 < 4294967296"
    using unat32_bound [of x] div_times_less_eq_dividend [of "unat x" 8] by linarith
  then show ?thesis by (simp add: and_minus_8 unat_word_ariths unat_div)
qed

lemma unat_align_mem:
  "unat p + 7 < 2 ^ 32 \<Longrightarrow> unat (align_mem p) = (unat p + 7) div 8 * 8"
  by (simp add: align_mem_def unat_and_minus_8 unat_word_ariths)

section \<open>The allocator contract\<close>

text \<open>A run of requests, with the blocks it hands out as pairs of start and length.\<close>

fun alloc_all :: "(ee_u32 \<Rightarrow> 's \<Rightarrow> ee_u32 option \<times> 's) \<Rightarrow> ee_u32 list \<Rightarrow> 's \<Rightarrow> (nat \<times> nat) list" where
  "alloc_all alloc [] s = []"
| "alloc_all alloc (n # ns) s =
     (case alloc n s of
        (None, s') \<Rightarrow> alloc_all alloc ns s'
      | (Some p, s') \<Rightarrow> (unat p, unat n) # alloc_all alloc ns s')"

locale block_allocator =
  fixes alloc :: "ee_u32 \<Rightarrow> 's \<Rightarrow> ee_u32 option \<times> 's"
    and inv :: "'s \<Rightarrow> bool"
    and top :: "'s \<Rightarrow> nat"
    and limit :: nat
    and ok :: "ee_u32 \<Rightarrow> bool"
  assumes alloc_Some: "\<lbrakk>inv s; ok n; alloc n s = (Some p, s')\<rbrakk> \<Longrightarrow>
      inv s' \<and> top s \<le> unat p \<and> unat p + unat n \<le> top s' \<and> unat p mod 8 = 0"
    and alloc_None: "\<lbrakk>inv s; alloc n s = (None, s')\<rbrakk> \<Longrightarrow> s' = s"
    and top_limit: "inv s \<Longrightarrow> top s \<le> limit"
begin

lemma alloc_all_region:
  "\<lbrakk>inv s; list_all ok ns; (p, n) \<in> set (alloc_all alloc ns s)\<rbrakk> \<Longrightarrow>
    top s \<le> p \<and> p + n \<le> limit \<and> p mod 8 = 0"
proof (induction ns arbitrary: s)
  case (Cons m ns)
  obtain q s' where a: "alloc m s = (q, s')" by fastforce
  show ?case
  proof (cases q)
    case None
    with Cons a alloc_None show ?thesis by fastforce
  next
    case (Some r)
    with Cons.prems a have r: "inv s'" "top s \<le> unat r" "unat r + unat m \<le> top s'" "unat r mod 8 = 0"
      using alloc_Some [of s m r s'] by auto
    then have "unat r + unat m \<le> limit" using top_limit [of s'] by simp
    with r Cons.prems a Some Cons.IH [OF r(1)] show ?thesis by auto
  qed
qed simp

lemma alloc_all_disjoint:
  "\<lbrakk>inv s; list_all ok ns\<rbrakk> \<Longrightarrow> sorted_wrt (\<lambda>(p, n) (q, m). p + n \<le> q) (alloc_all alloc ns s)"
proof (induction ns arbitrary: s)
  case (Cons m ns)
  obtain q s' where a: "alloc m s = (q, s')" by fastforce
  show ?case
  proof (cases q)
    case None
    with Cons a alloc_None show ?thesis by fastforce
  next
    case (Some r)
    with Cons.prems a have r: "inv s'" "unat r + unat m \<le> top s'"
      using alloc_Some [of s m r s'] by auto
    with Cons a Some alloc_all_region [OF r(1), of ns] show ?thesis by fastforce
  qed
qed simp

end

definition heap_inv :: "ee_u32 \<Rightarrow> bool" where
  "heap_inv heap_off \<longleftrightarrow> heap_off \<le> PORTABLE_HEAP_SIZE"

definition small_request :: "ee_u32 \<Rightarrow> bool" where
  "small_request n \<longleftrightarrow> n \<le> 0xFFFF0000"

interpretation portable_heap: block_allocator portable_malloc heap_inv unat 16384 small_request
proof unfold_locales
  fix s n p s'
  assume h: "heap_inv s" "small_request n" "portable_malloc n s = (Some p, s')"
  have s: "unat s \<le> 16384" using h(1)
    by (simp add: heap_inv_def PORTABLE_HEAP_SIZE_def word_le_nat_alt)
  have n: "unat n \<le> 0xFFFF0000" using h(2) by (simp add: small_request_def word_le_nat_alt)
  let ?sz = "(n + 7) AND NOT 7" and ?off = "(s + 7) AND NOT 7"
  have sz: "unat ?sz = (unat n + 7) div 8 * 8" using n
    by (simp add: unat_and_minus_8 unat_word_ariths)
  have off: "unat ?off = (unat s + 7) div 8 * 8" using s
    by (simp add: unat_and_minus_8 unat_word_ariths)
  have "unat ?off + unat ?sz < 2 ^ 32" unfolding sz off using n s by simp
  then have sum: "unat (?off + ?sz) = unat ?off + unat ?sz" by (simp add: unat_word_ariths)
  have res: "p = ?off" "s' = ?off + ?sz" "?off + ?sz \<le> PORTABLE_HEAP_SIZE"
    using h(3) by (auto simp: portable_malloc_def Let_def split: if_splits)
  show "heap_inv s' \<and> unat s \<le> unat p \<and> unat p + unat n \<le> unat s' \<and> unat p mod 8 = 0"
    using res sum sz off by (auto simp: heap_inv_def)
next
  show "s' = s" if "heap_inv s" "portable_malloc n s = (None, s')" for s n s'
    using that by (auto simp: portable_malloc_def Let_def split: if_splits)
  show "unat s \<le> 16384" if "heap_inv s" for s
    using that by (simp add: heap_inv_def PORTABLE_HEAP_SIZE_def word_le_nat_alt)
qed


section \<open>Properties\<close>



text \<open>without a bound on the request the size computation wraps: a request of
  \<^verbatim>\<open>0xFFFFFFF8\<close> bytes after 16 bytes have been handed out succeeds, moves the allocation
  point back, and the next block overlaps the first.\<close>

theorem portable_malloc_wraps:
  "alloc_all portable_malloc [16, 0xFFFFFFF8, 8] 0 = [(0, 16), (16, 0xFFFFFFF8), (8, 8)]"
  by (simp add: portable_malloc_def PORTABLE_HEAP_SIZE_def)

lemma unat_ticks_round: "unat (ticks + 99999999 :: 32 word) = (unat ticks + 99999999) mod 4294967296"
  by (simp add: unat_word_ariths)

text \<open>\<^verbatim>\<open>time_in_secs\<close> rounds a tick count up to whole seconds at 100 MHz, for every
  count up to \<^verbatim>\<open>2^32 - 10^8\<close>; beyond that the addition wraps and the result is 0.\<close>

theorem time_in_secs_rounds_up:
  "unat (time_in_secs ticks) =
     (if unat ticks \<le> 2 ^ 32 - 10 ^ 8 then (unat ticks + (10 ^ 8 - 1)) div 10 ^ 8 else 0)"
proof (cases "unat ticks \<le> 2 ^ 32 - 10 ^ 8")
  case True
  then have "unat (ticks + 99999999) = unat ticks + 99999999" by (simp add: unat_ticks_round)
  with True show ?thesis by (simp add: time_in_secs_def CORE_CLOCK_HZ_def unat_div unat_eq_0)
next
  case False
  then have "(unat ticks + 99999999) mod 4294967296 = unat ticks + 99999999 - 4294967296"
    using unat32_bound [of ticks] by (subst mod_if) simp
  then have "unat (ticks + 99999999) < 100000000"
    using unat32_bound [of ticks] by (simp add: unat_ticks_round)
  with False show ?thesis by (simp add: time_in_secs_def CORE_CLOCK_HZ_def unat_div)
qed

lemma ipc_fits: "r \<le> 2 * c \<Longrightarrow> c \<noteq> 0 \<Longrightarrow> (r * 10000 + c div 2) div c \<le> (20001 :: nat)"
proof -
  assume a: "r \<le> 2 * c" "c \<noteq> 0"
  then have "r * 10000 + c div 2 \<le> 20001 * c" by linarith
  then have "(r * 10000 + c div 2) div c \<le> 20001 * c div c" by (rule div_le_mono)
  with a show ?thesis by simp
qed

text \<open>for a core that retires at most two instructions per cycle, the reported IPC is the
  ratio of retired instructions to cycles in units of 1/10000, rounded to nearest.\<close>

theorem ipc_rounds_to_nearest:
  assumes "cycles \<noteq> 0" and "unat retired \<le> 2 * unat cycles"
  shows "unat (ipc_x10000 retired cycles) =
    (unat retired * 10000 + unat cycles div 2) div unat cycles"
proof -
  have c: "unat (ucast cycles :: 64 word) = unat cycles" for cycles :: "32 word"
    using unat32_bound [of cycles] by (simp add: unsigned_ucast_eq take_bit_nat_eq_self)
  have "unat (ucast retired * 10000 + ucast (cycles div 2) :: 64 word) =
      unat retired * 10000 + unat cycles div 2"
    using unat32_bound [of retired] unat32_bound [of cycles]
    by (simp add: unat_word_ariths c unat_div)
  moreover have "(unat retired * 10000 + unat cycles div 2) div unat cycles \<le> 20001"
    using assms by (intro ipc_fits) (simp_all add: unat_eq_0)
  moreover have "take_bit 64 (unat cycles) = unat cycles"
    using unat32_bound [of cycles] by (simp add: take_bit_nat_eq_self)
  ultimately show ?thesis
    using assms(1) by (simp add: ipc_x10000_def unsigned_ucast_eq unat_div c take_bit_nat_eq_self)
qed

theorem ipc_rounds_to_nearest_witness: "unat (ipc_x10000 859534 580436) = 14808"
proof -
  have "(580436 :: ee_u32) \<noteq> 0" "unat (859534 :: ee_u32) \<le> 2 * unat (580436 :: ee_u32)" by simp_all
  from ipc_rounds_to_nearest [OF this] show ?thesis by simp
qed

text \<open>A trace of bytes written to the UART.\<close>

definition only_uart :: "mmio_trace \<Rightarrow> bool" where
  "only_uart tr \<longleftrightarrow> (\<forall>(a, v) \<in> set tr. a = UART_TX_ADDR \<and> v < 256)"

lemma of_char_byte: "(of_char c :: 32 word) < 256"
proof -
  have "unat (of_char c :: 32 word) = of_char c" by (simp add: of_char_def unat_of_nat take_bit_nat_eq_self flip: of_nat_of_char)
  then show ?thesis by (simp add: word_less_nat_alt)
qed

lemma only_uart_simps [simp]:
  "only_uart []"
  "only_uart (tr @ tr') \<longleftrightarrow> only_uart tr \<and> only_uart tr'"
  "only_uart (uart_putc c)"
  by (auto simp: only_uart_def uart_putc_def mmio_write32_def of_char_byte)

lemma only_uart_text [simp]: "only_uart (uart_text s)"
  by (induction s) simp_all

lemma only_uart_puts [simp]: "only_uart (uart_puts s)"
  by (induction s) simp_all

text \<open>Shut-down always completes its report and ends with the one write that is not to the
  UART, the value 1 to \<^verbatim>\<open>tohost\<close>, which the harness takes as success.\<close>

theorem portable_fini_signals:
  "\<exists>report. portable_fini t = Some (report @ [(TOHOST_ADDR, 1)]) \<and> only_uart report"
proof -
  have dec: "\<exists>s. uart_put_unsigned v 10 w pad = Some (uart_text s)" for v w pad
    by (rule exI, rule put_unsigned_text) simp
  let ?r = "instret1 t - instret0 t"
  let ?ipc = "ipc_x10000 ?r (t1 t - t0 t)"
  obtain n w f where nwf: "uart_put_unsigned ?r 10 0 (CHR '' '') = Some (uart_text n)"
      "uart_put_unsigned (?ipc div 10000) 10 0 (CHR '' '') = Some (uart_text w)"
      "uart_put_unsigned (?ipc mod 10000) 10 4 (CHR ''0'') = Some (uart_text f)"
    using dec [of ?r 0 "CHR '' ''"] dec [of "?ipc div 10000" 0 "CHR '' ''"]
      dec [of "?ipc mod 10000" 4 "CHR ''0''"] by (elim exE) blast
  let ?report = "uart_puts ''[coremark] Retired instructions = '' @ uart_text n @
       uart_puts ([LF] @ ''[coremark] Measured IPC = '') @ uart_text w @
       uart_putc (CHR ''.'') @ uart_text f @ uart_putc LF @
       uart_puts (''[coremark] Benchmark finished, signaling tohost=1'' @ [LF])"
  have "portable_fini t = Some (?report @ [(TOHOST_ADDR, 1)])"
    by (simp add: portable_fini_def Let_def nwf mmio_write32_def)
  moreover have "only_uart ?report" by (simp del: uart_puts.simps)
  ultimately show ?thesis by blast
qed

end
