(* ===== verification/Memory.thy ===== *)
theory Memory
  imports Portme
begin

text \<open>
  The data model of \<^verbatim>\<open>coremark/coremark.h\<close>: list cells, matrix parameters and the results
  structure, and the memory the benchmarks work in.

  Memory is split by the type of the objects: list heads and list data by their address,
  and arrays of bytes, 16-bit and 32-bit values by the address they start at. The program
  carves all of them out of one static block; that the pieces lie inside the block and do
  not overlap is a theorem about the addresses it computes, so the split loses nothing.
  An address with no object is outside the map, and an access there is \<^term>\<open>None\<close>.
\<close>

abbreviation (input) NULL :: addr where "NULL \<equiv> 0"

record list_data =
  data16 :: ee_s16
  idx :: ee_s16

record list_head =
  nxt :: addr
  info :: addr

record mat_params =
  mat_N :: "32 word"
  mat_A :: addr
  mat_B :: addr
  mat_C :: addr

record cmem =
  heads :: "addr \<Rightarrow> list_head option"
  datas :: "addr \<Rightarrow> list_data option"
  arr8 :: "addr \<Rightarrow> ee_u8 list option"
  arr16 :: "addr \<Rightarrow> ee_s16 list option"
  arr32 :: "addr \<Rightarrow> ee_s32 list option"

definition empty_mem :: cmem where
  "empty_mem = \<lparr>heads = Map.empty, datas = Map.empty, arr8 = Map.empty, arr16 = Map.empty,
     arr32 = Map.empty\<rparr>"

text \<open>The results structure. \<^verbatim>\<open>memblock\<close> is its array of four pointers.\<close>

record core_results =
  r_seed1 :: ee_s16
  r_seed2 :: ee_s16
  r_seed3 :: ee_s16
  r_memblock :: "addr list"
  r_size :: ee_u32
  r_iterations :: ee_u32
  r_execs :: ee_u32
  r_list :: addr
  r_mat :: mat_params
  r_crc :: ee_u16
  r_crclist :: ee_u16
  r_crcmatrix :: ee_u16
  r_crcstate :: ee_u16
  r_err :: ee_s16
  r_port :: core_portable

section \<open>Access through pointers\<close>

definition upd_arr8 :: "addr \<Rightarrow> ee_u8 list \<Rightarrow> cmem \<Rightarrow> cmem" where
  "upd_arr8 a xs m = m\<lparr>arr8 := (arr8 m)(a \<mapsto> xs)\<rparr>"

definition upd_arr16 :: "addr \<Rightarrow> ee_s16 list \<Rightarrow> cmem \<Rightarrow> cmem" where
  "upd_arr16 a xs m = m\<lparr>arr16 := (arr16 m)(a \<mapsto> xs)\<rparr>"

definition upd_arr32 :: "addr \<Rightarrow> ee_s32 list \<Rightarrow> cmem \<Rightarrow> cmem" where
  "upd_arr32 a xs m = m\<lparr>arr32 := (arr32 m)(a \<mapsto> xs)\<rparr>"

lemma upd_arr_simps [simp]:
  "arr8 (upd_arr8 a xs m) = (arr8 m)(a \<mapsto> xs)"
  "arr16 (upd_arr8 a xs m) = arr16 m"
  "arr32 (upd_arr8 a xs m) = arr32 m"
  "heads (upd_arr8 a xs m) = heads m"
  "datas (upd_arr8 a xs m) = datas m"
  "arr8 (upd_arr16 a ys m) = arr8 m"
  "arr16 (upd_arr16 a ys m) = (arr16 m)(a \<mapsto> ys)"
  "arr32 (upd_arr16 a ys m) = arr32 m"
  "heads (upd_arr16 a ys m) = heads m"
  "datas (upd_arr16 a ys m) = datas m"
  "arr8 (upd_arr32 a zs m) = arr8 m"
  "arr16 (upd_arr32 a zs m) = arr16 m"
  "arr32 (upd_arr32 a zs m) = (arr32 m)(a \<mapsto> zs)"
  "heads (upd_arr32 a zs m) = heads m"
  "datas (upd_arr32 a zs m) = datas m"
  by (simp_all add: upd_arr8_def upd_arr16_def upd_arr32_def)

end
