(* ===== verification/StateMachine.thy ===== *)
theory StateMachine
  imports Memory
begin

text \<open>
  The state-machine benchmark \<^verbatim>\<open>coremark/core_state.c\<close>: a scanner that classifies the
  comma-separated tokens of a byte block as integers, floating-point or scientific numbers,
  run over the block before and after a reversible corruption; and the initialisation that
  fills the block with known tokens.

  A pointer into the block is its offset; reading or writing outside the block is
  \<^term>\<open>None\<close>.
\<close>

section \<open>States and counters\<close>

datatype core_state_e = CORE_START | CORE_INVALID | CORE_S1 | CORE_S2 | CORE_INT | CORE_FLOAT
  | CORE_EXPONENT | CORE_SCIENTIFIC

fun state_num :: "core_state_e \<Rightarrow> nat" where
  "state_num CORE_START = 0"
| "state_num CORE_INVALID = 1"
| "state_num CORE_S1 = 2"
| "state_num CORE_S2 = 3"
| "state_num CORE_INT = 4"
| "state_num CORE_FLOAT = 5"
| "state_num CORE_EXPONENT = 6"
| "state_num CORE_SCIENTIFIC = 7"

text \<open>The enumeration is ordered by its numbers, as in C.\<close>

instantiation core_state_e :: linorder
begin

definition less_eq_core_state_e :: "core_state_e \<Rightarrow> core_state_e \<Rightarrow> bool" where
  "less_eq_core_state_e s t \<longleftrightarrow> state_num s \<le> state_num t"

definition less_core_state_e :: "core_state_e \<Rightarrow> core_state_e \<Rightarrow> bool" where
  "less_core_state_e s t \<longleftrightarrow> state_num s < state_num t"

instance
proof
  show "s = t" if "s \<le> t" "t \<le> s" for s t :: core_state_e
    using that by (cases s; cases t; simp add: less_eq_core_state_e_def)
qed (auto simp: less_eq_core_state_e_def less_core_state_e_def)

end

abbreviation (input) NUM_CORE_STATES :: nat where "NUM_CORE_STATES \<equiv> 8"

type_synonym counts = "ee_u32 list"

text \<open>\<^verbatim>\<open>counts[s]++\<close> on an array of \<^verbatim>\<open>NUM_CORE_STATES\<close> counters.\<close>

definition bump :: "counts \<Rightarrow> core_state_e \<Rightarrow> counts" where
  "bump c s = c[state_num s := c ! state_num s + 1]"

section \<open>The scanner\<close>

abbreviation chr :: "char \<Rightarrow> ee_u8" where "chr c \<equiv> of_char c"

definition ee_isdigit :: "ee_u8 \<Rightarrow> ee_u8" where
  "ee_isdigit c = (if chr (CHR ''0'') \<le> c \<and> c \<le> chr (CHR ''9'') then 1 else 0)"

text \<open>The switch of \<^verbatim>\<open>core_state_transition\<close>: the next state and the counted
  transition.\<close>

fun switch_state :: "core_state_e \<Rightarrow> ee_u8 \<Rightarrow> counts \<Rightarrow> core_state_e \<times> counts" where
  "switch_state CORE_START c tc =
     (let (state, tc) =
        (if ee_isdigit c \<noteq> 0 then (CORE_INT, tc)
         else if c = chr (CHR ''+'') \<or> c = chr (CHR ''-'') then (CORE_S1, tc)
         else if c = chr (CHR ''.'') then (CORE_FLOAT, tc)
         else (CORE_INVALID, bump tc CORE_INVALID))
      in (state, bump tc CORE_START))"
| "switch_state CORE_S1 c tc =
     (if ee_isdigit c \<noteq> 0 then (CORE_INT, bump tc CORE_S1)
      else if c = chr (CHR ''.'') then (CORE_FLOAT, bump tc CORE_S1)
      else (CORE_INVALID, bump tc CORE_S1))"
| "switch_state CORE_INT c tc =
     (if c = chr (CHR ''.'') then (CORE_FLOAT, bump tc CORE_INT)
      else if ee_isdigit c = 0 then (CORE_INVALID, bump tc CORE_INT)
      else (CORE_INT, tc))"
| "switch_state CORE_FLOAT c tc =
     (if c = chr (CHR ''E'') \<or> c = chr (CHR ''e'') then (CORE_S2, bump tc CORE_FLOAT)
      else if ee_isdigit c = 0 then (CORE_INVALID, bump tc CORE_FLOAT)
      else (CORE_FLOAT, tc))"
| "switch_state CORE_S2 c tc =
     (if c = chr (CHR ''+'') \<or> c = chr (CHR ''-'') then (CORE_EXPONENT, bump tc CORE_S2)
      else (CORE_INVALID, bump tc CORE_S2))"
| "switch_state CORE_EXPONENT c tc =
     (if ee_isdigit c \<noteq> 0 then (CORE_SCIENTIFIC, bump tc CORE_EXPONENT)
      else (CORE_INVALID, bump tc CORE_EXPONENT))"
| "switch_state CORE_SCIENTIFIC c tc =
     (if ee_isdigit c = 0 then (CORE_INVALID, bump tc CORE_INVALID) else (CORE_SCIENTIFIC, tc))"
| "switch_state CORE_INVALID c tc = (CORE_INVALID, tc)"

text \<open>The scanning loop: the pointer \<^verbatim>\<open>str\<close> as an offset into the block.\<close>

function scan_loop ::
  "ee_u8 list \<Rightarrow> nat \<Rightarrow> core_state_e \<Rightarrow> counts \<Rightarrow> (core_state_e \<times> nat \<times> counts) option" where
  "scan_loop mem str state tc =
     (case rd mem str of
        None \<Rightarrow> None
      | Some c \<Rightarrow>
          if c \<noteq> 0 \<and> state \<noteq> CORE_INVALID then
            if c = chr (CHR '','') then Some (state, str + 1, tc)
            else (case switch_state state c tc of (state, tc) \<Rightarrow> scan_loop mem (str + 1) state tc)
          else Some (state, str, tc))"
  by pat_completeness auto
termination
  by (relation "measure (\<lambda>(mem, str, state, tc). length mem - str)") (auto simp: rd_eq_Some_iff)

declare scan_loop.simps [simp del]

definition core_state_transition ::
  "ee_u8 list \<Rightarrow> nat \<Rightarrow> counts \<Rightarrow> (core_state_e \<times> nat \<times> counts) option" where
  "core_state_transition mem instr transition_count = scan_loop mem instr CORE_START transition_count"

section \<open>The benchmark\<close>

text \<open>\<^verbatim>\<open>while (*p != 0)\<close>: scan token after token and count the final states.\<close>

partial_function (option) run_states ::
  "ee_u8 list \<Rightarrow> nat \<Rightarrow> counts \<Rightarrow> counts \<Rightarrow> (counts \<times> counts) option" where
  "run_states mem p final_counts track_counts = do {
     c \<leftarrow> rd mem p;
     if c \<noteq> 0 then do {
       (fstate, p, track_counts) \<leftarrow> core_state_transition mem p track_counts;
       run_states mem p (bump final_counts fstate) track_counts }
     else Some (final_counts, track_counts) }"

declare run_states.simps [code]

text \<open>\<^verbatim>\<open>while (p < memblock + blksize)\<close>: the corruption loop. The step is signed and may
  be zero or negative, so the loop need not end or may leave the block.\<close>

partial_function (option) corrupt_loop ::
  "ee_u32 \<Rightarrow> ee_s16 \<Rightarrow> ee_s16 \<Rightarrow> int \<Rightarrow> ee_u8 list \<Rightarrow> ee_u8 list option" where
  "corrupt_loop blksize sd step p mem =
     (if p < int (unat blksize) then
        if p < 0 then None
        else do {
          c \<leftarrow> rd mem (nat p);
          mem \<leftarrow> (if c \<noteq> chr (CHR '','') then wr mem (nat p) (c XOR ucast sd) else Some mem);
          corrupt_loop blksize sd step (p + sint step) mem }
      else Some mem)"

declare corrupt_loop.simps [code]

fun crc_counts :: "counts \<Rightarrow> counts \<Rightarrow> ee_u16 \<Rightarrow> ee_u16" where
  "crc_counts (f # fs) (t # ts) crc = crc_counts fs ts (crcu32 t (crcu32 f crc))"
| "crc_counts _ _ crc = crc"

definition core_bench_state ::
  "ee_u32 \<Rightarrow> addr \<Rightarrow> ee_s16 \<Rightarrow> ee_s16 \<Rightarrow> ee_s16 \<Rightarrow> ee_u16 \<Rightarrow> cmem \<Rightarrow> (ee_u16 \<times> cmem) option" where
  "core_bench_state blksize memblock sd1 sd2 step crc m = do {
     mem \<leftarrow> arr8 m memblock;
     let final_counts = replicate NUM_CORE_STATES 0;
     let track_counts = replicate NUM_CORE_STATES 0;
     (final_counts, track_counts) \<leftarrow> run_states mem 0 final_counts track_counts;
     mem \<leftarrow> corrupt_loop blksize sd1 step 0 mem;
     (final_counts, track_counts) \<leftarrow> run_states mem 0 final_counts track_counts;
     mem \<leftarrow> corrupt_loop blksize sd2 step 0 mem;
     Some (crc_counts final_counts track_counts crc, upd_arr8 memblock mem m) }"

section \<open>Initialisation\<close>

abbreviation bytes :: "string \<Rightarrow> ee_u8 list" where "bytes s \<equiv> map of_char s"

definition intpat :: "ee_u8 list list" where
  "intpat = [bytes ''5012'', bytes ''1234'', bytes ''-874'', bytes ''+122'']"

definition floatpat :: "ee_u8 list list" where
  "floatpat = [bytes ''35.54400'', bytes ''.1234500'', bytes ''-110.700'', bytes ''+0.64400'']"

definition scipat :: "ee_u8 list list" where
  "scipat = [bytes ''5.500e+3'', bytes ''-.123e-2'', bytes ''-87e+832'', bytes ''+0.6e-12'']"

definition errpat :: "ee_u8 list list" where
  "errpat = [bytes ''T0.3e-1F'', bytes ''-T.T++Tq'', bytes ''1T3.4e4z'', bytes ''34.0e-T^'']"

definition select_pattern :: "ee_s16 \<Rightarrow> ee_u8 list \<times> ee_u32" where
  "select_pattern sd =
     (let k = promote_s16 sd AND 0x7;
          r = unat (signed_drop_bit 3 (promote_s16 sd) AND 0x3)
      in if k = 0 \<or> k = 1 \<or> k = 2 then (intpat ! r, 4)
         else if k = 3 \<or> k = 4 then (floatpat ! r, 8)
         else if k = 5 \<or> k = 6 then (scipat ! r, 8)
         else (errpat ! r, 8))"

text \<open>The pattern loop: \<open>nx\<close> is the variable \<^verbatim>\<open>next\<close>, the length of the pattern in
  \<^verbatim>\<open>buf\<close> that is still to be copied.\<close>

partial_function (option) init_loop ::
  "ee_u32 \<Rightarrow> ee_u32 \<Rightarrow> ee_u32 \<Rightarrow> ee_u8 list \<Rightarrow> ee_s16 \<Rightarrow> ee_u8 list \<Rightarrow> (ee_u32 \<times> ee_u8 list) option" where
  "init_loop sz tot nx buf sd mem =
     (if tot + nx + 1 < sz then do {
        (tot, mem) \<leftarrow> (if nx > 0 then do {
           mem \<leftarrow> for_u32 0 nx (\<lambda>i mem. do {
             b \<leftarrow> rd buf (unat i);
             wr mem (unat (tot + i)) b }) mem;
           mem \<leftarrow> wr mem (unat (tot + nx)) (chr (CHR '',''));
           Some (tot + (nx + 1), mem) }
         else Some (tot, mem));
        let sd = sd + 1;
        let (buf, nx) = select_pattern sd;
        init_loop sz tot nx buf sd mem }
      else Some (tot, mem))"

declare init_loop.simps [code]

definition init_state_block :: "ee_u32 \<Rightarrow> ee_s16 \<Rightarrow> ee_u8 list \<Rightarrow> ee_u8 list option" where
  "init_state_block sz sd mem = do {
     (tot, mem) \<leftarrow> init_loop (sz - 1) 0 0 [] sd mem;
     for_u32 tot sz (\<lambda>t mem. wr mem (unat t) 0) mem }"

definition core_init_state :: "ee_u32 \<Rightarrow> ee_s16 \<Rightarrow> addr \<Rightarrow> cmem \<Rightarrow> cmem option" where
  "core_init_state sz sd p m = do {
     mem \<leftarrow> arr8 m p;
     mem \<leftarrow> init_state_block sz sd mem;
     Some (upd_arr8 p mem m) }"

section \<open>What the scanner computes\<close>

text \<open>The next state on its own, which does not depend on the counters.\<close>

definition delta :: "core_state_e \<Rightarrow> ee_u8 \<Rightarrow> core_state_e" where
  "delta s c = fst (switch_state s c [])"

lemma fst_switch_state: "fst (switch_state s c tc) = delta s c"
  by (cases s) (simp_all add: delta_def Let_def)

lemma delta_invalid [simp]: "delta CORE_INVALID c = CORE_INVALID"
  by (simp add: delta_def)

definition is_digit :: "ee_u8 \<Rightarrow> bool" where
  "is_digit c \<longleftrightarrow> chr (CHR ''0'') \<le> c \<and> c \<le> chr (CHR ''9'')"

definition is_sign :: "ee_u8 \<Rightarrow> bool" where
  "is_sign c \<longleftrightarrow> c = chr (CHR ''+'') \<or> c = chr (CHR ''-'')"

definition is_point :: "ee_u8 \<Rightarrow> bool" where
  "is_point c \<longleftrightarrow> c = chr (CHR ''.'')"

definition is_exp :: "ee_u8 \<Rightarrow> bool" where
  "is_exp c \<longleftrightarrow> c = chr (CHR ''E'') \<or> c = chr (CHR ''e'')"

lemma ee_isdigit_iff [simp]: "ee_isdigit c = 0 \<longleftrightarrow> \<not> is_digit c"
  by (simp add: ee_isdigit_def is_digit_def)

lemma delta_eqs:
  "delta CORE_START c = (if is_digit c then CORE_INT else if is_sign c then CORE_S1
     else if is_point c then CORE_FLOAT else CORE_INVALID)"
  "delta CORE_S1 c = (if is_digit c then CORE_INT else if is_point c then CORE_FLOAT else CORE_INVALID)"
  "delta CORE_INT c = (if is_point c then CORE_FLOAT else if is_digit c then CORE_INT else CORE_INVALID)"
  "delta CORE_FLOAT c = (if is_exp c then CORE_S2 else if is_digit c then CORE_FLOAT else CORE_INVALID)"
  "delta CORE_S2 c = (if is_sign c then CORE_EXPONENT else CORE_INVALID)"
  "delta CORE_EXPONENT c = (if is_digit c then CORE_SCIENTIFIC else CORE_INVALID)"
  "delta CORE_SCIENTIFIC c = (if is_digit c then CORE_SCIENTIFIC else CORE_INVALID)"
  by (simp_all add: delta_def is_sign_def is_point_def is_exp_def Let_def)

lemma char_classes:
  "is_sign c \<Longrightarrow> \<not> is_digit c" "is_point c \<Longrightarrow> \<not> is_digit c" "is_exp c \<Longrightarrow> \<not> is_digit c"
  "is_point c \<Longrightarrow> \<not> is_sign c"
  by (auto simp: is_digit_def is_sign_def is_point_def is_exp_def)

text \<open>The grammar of the tokens.\<close>

definition opt_sign :: "ee_u8 list \<Rightarrow> bool" where
  "opt_sign s \<longleftrightarrow> s = [] \<or> (\<exists>c. is_sign c \<and> s = [c])"

definition int_token :: "ee_u8 list \<Rightarrow> bool" where
  "int_token t \<longleftrightarrow> (\<exists>s ds. t = s @ ds \<and> opt_sign s \<and> ds \<noteq> [] \<and> list_all is_digit ds)"

definition float_token :: "ee_u8 list \<Rightarrow> bool" where
  "float_token t \<longleftrightarrow> (\<exists>s ds p fs. t = s @ ds @ p # fs \<and> opt_sign s \<and> list_all is_digit ds \<and> is_point p
     \<and> list_all is_digit fs)"

definition sci_token :: "ee_u8 list \<Rightarrow> bool" where
  "sci_token t \<longleftrightarrow> (\<exists>f e s ds. t = f @ e # s # ds \<and> float_token f \<and> is_exp e \<and> is_sign s
     \<and> ds \<noteq> [] \<and> list_all is_digit ds)"

text \<open>The tokens that lead from \<^verbatim>\<open>CORE_START\<close> to each state but the invalid one.\<close>

fun leads_to :: "core_state_e \<Rightarrow> ee_u8 list \<Rightarrow> bool" where
  "leads_to CORE_START t \<longleftrightarrow> t = []"
| "leads_to CORE_S1 t \<longleftrightarrow> (\<exists>c. is_sign c \<and> t = [c])"
| "leads_to CORE_INT t \<longleftrightarrow> int_token t"
| "leads_to CORE_FLOAT t \<longleftrightarrow> float_token t"
| "leads_to CORE_S2 t \<longleftrightarrow> (\<exists>f e. t = f @ [e] \<and> float_token f \<and> is_exp e)"
| "leads_to CORE_EXPONENT t \<longleftrightarrow> (\<exists>f e s. t = f @ [e, s] \<and> float_token f \<and> is_exp e \<and> is_sign s)"
| "leads_to CORE_SCIENTIFIC t \<longleftrightarrow> sci_token t"
| "leads_to CORE_INVALID t \<longleftrightarrow> True"

definition classify :: "ee_u8 list \<Rightarrow> core_state_e" where
  "classify t = foldl delta CORE_START t"

lemma list_all_nil: "list_all P []"
  by simp

lemma list_all_single: "list_all P [c] = P c"
  by simp

lemma int_token_snoc: "int_token t \<Longrightarrow> is_digit c \<Longrightarrow> int_token (t @ [c])"
  unfolding int_token_def by (metis append.assoc append_is_Nil_conv list_all_append list_all_single)

lemma float_token_snoc: "float_token t \<Longrightarrow> is_digit c \<Longrightarrow> float_token (t @ [c])"
  unfolding float_token_def by (metis append.assoc append_Cons list_all_append list_all_single)

lemma sci_token_snoc: "sci_token t \<Longrightarrow> is_digit c \<Longrightarrow> sci_token (t @ [c])"
  unfolding sci_token_def by (metis append.assoc append_Cons append_is_Nil_conv list_all_append list_all_single)

lemma int_token_single: "opt_sign s \<Longrightarrow> is_digit c \<Longrightarrow> int_token (s @ [c])"
  unfolding int_token_def by (metis list.distinct(1) list_all_single)

lemma float_token_point:
  "opt_sign s \<Longrightarrow> is_point p \<Longrightarrow> float_token (s @ [p])"
  "int_token t \<Longrightarrow> is_point p \<Longrightarrow> float_token (t @ [p])"
  unfolding float_token_def int_token_def by (metis append.assoc append_Nil list_all_nil)+

lemma sci_token_first: "float_token f \<Longrightarrow> is_exp e \<Longrightarrow> is_sign s \<Longrightarrow> is_digit c \<Longrightarrow> sci_token (f @ [e, s, c])"
  unfolding sci_token_def by fastforce

lemma classify_leads_to: "leads_to (classify t) t"
proof (induction t rule: rev_induct)
  case Nil
  then show ?case by (simp add: classify_def)
next
  case (snoc c t)
  have "leads_to s t \<Longrightarrow> leads_to (delta s c) (t @ [c])" for s
    by (cases s)
      (auto simp: delta_eqs opt_sign_def int_token_snoc float_token_snoc sci_token_snoc float_token_point sci_token_first
        intro: int_token_single [of "[]", simplified] float_token_point(1) [of "[]", simplified]
          int_token_single [of "[x]" for x, simplified] float_token_point(1) [of "[x]" for x, simplified])
  from this [OF snoc.IH] show ?case by (simp add: classify_def)
qed

lemma foldl_digits [simp]:
  "list_all is_digit ds \<Longrightarrow> foldl delta CORE_INT ds = CORE_INT"
  "list_all is_digit ds \<Longrightarrow> foldl delta CORE_FLOAT ds = CORE_FLOAT"
  "list_all is_digit ds \<Longrightarrow> foldl delta CORE_SCIENTIFIC ds = CORE_SCIENTIFIC"
  by (induction ds) (auto simp: delta_eqs dest: char_classes)

lemma foldl_first_digits:
  "list_all is_digit ds \<Longrightarrow> ds \<noteq> [] \<Longrightarrow> foldl delta CORE_START ds = CORE_INT"
  "list_all is_digit ds \<Longrightarrow> ds \<noteq> [] \<Longrightarrow> foldl delta CORE_S1 ds = CORE_INT"
  "list_all is_digit ds \<Longrightarrow> ds \<noteq> [] \<Longrightarrow> foldl delta CORE_EXPONENT ds = CORE_SCIENTIFIC"
  by (cases ds; simp add: delta_eqs)+

lemma classify_int: "int_token t \<Longrightarrow> classify t = CORE_INT"
  by (auto simp: int_token_def opt_sign_def classify_def foldl_first_digits delta_eqs dest: char_classes)

lemma classify_float: "float_token t \<Longrightarrow> classify t = CORE_FLOAT"
proof -
  assume "float_token t"
  then obtain s ds p fs where t: "t = s @ ds @ p # fs" "opt_sign s" "list_all is_digit ds" "is_point p"
    "list_all is_digit fs" by (auto simp: float_token_def)
  have "delta CORE_INT p = CORE_FLOAT" "delta CORE_S1 p = CORE_FLOAT" "delta CORE_START p = CORE_FLOAT"
    using t(4) char_classes by (simp_all add: delta_eqs)
  with t show ?thesis
    by (cases "ds = []") (auto simp: opt_sign_def classify_def foldl_first_digits delta_eqs dest: char_classes)
qed

lemma classify_sci: "sci_token t \<Longrightarrow> classify t = CORE_SCIENTIFIC"
  by (auto simp: sci_token_def classify_def foldl_first_digits delta_eqs dest!: classify_float [unfolded classify_def])

lemma length_bump [simp]: "length (bump c s) = length c"
  by (simp add: bump_def)

lemma length_switch_state: "length (snd (switch_state s c tc)) = length tc"
  by (cases s) (simp_all add: Let_def)

lemma scan_loop_stop:
  "rd mem p = Some c \<Longrightarrow> c = 0 \<or> s = CORE_INVALID \<Longrightarrow> scan_loop mem p s tc = Some (s, p, tc)"
  by (subst scan_loop.simps) auto

lemma scan_loop_comma:
  "rd mem p = Some (chr (CHR '','')) \<Longrightarrow> s \<noteq> CORE_INVALID \<Longrightarrow> scan_loop mem p s tc = Some (s, p + 1, tc)"
  by (subst scan_loop.simps) simp

lemma scan_loop_step:
  "\<lbrakk>rd mem p = Some c; c \<noteq> 0; c \<noteq> chr (CHR '',''); s \<noteq> CORE_INVALID\<rbrakk>
    \<Longrightarrow> scan_loop mem p s tc = scan_loop mem (p + 1) (delta s c) (snd (switch_state s c tc))"
  by (subst scan_loop.simps) (simp add: case_prod_unfold fst_switch_state)

text \<open>How many bytes of a token the scanner looks at: it stops at the first invalid one.\<close>

fun consumed :: "core_state_e \<Rightarrow> ee_u8 list \<Rightarrow> nat" where
  "consumed s [] = 0"
| "consumed s (c # t) = (if s = CORE_INVALID then 0 else Suc (consumed (delta s c) t))"

lemma consumed_le: "consumed s t \<le> length t"
  by (induction s t rule: consumed.induct) auto

lemma consumed_valid: "foldl delta s t \<noteq> CORE_INVALID \<Longrightarrow> consumed s t = length t"
proof (induction s t rule: consumed.induct)
  case (2 s c t)
  have "foldl delta CORE_INVALID u = CORE_INVALID" for u by (induction u) simp_all
  with 2 show ?case by auto
qed simp

definition token_byte :: "ee_u8 \<Rightarrow> bool" where
  "token_byte c \<longleftrightarrow> c \<noteq> 0 \<and> c \<noteq> chr (CHR '','')"

lemma scan_loop_invalid: "p < length mem \<Longrightarrow> scan_loop mem p CORE_INVALID tc = Some (CORE_INVALID, p, tc)"
  by (simp add: scan_loop_stop)

lemma foldl_delta_invalid [simp]: "foldl delta CORE_INVALID t = CORE_INVALID"
  by (induction t) simp_all

lemma scan_token:
  assumes "list_all token_byte tok" "sep = 0 \<or> sep = chr (CHR '','')"
  shows "\<exists>tc'. scan_loop (pre @ tok @ sep # rest) (length pre) s tc =
     Some (foldl delta s tok,
           length pre + consumed s tok + (if foldl delta s tok \<noteq> CORE_INVALID \<and> sep \<noteq> 0 then 1 else 0), tc')
     \<and> length tc' = length tc"
  using assms
proof (induction tok arbitrary: pre s tc)
  case Nil
  then show ?case
    by (cases "sep = 0 \<or> s = CORE_INVALID") (auto simp: scan_loop_stop scan_loop_comma)
next
  case (Cons c tok)
  show ?case
  proof (cases "s = CORE_INVALID")
    case True
    then show ?thesis by (simp add: scan_loop_invalid)
  next
    case False
    then have "scan_loop (pre @ (c # tok) @ sep # rest) (length pre) s tc
        = scan_loop ((pre @ [c]) @ tok @ sep # rest) (length (pre @ [c])) (delta s c) (snd (switch_state s c tc))"
      using Cons.prems by (subst scan_loop_step [where c = c]) (auto simp: token_byte_def)
    with Cons.IH [of "pre @ [c]" "delta s c" "snd (switch_state s c tc)"] Cons.prems False
    show ?thesis by (auto simp: length_switch_state)
  qed
qed

text \<open>
  C12: the scanner classifies tokens. On a block that has at the pointer a token, i.e. bytes other
  than the comma and the terminating zero, followed by a comma or a zero,
  \<^verbatim>\<open>core_state_transition\<close> returns; the state it returns is \<^verbatim>\<open>CORE_INT\<close>,
  \<^verbatim>\<open>CORE_FLOAT\<close> or \<^verbatim>\<open>CORE_SCIENTIFIC\<close> exactly when the token is in the grammar of
  integers, floating-point numbers or scientific numbers; and unless the token is invalid the
  pointer ends behind the token and its comma. On an invalid token the pointer stays inside it.
\<close>

theorem core_state_transition_classifies:
  assumes "list_all token_byte tok" "sep = 0 \<or> sep = chr (CHR '','')"
  shows "\<exists>st p' tc'. core_state_transition (pre @ tok @ sep # rest) (length pre) tc = Some (st, p', tc')
     \<and> (st = CORE_INT \<longleftrightarrow> int_token tok) \<and> (st = CORE_FLOAT \<longleftrightarrow> float_token tok)
     \<and> (st = CORE_SCIENTIFIC \<longleftrightarrow> sci_token tok)
     \<and> (st \<noteq> CORE_INVALID \<longrightarrow> p' = length pre + length tok + (if sep = 0 then 0 else 1))
     \<and> (st = CORE_INVALID \<longrightarrow> length pre < p' \<and> p' \<le> length pre + length tok)"
proof -
  from scan_token [OF assms, of pre rest CORE_START tc] obtain p' tc' where
    r: "core_state_transition (pre @ tok @ sep # rest) (length pre) tc = Some (classify tok, p', tc')"
    and p': "p' = length pre + consumed CORE_START tok
      + (if classify tok \<noteq> CORE_INVALID \<and> sep \<noteq> 0 then 1 else 0)"
    by (auto simp: core_state_transition_def classify_def)
  have "0 < consumed CORE_START tok" if "classify tok = CORE_INVALID"
    using that by (cases tok) (auto simp: classify_def)
  with p' have "(classify tok \<noteq> CORE_INVALID \<longrightarrow> p' = length pre + length tok + (if sep = 0 then 0 else 1))
     \<and> (classify tok = CORE_INVALID \<longrightarrow> length pre < p' \<and> p' \<le> length pre + length tok)"
    using consumed_valid [of CORE_START tok] consumed_le [of CORE_START tok] by (auto simp: classify_def)
  moreover have "classify tok = CORE_INT \<longleftrightarrow> int_token tok" "classify tok = CORE_FLOAT \<longleftrightarrow> float_token tok"
    "classify tok = CORE_SCIENTIFIC \<longleftrightarrow> sci_token tok"
    using classify_leads_to [of tok] classify_int classify_float classify_sci by auto
  ultimately show ?thesis using r by blast
qed

theorem core_state_transition_classifies_witness:
  "\<exists>st p' tc'. core_state_transition ([] @ bytes ''+0.6e-12'' @ chr (CHR '','') # [0]) (length ([] :: ee_u8 list))
       (replicate 8 0) = Some (st, p', tc')
     \<and> (st = CORE_INT \<longleftrightarrow> int_token (bytes ''+0.6e-12'')) \<and> (st = CORE_FLOAT \<longleftrightarrow> float_token (bytes ''+0.6e-12''))
     \<and> (st = CORE_SCIENTIFIC \<longleftrightarrow> sci_token (bytes ''+0.6e-12''))
     \<and> (st \<noteq> CORE_INVALID \<longrightarrow> p' = length ([] :: ee_u8 list) + length (bytes ''+0.6e-12'')
          + (if chr (CHR '','') = 0 then 0 else 1))
     \<and> (st = CORE_INVALID \<longrightarrow> length ([] :: ee_u8 list) < p' \<and> p' \<le> length ([] :: ee_u8 list) + length (bytes ''+0.6e-12''))"
  by (rule core_state_transition_classifies) (simp_all add: token_byte_def)


section \<open>The passes over the block end\<close>

lemma scan_loop_before_zero:
  assumes "z < length mem" "mem ! z = 0" "p \<le> z"
  shows "\<exists>st p' tc'. scan_loop mem p s tc = Some (st, p', tc') \<and> p \<le> p' \<and> p' \<le> z \<and> length tc' = length tc
    \<and> (s \<noteq> CORE_INVALID \<and> mem ! p \<noteq> 0 \<longrightarrow> p < p')"
  using assms(3)
proof (induction "z - p" arbitrary: p s tc)
  case 0
  with assms show ?case by (simp add: scan_loop_stop [where c = 0])
next
  case (Suc d)
  then have p: "rd mem p = Some (mem ! p)" using assms by simp
  consider "mem ! p = 0 \<or> s = CORE_INVALID" | "mem ! p = chr (CHR '','')" "s \<noteq> CORE_INVALID"
    | "mem ! p \<noteq> 0" "mem ! p \<noteq> chr (CHR '','')" "s \<noteq> CORE_INVALID" by blast
  then show ?case
  proof cases
    case 1
    with p Suc show ?thesis by (auto simp: scan_loop_stop)
  next
    case 2
    with p Suc show ?thesis by (auto simp: scan_loop_comma)
  next
    case 3
    have "d = z - (p + 1)" "p + 1 \<le> z" using Suc by simp_all
    from Suc.hyps(1) [OF this, of "delta s (mem ! p)" "snd (switch_state s (mem ! p) tc)"]
    show ?thesis using 3 by (auto simp: scan_loop_step [OF p] length_switch_state)
  qed
qed

lemma run_states_zero:
  "rd mem p = Some 0 \<Longrightarrow> run_states mem p fc tc = Some (fc, tc)"
  by (subst run_states.simps) simp

lemma run_states_terminates:
  assumes "z < length mem" "mem ! z = 0" "p \<le> z"
  shows "\<exists>fc' tc'. run_states mem p fc tc = Some (fc', tc') \<and> length fc' = length fc \<and> length tc' = length tc"
  using assms(3)
proof (induction "z - p" arbitrary: p fc tc rule: less_induct)
  case less
  show ?case
  proof (cases "mem ! p = 0")
    case True
    with less.prems assms show ?thesis by (simp add: run_states_zero)
  next
    case False
    from scan_loop_before_zero [OF assms(1,2) less.prems, of CORE_START tc] False
    obtain st p' tc' where t: "core_state_transition mem p tc = Some (st, p', tc')" "p < p'" "p' \<le> z"
      "length tc' = length tc" by (auto simp: core_state_transition_def)
    then have "z - p' < z - p" using less.prems by simp
    from less.hyps [OF this t(3), of "bump fc st" tc'] t False less.prems assms
    show ?thesis by (subst run_states.simps) auto
  qed
qed

section \<open>The corruption\<close>

definition comma :: ee_u8 where
  "comma = chr (CHR '','')"

text \<open>What a corruption pass does to the byte at one offset.\<close>

lemma comma_eq: "comma = 44"
  by (simp add: comma_def)

definition corrupt_byte :: "ee_s16 \<Rightarrow> ee_u8 \<Rightarrow> ee_u8" where
  "corrupt_byte sd b = (if b = comma then b else b XOR ucast sd)"

definition corrupted :: "nat \<Rightarrow> ee_s16 \<Rightarrow> nat \<Rightarrow> ee_u8 list \<Rightarrow> ee_u8 list" where
  "corrupted n sd step mem =
     map (\<lambda>i. if i < n \<and> step dvd i then corrupt_byte sd (mem ! i) else mem ! i) [0..<length mem]"

lemma length_corrupted [simp]: "length (corrupted n sd k mem) = length mem"
  by (simp add: corrupted_def)

lemma nth_corrupted:
  "i < length mem \<Longrightarrow> corrupted n sd k mem ! i = (if i < n \<and> k dvd i then corrupt_byte sd (mem ! i) else mem ! i)"
  by (simp add: corrupted_def)

lemma stride_shift:
  assumes "0 < k" "p \<noteq> i"
  shows "p + k \<le> i \<and> k dvd (i - (p + k)) \<longleftrightarrow> p \<le> i \<and> k dvd (i - p :: nat)"
proof -
  have "p + k \<le> i \<Longrightarrow> k dvd (i - (p + k)) \<longleftrightarrow> k dvd (i - p)"
    using dvd_minus_self [of k "i - p"] by (auto simp: diff_diff_add)
  moreover have "p \<le> i \<Longrightarrow> k dvd (i - p) \<Longrightarrow> p + k \<le> i"
    using dvd_imp_le [of k "i - p"] assms by auto
  ultimately show ?thesis by auto
qed

lemma corrupt_loop_from:
  assumes "0 < k" "sint step = int k" "unat n \<le> length mem"
  shows "corrupt_loop n sd step (int p) mem = Some
    (map (\<lambda>i. if p \<le> i \<and> i < unat n \<and> k dvd (i - p) then corrupt_byte sd (mem ! i) else mem ! i) [0..<length mem])"
  using assms(3)
proof (induction "unat n - p" arbitrary: p mem rule: less_induct)
  case less
  show ?case
  proof (cases "p < unat n")
    case False
    then have "\<not> int p < uint n" by (metis nat_uint_eq zless_nat_eq_int_zless)
    then have "corrupt_loop n sd step (int p) mem = Some mem" by (subst corrupt_loop.simps) simp
    moreover have "mem = map (\<lambda>i. if p \<le> i \<and> i < unat n \<and> k dvd (i - p) then corrupt_byte sd (mem ! i) else mem ! i)
        [0..<length mem]"
      by (rule nth_equalityI) (use False in auto)
    ultimately show ?thesis by (rule trans [OF _ arg_cong])
  next
    case True
    let ?mem = "mem[p := corrupt_byte sd (mem ! p)]"
    from True have lt: "int p < uint n" by (metis nat_uint_eq zless_nat_eq_int_zless)
    have c: "mem ! p = 44 \<Longrightarrow> mem[p := 44] = mem" by (metis list_update_id)
    have "corrupt_loop n sd step (int p) mem = corrupt_loop n sd step (int (p + k)) ?mem"
      using True less.prems assms(2) lt c
      by (subst corrupt_loop.simps) (auto simp: corrupt_byte_def comma_def)
    also have "\<dots> = Some (map (\<lambda>i. if p + k \<le> i \<and> i < unat n \<and> k dvd (i - (p + k)) then corrupt_byte sd (?mem ! i)
        else ?mem ! i) [0..<length ?mem])"
      by (rule less.hyps) (use True less.prems assms(1) in auto)
    also have "map (\<lambda>i. if p + k \<le> i \<and> i < unat n \<and> k dvd (i - (p + k)) then corrupt_byte sd (?mem ! i)
        else ?mem ! i) [0..<length ?mem]
      = map (\<lambda>i. if p \<le> i \<and> i < unat n \<and> k dvd (i - p) then corrupt_byte sd (mem ! i) else mem ! i) [0..<length mem]"
      (is "map ?f _ = map ?g _")
    proof -
      have "?f i = ?g i" if "i < length mem" for i
        using True assms(1) that stride_shift [of k p i] by (cases "p = i") auto
      then show ?thesis by simp
    qed
    finally show ?thesis .
  qed
qed

lemma corrupt_loop_eq:
  assumes "0 < sint step" "unat n \<le> length mem"
  shows "corrupt_loop n sd step 0 mem = Some (corrupted (unat n) sd (nat (sint step)) mem)"
  using corrupt_loop_from [of "nat (sint step)" step n mem sd 0] assms by (simp add: corrupted_def)

text \<open>A zero byte at an offset that is no multiple of the step survives.\<close>

definition ends_safely :: "nat \<Rightarrow> ee_u8 list \<Rightarrow> bool" where
  "ends_safely k mem \<longleftrightarrow> list_ex (\<lambda>z. mem ! z = 0 \<and> \<not> k dvd z) [0..<length mem]"

lemma ends_safely_corrupted: "k dvd l \<Longrightarrow> ends_safely k mem \<Longrightarrow> ends_safely k (corrupted n sd l mem)"
  unfolding ends_safely_def list_ex_iff
proof -
  assume "k dvd l" "\<exists>x\<in>set [0..<length mem]. mem ! x = 0 \<and> \<not> k dvd x"
  then obtain z where "z < length mem" "mem ! z = 0" "\<not> k dvd z" by auto
  with \<open>k dvd l\<close> show "\<exists>x\<in>set [0..<length (corrupted n sd l mem)]. corrupted n sd l mem ! x = 0 \<and> \<not> k dvd x"
    by (intro bexI [of _ z]) (auto simp: nth_corrupted dest: dvd_trans)
qed

lemma ends_safely_run:
  assumes "ends_safely k mem"
  shows "\<exists>fc' tc'. run_states mem 0 fc tc = Some (fc', tc')"
proof -
  from assms obtain z where "z < length mem" "mem ! z = 0" by (auto simp: ends_safely_def list_ex_iff)
  then show ?thesis using run_states_terminates [of z mem 0] by blast
qed

lemma core_bench_state_returns:
  assumes "arr8 m b = Some mem" "unat n \<le> length mem" "0 < sint step" "k dvd nat (sint step)" "ends_safely k mem"
  shows "\<exists>crc'. core_bench_state n b sd1 sd2 step crc m = Some (crc',
     upd_arr8 b (corrupted (unat n) sd2 (nat (sint step)) (corrupted (unat n) sd1 (nat (sint step)) mem)) m)"
proof -
  let ?mem = "corrupted (unat n) sd1 (nat (sint step)) mem"
  obtain fc tc where 1: "run_states mem 0 (replicate NUM_CORE_STATES 0) (replicate NUM_CORE_STATES 0) = Some (fc, tc)"
    using ends_safely_run [OF assms(5)] by metis
  obtain fc' tc' where 2: "run_states ?mem 0 fc tc = Some (fc', tc')"
    using ends_safely_run [OF ends_safely_corrupted [OF assms(4,5)]] by metis
  show ?thesis
    unfolding core_bench_state_def using assms(1-3) 1 2 by (simp add: corrupt_loop_eq)
qed

lemma xor_twice_word: "((a :: 'a :: len word) XOR b) XOR b = a"
  by (simp add: xor.assoc)

lemma xor_cancel_word: "(a :: 'a :: len word) XOR b = a \<longleftrightarrow> b = 0"
  by (metis xor.right_neutral xor_eq_0_word xor_self_eq xor.assoc xor.commute)

lemma corrupt_byte_undo: "b \<noteq> comma \<Longrightarrow> corrupt_byte sd (corrupt_byte sd b) = b \<longleftrightarrow> b XOR ucast sd \<noteq> comma \<or> ucast sd = (0 :: ee_u8)"
  by (auto simp: corrupt_byte_def xor_twice_word xor_cancel_word)

text \<open>The bytes a second pass would not restore.\<close>

definition stuck_byte :: "ee_s16 \<Rightarrow> ee_u8" where
  "stuck_byte sd = comma XOR ucast sd"

lemma corrupted_twice:
  "corrupted n sd k (corrupted n sd k mem) = mem \<longleftrightarrow>
     ucast sd = (0 :: ee_u8) \<or> (\<forall>i < min n (length mem). k dvd i \<longrightarrow> mem ! i \<noteq> stuck_byte sd)"
proof -
  have stuck: "b = stuck_byte sd \<longleftrightarrow> b XOR ucast sd = comma" for b
    by (metis stuck_byte_def xor_twice_word)
  have *: "corrupt_byte sd (corrupt_byte sd b) = b \<longleftrightarrow> ucast sd = (0 :: ee_u8) \<or> b \<noteq> stuck_byte sd" for b
    by (cases "b = comma") (auto simp: stuck corrupt_byte_undo, auto simp: corrupt_byte_def xor_cancel_word)
  have "corrupted n sd k (corrupted n sd k mem) = mem \<longleftrightarrow>
    (\<forall>i < length mem. i < n \<and> k dvd i \<longrightarrow> corrupt_byte sd (corrupt_byte sd (mem ! i)) = mem ! i)"
    by (auto simp: list_eq_iff_nth_eq nth_corrupted)
  then show ?thesis by (auto simp: *)
qed

section \<open>The initialised block\<close>

definition pattern_at :: "ee_s16 \<Rightarrow> ee_u8 list" where
  "pattern_at sd = fst (select_pattern sd)"

text \<open>The first \<open>j\<close> patterns of a seed, each followed by its comma.\<close>

definition patterns :: "ee_s16 \<Rightarrow> nat \<Rightarrow> ee_u8 list" where
  "patterns sd j = concat (map (\<lambda>i. pattern_at (sd + word_of_nat (Suc i)) @ [comma]) [0..<j])"

definition all_patterns :: "ee_u8 list list" where
  "all_patterns = intpat @ floatpat @ scipat @ errpat"

lemma and3_less: "unat (w AND 0x3 :: 32 word) < 4"
proof -
  have "w AND 3 = take_bit 2 w"
    by (simp add: take_bit_eq_mask mask_numeral)
  then have "unat (w AND 3) = take_bit 2 (unat w)" by (simp add: unsigned_take_bit_eq)
  also have "\<dots> < 4" using take_bit_nat_less_exp [of 2 "unat w"] by simp
  finally show ?thesis .
qed

lemma nth_pattern_lists:
  assumes "r < 4"
  shows "length (intpat ! r) = 4" "length (floatpat ! r) = 8" "length (scipat ! r) = 8" "length (errpat ! r) = 8"
    "intpat ! r \<in> set all_patterns" "floatpat ! r \<in> set all_patterns" "scipat ! r \<in> set all_patterns"
    "errpat ! r \<in> set all_patterns"
proof -
  consider "r = 0" | "r = 1" | "r = 2" | "r = 3" using assms by linarith
  note cases4 = this
  show "length (intpat ! r) = 4" by (cases rule: cases4) (simp_all add: intpat_def)
  show "length (floatpat ! r) = 8" by (cases rule: cases4) (simp_all add: floatpat_def)
  show "length (scipat ! r) = 8" by (cases rule: cases4) (simp_all add: scipat_def)
  show "length (errpat ! r) = 8" by (cases rule: cases4) (simp_all add: errpat_def)
  have "length intpat = 4" "length floatpat = 4" "length scipat = 4" "length errpat = 4"
    by (simp_all add: intpat_def floatpat_def scipat_def errpat_def)
  then show "intpat ! r \<in> set all_patterns" "floatpat ! r \<in> set all_patterns" "scipat ! r \<in> set all_patterns"
    "errpat ! r \<in> set all_patterns"
    using assms by (simp_all add: all_patterns_def)
qed

lemma select_pattern_ok:
  "snd (select_pattern sd) = word_of_nat (length (pattern_at sd))"
  "length (pattern_at sd) \<le> 8" "4 \<le> length (pattern_at sd)" "pattern_at sd \<in> set all_patterns"
  using and3_less [of "signed_drop_bit 3 (promote_s16 sd)"]
  by (simp_all add: pattern_at_def select_pattern_def Let_def nth_pattern_lists)

lemma select_pattern_eq: "select_pattern sd = (pattern_at sd, word_of_nat (length (pattern_at sd)))"
  using select_pattern_ok(1) [of sd] by (simp add: pattern_at_def prod_eq_iff)

lemma patterns_Suc: "patterns sd (Suc j) = patterns sd j @ pattern_at (sd + word_of_nat (Suc j)) @ [comma]"
  by (simp add: patterns_def)

text \<open>Copying a pattern behind the bytes written so far.\<close>

lemma copy_pattern:
  assumes "unat tot + length buf < length mem" "length mem < 2 ^ 32" "length buf < 2 ^ 32"
  shows "for_u32 0 (word_of_nat (length buf)) (\<lambda>i mem. do { b \<leftarrow> rd buf (unat i); wr mem (unat (tot + i)) b }) mem
    = Some (take (unat tot) mem @ buf @ drop (unat tot + length buf) mem)"
proof -
  let ?f = "\<lambda>i mem. do { b \<leftarrow> rd buf (unat i); wr mem (unat (tot + i)) b }"
  let ?I = "\<lambda>i s. s = take (unat tot) mem @ take i buf @ drop (unat tot + i) mem"
  have n: "unat (word_of_nat (length buf) :: 32 word) = length buf"
    using assms(3) by (simp add: unat_of_nat)
  have "\<exists>s'. for_u32 0 (word_of_nat (length buf)) ?f mem = Some s' \<and> ?I (unat (word_of_nat (length buf) :: 32 word)) s'"
  proof (rule for_u32_rule)
    show "?I (unat (0 :: 32 word)) mem" by simp
    fix i s
    assume i: "i < unat (word_of_nat (length buf) :: 32 word)" and s: "?I i s"
    with n have il: "i < length buf" by simp
    with assms have u: "unat (word_of_nat i :: 32 word) = i" "unat (tot + word_of_nat i) = unat tot + i"
      by (auto simp: unat_of_nat unat_word_ariths)
    have "s[unat tot + i := buf ! i] = take (unat tot) mem @ take (Suc i) buf @ drop (unat tot + Suc i) mem"
      using s il assms(1)
      by (simp add: list_update_append take_Suc_conv_app_nth flip: Cons_nth_drop_Suc)
    with il assms(1) s show "\<exists>s'. ?f (word_of_nat i) s = Some s' \<and> ?I (Suc i) s'"
      by (simp add: u)
  qed simp
  then show ?thesis by (simp add: n)
qed

lemma init_loop_step:
  assumes "unat tot + length buf < length mem" "length mem < 2 ^ 32 - 16" "length buf \<le> 8" "buf \<noteq> []"
    "tot + word_of_nat (length buf) + 1 < sz"
  shows "init_loop sz tot (word_of_nat (length buf)) buf sd mem =
    init_loop sz (tot + word_of_nat (length buf) + 1) (word_of_nat (length (pattern_at (sd + 1)))) (pattern_at (sd + 1)) (sd + 1)
      (take (unat tot) mem @ buf @ comma # drop (Suc (unat tot + length buf)) mem)"
proof -
  have n: "unat (word_of_nat (length buf) :: 32 word) = length buf"
    using assms(3) by (simp add: unat_of_nat)
  have pos: "(0 :: 32 word) < word_of_nat (length buf)" using assms(4) n by (simp add: word_less_nat_alt)
  have u: "unat (tot + word_of_nat (length buf)) = unat tot + length buf"
    using assms(1,2) by (simp add: unat_word_ariths n)
  have upd: "(take (unat tot) mem @ buf @ drop (unat tot + length buf) mem)[unat tot + length buf := comma]
     = take (unat tot) mem @ buf @ comma # drop (Suc (unat tot + length buf)) mem"
    using assms(1) by (simp add: list_update_append flip: Cons_nth_drop_Suc)
  show ?thesis
    using assms pos
    by (subst init_loop.simps) (simp add: copy_pattern u upd [unfolded comma_eq] comma_eq select_pattern_eq add.assoc Let_def)
qed


lemma patterns_mono: "i \<le> j \<Longrightarrow> length (patterns sd i) \<le> length (patterns sd j)"
  by (induction rule: dec_induct) (simp_all add: patterns_Suc)

abbreviation init_from :: "ee_u32 \<Rightarrow> ee_s16 \<Rightarrow> nat \<Rightarrow> ee_u8 list \<Rightarrow> (ee_u32 \<times> ee_u8 list) option" where
  "init_from n sd j mem \<equiv> (let pat = pattern_at (sd + word_of_nat (Suc j)) in
     init_loop (n - 1) (word_of_nat (length (patterns sd j))) (word_of_nat (length pat)) pat (sd + word_of_nat (Suc j)) mem)"

lemma init_loop_from:
  assumes "length mem < 2 ^ 32 - 16" "unat n \<le> length mem" "1 \<le> unat n"
    "length (patterns sd j) + 2 \<le> unat n" "take (length (patterns sd j)) mem = patterns sd j"
  shows "\<exists>j' \<ge> j. init_from n sd j mem
     = Some (word_of_nat (length (patterns sd j')), patterns sd j' @ drop (length (patterns sd j')) mem)
     \<and> length (patterns sd j') + 2 \<le> unat n \<and> unat n \<le> length (patterns sd (Suc j')) + 1"
  using assms(1,2,4,5)
proof (induction "unat n - length (patterns sd j)" arbitrary: j mem rule: less_induct)
  case less
  define pat where "pat = pattern_at (sd + word_of_nat (Suc j))"
  define l where "l = length (patterns sd j)"
  let ?tot = "word_of_nat l :: 32 word"
  have lp: "length pat \<le> 8" "4 \<le> length pat" using select_pattern_ok unfolding pat_def by blast+
  have lS: "length (patterns sd (Suc j)) = Suc (l + length pat)" by (simp add: patterns_Suc pat_def l_def)
  have ut: "unat ?tot = l" using less.prems by (simp add: unat_of_nat take_bit_nat_eq_self l_def)
  have un: "unat (n - 1) = unat n - 1" using assms(3) by (simp add: unat_sub word_le_nat_alt)
  have eq: "?tot + word_of_nat (length pat) + 1 = word_of_nat (length (patterns sd (Suc j)))" by (simp add: lS)
  have u1: "unat (?tot + word_of_nat (length pat) + 1) = Suc (l + length pat)"
    unfolding eq using less.prems lp lS by (simp only: unat_of_nat) (simp add: take_bit_nat_eq_self l_def)
  show ?case
  proof (cases "?tot + word_of_nat (length pat) + 1 < n - 1")
    case False
    then have "unat n \<le> length (patterns sd (Suc j)) + 1"
      by (simp add: lS word_less_nat_alt u1 un)
    moreover have "mem = patterns sd j @ drop l mem"
      using less.prems(4) by (metis append_take_drop_id l_def)
    moreover have "init_from n sd j mem = Some (?tot, mem)"
      using False by (subst init_loop.simps) (simp only: Let_def pat_def [symmetric] l_def [symmetric], simp)
    ultimately show ?thesis using less.prems by (intro exI [of _ j]) (simp add: l_def)
  next
    case True
    then have lt: "Suc (l + length pat) < unat n - 1" by (simp add: word_less_nat_alt u1 un)
    let ?mem = "take l mem @ pat @ comma # drop (Suc (l + length pat)) mem"
    have lm: "length ?mem = length mem" using lt less.prems(2) by simp
    have sdj: "sd + word_of_nat (Suc j) + 1 = sd + word_of_nat (Suc (Suc j))" by simp
    have "pat \<noteq> []" using lp by auto
    then have step: "init_from n sd j mem = init_from n sd (Suc j) ?mem"
      using init_loop_step [of ?tot pat mem "n - 1" "sd + word_of_nat (Suc j)"] True lp lt less.prems
      unfolding ut eq sdj Let_def pat_def [symmetric] l_def [symmetric] by simp
    have tk: "take (length (patterns sd (Suc j))) ?mem = patterns sd (Suc j)"
      using less.prems(4) lt less.prems(2) unfolding lS by (simp add: patterns_Suc l_def pat_def)
    have dr: "drop (length (patterns sd k)) ?mem = drop (length (patterns sd k)) mem" if "Suc j \<le> k" for k
    proof -
      have "Suc (l + length pat) \<le> length (patterns sd k)" using patterns_mono [OF that, of sd] by (simp add: lS)
      then show ?thesis using lt less.prems(2) by (cases "length (patterns sd k)") (simp_all add: drop_Cons')
    qed
    have "\<exists>j' \<ge> Suc j. init_from n sd (Suc j) ?mem
       = Some (word_of_nat (length (patterns sd j')), patterns sd j' @ drop (length (patterns sd j')) ?mem)
       \<and> length (patterns sd j') + 2 \<le> unat n \<and> unat n \<le> length (patterns sd (Suc j')) + 1"
      by (rule less.hyps) (use lm less.prems lt tk in \<open>simp_all add: lS flip: l_def\<close>)
    then show ?thesis unfolding step using dr Suc_leD by metis
  qed
qed

text \<open>The whole block: patterns, then zeros, then whatever was behind it.\<close>

definition state_block :: "nat \<Rightarrow> ee_s16 \<Rightarrow> nat \<Rightarrow> ee_u8 list" where
  "state_block n sd j = patterns sd j @ replicate (n - length (patterns sd j)) 0"

lemma zero_fill:
  assumes "tot \<le> sz" "unat sz \<le> length mem"
  shows "for_u32 tot sz (\<lambda>t mem. wr mem (unat t) (0 :: ee_u8)) mem
    = Some (take (unat tot) mem @ replicate (unat sz - unat tot) 0 @ drop (unat sz) mem)"
proof -
  let ?I = "\<lambda>i s. s = take (unat tot) mem @ replicate (i - unat tot) 0 @ drop i mem"
  have "\<exists>s'. for_u32 tot sz (\<lambda>t mem. wr mem (unat t) 0) mem = Some s' \<and> ?I (unat sz) s'"
  proof (rule for_u32_rule)
    show "?I (unat tot) mem" by simp
    fix i s
    assume i: "unat tot \<le> i" "i < unat sz" and s: "?I i s"
    have u: "unat (word_of_nat i :: 32 word) = i"
      using i(2) unat32_bound [of sz] by (simp add: unat_of_nat take_bit_nat_eq_self)
    have "s[i := 0] = take (unat tot) mem @ replicate (Suc i - unat tot) 0 @ drop (Suc i) mem"
      using s i assms
      by (simp add: list_update_append Suc_diff_le replicate_append_same flip: Cons_nth_drop_Suc)
    with i assms s show "\<exists>s'. wr s (unat (word_of_nat i :: 32 word)) 0 = Some s' \<and> ?I (Suc i) s'"
      by (simp add: u)
  qed (use assms in simp)
  then show ?thesis by simp
qed

lemma init_loop_start:
  "init_loop (n - 1) 0 0 [] sd mem = (if 1 < n - 1 then init_from n sd 0 mem else Some (0, mem))"
  by (subst init_loop.simps) (simp add: Let_def select_pattern_eq patterns_def)

lemma init_state_block_eq:
  assumes "length mem < 2 ^ 32 - 16" "unat n \<le> length mem" "2 \<le> unat n"
  shows "\<exists>j. init_state_block n sd mem = Some (state_block (unat n) sd j @ drop (unat n) mem)
    \<and> length (patterns sd j) + 2 \<le> unat n \<and> unat n \<le> length (patterns sd (Suc j)) + 1"
proof -
  have un: "unat (n - 1) = unat n - 1" using assms(3) by (simp add: unat_sub word_le_nat_alt)
  have "\<exists>j. init_loop (n - 1) 0 0 [] sd mem
       = Some (word_of_nat (length (patterns sd j)), patterns sd j @ drop (length (patterns sd j)) mem)
     \<and> length (patterns sd j) + 2 \<le> unat n \<and> unat n \<le> length (patterns sd (Suc j)) + 1"
  proof (cases "1 < n - 1")
    case True
    with init_loop_from [of mem n sd 0] assms show ?thesis
      by (auto simp: init_loop_start patterns_def)
  next
    case False
    then have "unat n = 2" using assms(3) by (simp add: word_less_nat_alt un)
    with False show ?thesis
      by (intro exI [of _ 0]) (simp add: init_loop_start patterns_def)
  qed
  then obtain j where j: "init_loop (n - 1) 0 0 [] sd mem
       = Some (word_of_nat (length (patterns sd j)), patterns sd j @ drop (length (patterns sd j)) mem)"
     "length (patterns sd j) + 2 \<le> unat n" "unat n \<le> length (patterns sd (Suc j)) + 1" by blast
  have ut: "unat (word_of_nat (length (patterns sd j)) :: 32 word) = length (patterns sd j)"
    using j(2) assms by (simp add: unat_of_nat take_bit_nat_eq_self)
  have "init_state_block n sd mem = Some (state_block (unat n) sd j @ drop (unat n) mem)"
    using zero_fill [of "word_of_nat (length (patterns sd j))" n "patterns sd j @ drop (length (patterns sd j)) mem"]
      j(1,2) assms
    by (simp add: init_state_block_def ut word_le_nat_alt state_block_def)
  with j show ?thesis by blast
qed

lemma bytes_of_patterns: "set (patterns sd j) \<subseteq> insert comma (set (concat all_patterns))"
  by (auto simp: patterns_def dest: bspec [OF _ select_pattern_ok(4)])

lemma bytes_of_block: "set (state_block n sd j) \<subseteq> {0, comma} \<union> set (concat all_patterns)"
  using bytes_of_patterns [of sd j] by (auto simp: state_block_def)

lemma length_state_block: "length (patterns sd j) + 2 \<le> n \<Longrightarrow> length (state_block n sd j) = n"
  by (simp add: state_block_def)

lemma state_block_ends:
  assumes "length (patterns sd j) + 2 \<le> n" "2 \<le> k"
  shows "ends_safely k (state_block n sd j @ rest)"
proof -
  obtain r where n: "n = length (patterns sd j) + 2 + r" using assms(1) le_Suc_ex by blast
  have z: "(state_block n sd j @ rest) ! (n - 2) = 0" "(state_block n sd j @ rest) ! (n - 1) = 0"
    unfolding n by (simp_all add: state_block_def nth_append nth_Cons')
  have "\<not> k dvd (n - 2) \<or> \<not> k dvd (n - 1)"
  proof (rule ccontr)
    assume "\<not> ?thesis"
    then have "k dvd (n - 1) - (n - 2)" by (metis dvd_diff_nat)
    moreover have "(n - 1) - (n - 2) = 1" using assms(1) by simp
    ultimately show False using assms(2) by simp
  qed
  moreover have "n - 2 < length (state_block n sd j @ rest)" "n - 1 < length (state_block n sd j @ rest)"
    using assms(1) by (simp_all add: length_state_block)
  ultimately show ?thesis unfolding ends_safely_def list_ex_iff
    using z by (metis atLeast0LessThan lessThan_iff set_upt)
qed

text \<open>
  C29: what \<^verbatim>\<open>core_init_state\<close> writes. For a size of at least 2 that fits the block it
  returns, and the block then is the longest run of the seed's patterns, each followed by a comma,
  that leaves two bytes free, then zeros up to the size; the bytes behind the size, and the rest
  of the memory, are unchanged.
\<close>

theorem core_init_state_block:
  assumes "arr8 m p = Some mem" "length mem < 2 ^ 32 - 16" "unat sz \<le> length mem" "2 \<le> unat sz"
  shows "\<exists>j. core_init_state sz sd p m = Some (upd_arr8 p (state_block (unat sz) sd j @ drop (unat sz) mem) m)
    \<and> length (patterns sd j) + 2 \<le> unat sz \<and> unat sz \<le> length (patterns sd (Suc j)) + 1"
  using init_state_block_eq [OF assms(2-4), of sd] assms(1) by (auto simp: core_init_state_def)

theorem core_init_state_block_witness:
  "\<exists>j. core_init_state 20 7 0x100 (upd_arr8 0x100 (replicate 20 9) empty_mem)
      = Some (upd_arr8 0x100 (state_block (unat (20 :: 32 word)) 7 j @ drop (unat (20 :: 32 word)) (replicate 20 9))
          (upd_arr8 0x100 (replicate 20 9) empty_mem))
    \<and> length (patterns 7 j) + 2 \<le> unat (20 :: 32 word) \<and> unat (20 :: 32 word) \<le> length (patterns 7 (Suc j)) + 1"
  by (rule core_init_state_block) simp_all

text \<open>
  C35: undoing the corruption. Two passes of the corruption loop with one seed and a positive step
  return, and give the block back exactly when the seed's low byte is zero or no byte at a
  multiple of the step is the one the first pass turns into a comma (which the second pass skips).
\<close>

theorem corruption_undone_iff:
  assumes "0 < sint step" "unat n \<le> length mem"
  shows "Option.bind (corrupt_loop n sd step 0 mem) (corrupt_loop n sd step 0) = Some mem \<longleftrightarrow>
     ucast sd = (0 :: ee_u8) \<or> (\<forall>i < unat n. nat (sint step) dvd i \<longrightarrow> mem ! i \<noteq> comma XOR ucast sd)"
  using assms by (simp add: corrupt_loop_eq corrupted_twice stuck_byte_def min_def)

theorem corruption_undone_iff_witness:
  "Option.bind (corrupt_loop 3 0x15 2 0 [57, 49, 50]) (corrupt_loop 3 0x15 2 0) = Some [57, 49, 50] \<longleftrightarrow>
     ucast (0x15 :: ee_s16) = (0 :: ee_u8)
     \<or> (\<forall>i < unat (3 :: 32 word). nat (sint (2 :: ee_s16)) dvd i \<longrightarrow> [57, 49, 50] ! i \<noteq> comma XOR ucast (0x15 :: ee_s16))"
  by (rule corruption_undone_iff) simp_all

text \<open>
  C14: the state benchmark is safe for any seeds. When the block has a zero byte at an offset that
  is not a multiple of some divisor of the step, both scans and both corruption passes end inside
  the block, and the block still has such a zero afterwards, so the benchmark can run again.
\<close>

theorem core_bench_state_safe:
  assumes "arr8 m b = Some mem" "unat n \<le> length mem" "0 < sint step" "k dvd nat (sint step)" "ends_safely k mem"
  shows "\<exists>crc' mem'. core_bench_state n b sd1 sd2 step crc m = Some (crc', upd_arr8 b mem' m)
     \<and> length mem' = length mem \<and> ends_safely k mem'"
  using core_bench_state_returns [OF assms, of sd1 sd2 crc] ends_safely_corrupted [OF assms(4)] assms(5)
  by (metis length_corrupted)

theorem core_bench_state_safe_witness:
  "\<exists>crc' mem'. core_bench_state 5 0x100 0x3415 1 0x22 7 (upd_arr8 0x100 [48, 44, 49, 0, 0] empty_mem)
       = Some (crc', upd_arr8 0x100 mem' (upd_arr8 0x100 [48, 44, 49, 0, 0] empty_mem))
     \<and> length mem' = length ([48, 44, 49, 0, 0] :: ee_u8 list) \<and> ends_safely 17 mem'"
  by (rule core_bench_state_safe) (simp_all, code_simp)

text \<open>
  C13: on a block \<^verbatim>\<open>core_init_state\<close> has filled, the benchmark with equal seeds and a step
  of at least 2 returns and leaves the memory as it was, when the seed's low byte is zero or
  turns no byte of the patterns and no zero into a comma.
\<close>

theorem core_bench_state_restores:
  assumes "length mem < 2 ^ 32 - 16" "unat sz = length mem" "2 \<le> length mem" "2 \<le> sint step"
    and "ucast sd = (0 :: ee_u8) \<or> comma XOR ucast sd \<notin> insert 0 (set (concat all_patterns))"
  shows "\<exists>m' crc'. core_init_state sz sd0 b (upd_arr8 b mem m) = Some m'
     \<and> core_bench_state sz b sd sd step crc m' = Some (crc', m')"
proof -
  obtain j where j: "core_init_state sz sd0 b (upd_arr8 b mem m) = Some (upd_arr8 b (state_block (unat sz) sd0 j) (upd_arr8 b mem m))"
    "length (patterns sd0 j) + 2 \<le> unat sz"
    using init_state_block_eq [of mem sz sd0] assms(1-3) by (auto simp: core_init_state_def)
  let ?blk = "state_block (unat sz) sd0 j" and ?k = "nat (sint step)"
  let ?m = "upd_arr8 b ?blk (upd_arr8 b mem m)"
  have len: "length ?blk = unat sz" using j(2) by (rule length_state_block)
  have "corrupted (unat sz) sd ?k (corrupted (unat sz) sd ?k ?blk) = ?blk"
  proof (cases "ucast sd = (0 :: ee_u8)")
    case False
    have "?blk ! i \<noteq> stuck_byte sd" if "i < unat sz" for i
    proof -
      have "?blk ! i \<in> {0, comma} \<union> set (concat all_patterns)"
        by (rule subsetD [OF bytes_of_block nth_mem]) (simp add: that len)
      with assms(5) False show ?thesis
        using xor_cancel_word [of comma "ucast sd"] unfolding stuck_byte_def by (metis UnE insertE insertI1 insertI2 singletonD)
    qed
    with len show ?thesis by (simp add: corrupted_twice)
  qed (simp add: corrupted_twice)
  moreover have "ends_safely ?k ?blk" using state_block_ends [OF j(2), of ?k "[]"] assms(4) by simp
  ultimately have "\<exists>crc'. core_bench_state sz b sd sd step crc ?m = Some (crc', upd_arr8 b ?blk ?m)"
    using core_bench_state_returns [of ?m b ?blk sz step ?k sd sd crc] assms(4) len by simp
  moreover have "upd_arr8 b ?blk ?m = ?m" by (simp add: upd_arr8_def)
  ultimately show ?thesis using j(1) by auto
qed

theorem core_bench_state_restores_witness:
  "\<exists>m' crc'. core_init_state 40 0x3415 0x100 (upd_arr8 0x100 (replicate 40 0) empty_mem) = Some m'
     \<and> core_bench_state 40 0x100 0x3415 0x3415 0x22 0 m' = Some (crc', m')"
  by (rule core_bench_state_restores)
    (simp_all add: comma_eq all_patterns_def intpat_def floatpat_def scipat_def errpat_def)

end
