(* ===== verification/ListHeap.thy ===== *)
theory ListHeap
  imports StateMachine
begin

text \<open>
  The linked list of \<^verbatim>\<open>coremark/core_list_join.c\<close>: insertion, removal and its undo,
  search and reversal, as programs on the heap of list heads and list data. Every access
  goes through a pointer and is checked: \<^verbatim>\<open>NULL\<close> and an address with no cell give
  \<^term>\<open>None\<close>.
\<close>

section \<open>Cells\<close>

definition head_at :: "cmem \<Rightarrow> addr \<Rightarrow> list_head option" where
  "head_at m p = (if p = NULL then None else heads m p)"

definition data_at :: "cmem \<Rightarrow> addr \<Rightarrow> list_data option" where
  "data_at m p = (if p = NULL then None else datas m p)"

definition set_nxt :: "addr \<Rightarrow> addr \<Rightarrow> cmem \<Rightarrow> cmem option" where
  "set_nxt p q m = do {
     n \<leftarrow> head_at m p;
     Some (m\<lparr>heads := (heads m)(p \<mapsto> n\<lparr>nxt := q\<rparr>)\<rparr>) }"

definition set_info :: "addr \<Rightarrow> addr \<Rightarrow> cmem \<Rightarrow> cmem option" where
  "set_info p q m = do {
     n \<leftarrow> head_at m p;
     Some (m\<lparr>heads := (heads m)(p \<mapsto> n\<lparr>info := q\<rparr>)\<rparr>) }"

definition put_data :: "addr \<Rightarrow> list_data \<Rightarrow> cmem \<Rightarrow> cmem option" where
  "put_data p d m = do {
     _ \<leftarrow> data_at m p;
     Some (m\<lparr>datas := (datas m)(p \<mapsto> d)\<rparr>) }"

section \<open>Operations\<close>

text \<open>\<^verbatim>\<open>from\<close> points to a local of the callers, so it is passed as the value it has.\<close>

definition copy_info :: "addr \<Rightarrow> list_data \<Rightarrow> cmem \<Rightarrow> cmem option" where
  "copy_info to_p from_d m = do {
     d \<leftarrow> data_at m to_p;
     put_data to_p (d\<lparr>data16 := data16 from_d, idx := idx from_d\<rparr>) m }"

text \<open>The sizes of the two structures on the target, which the pointer arithmetic uses.\<close>

abbreviation (input) sizeof_list_head :: "32 word" where "sizeof_list_head \<equiv> 8"
abbreviation (input) sizeof_list_data :: "32 word" where "sizeof_list_data \<equiv> 4"

text \<open>The result is the returned pointer and the new values of \<^verbatim>\<open>*memblock\<close> and
  \<^verbatim>\<open>*datablock\<close>.\<close>

definition core_list_insert_new ::
  "addr \<Rightarrow> list_data \<Rightarrow> addr \<Rightarrow> addr \<Rightarrow> addr \<Rightarrow> addr \<Rightarrow> cmem \<Rightarrow> (addr \<times> addr \<times> addr \<times> cmem) option" where
  "core_list_insert_new insert_point inf_d memblock datablock memblock_end datablock_end m =
     (if memblock + sizeof_list_head \<ge> memblock_end then Some (NULL, memblock, datablock, m)
      else if datablock + sizeof_list_data \<ge> datablock_end then Some (NULL, memblock, datablock, m)
      else do {
        let newitem = memblock;
        let memblock = memblock + sizeof_list_head;
        n \<leftarrow> head_at m insert_point;
        m \<leftarrow> set_nxt newitem (nxt n) m;
        m \<leftarrow> set_nxt insert_point newitem m;
        m \<leftarrow> set_info newitem datablock m;
        m \<leftarrow> copy_info datablock inf_d m;
        Some (newitem, memblock, datablock + sizeof_list_data, m) })"

definition core_list_remove :: "addr \<Rightarrow> cmem \<Rightarrow> (addr \<times> cmem) option" where
  "core_list_remove item m = do {
     n \<leftarrow> head_at m item;
     let ret = nxt n;
     let tmp = info n;
     r \<leftarrow> head_at m ret;
     m \<leftarrow> set_info item (info r) m;
     m \<leftarrow> set_info ret tmp m;
     n \<leftarrow> head_at m item;
     k \<leftarrow> head_at m (nxt n);
     m \<leftarrow> set_nxt item (nxt k) m;
     m \<leftarrow> set_nxt ret NULL m;
     Some (ret, m) }"

definition core_list_undo_remove :: "addr \<Rightarrow> addr \<Rightarrow> cmem \<Rightarrow> (addr \<times> cmem) option" where
  "core_list_undo_remove item_removed item_modified m = do {
     r \<leftarrow> head_at m item_removed;
     let tmp = info r;
     k \<leftarrow> head_at m item_modified;
     m \<leftarrow> set_info item_removed (info k) m;
     m \<leftarrow> set_info item_modified tmp m;
     k \<leftarrow> head_at m item_modified;
     m \<leftarrow> set_nxt item_removed (nxt k) m;
     m \<leftarrow> set_nxt item_modified item_removed m;
     Some (item_removed, m) }"

partial_function (option) find_loop :: "(list_data \<Rightarrow> bool) \<Rightarrow> addr \<Rightarrow> cmem \<Rightarrow> addr option" where
  "find_loop stop list m =
     (if list = NULL then Some list
      else do {
        n \<leftarrow> head_at m list;
        d \<leftarrow> data_at m (info n);
        if stop d then Some list else find_loop stop (nxt n) m })"

declare find_loop.simps [code]

definition core_list_find :: "addr \<Rightarrow> list_data \<Rightarrow> cmem \<Rightarrow> addr option" where
  "core_list_find list inf_d m =
     (if sint (idx inf_d) \<ge> 0 then find_loop (\<lambda>d. idx d = idx inf_d) list m
      else find_loop (\<lambda>d. promote_s16 (data16 d) AND 0xff = promote_s16 (data16 inf_d)) list m)"

partial_function (option) reverse_loop :: "addr \<Rightarrow> addr \<Rightarrow> cmem \<Rightarrow> (addr \<times> cmem) option" where
  "reverse_loop list nx m =
     (if list \<noteq> NULL then do {
        n \<leftarrow> head_at m list;
        m \<leftarrow> set_nxt list nx m;
        reverse_loop (nxt n) list m }
      else Some (nx, m))"

declare reverse_loop.simps [code]

definition core_list_reverse :: "addr \<Rightarrow> cmem \<Rightarrow> (addr \<times> cmem) option" where
  "core_list_reverse list m = reverse_loop list NULL m"

section \<open>Paths\<close>

text \<open>From \<open>p\<close> the \<^verbatim>\<open>next\<close> pointers visit the nodes \<open>xs\<close> and then point to \<open>q\<close>.\<close>

fun path :: "(addr \<Rightarrow> list_head option) \<Rightarrow> addr \<Rightarrow> addr list \<Rightarrow> addr \<Rightarrow> bool" where
  "path h p [] q \<longleftrightarrow> p = q"
| "path h p (x # xs) q \<longleftrightarrow> p = x \<and> x \<noteq> NULL \<and> (case h x of None \<Rightarrow> False | Some n \<Rightarrow> path h (nxt n) xs q)"

text \<open>The nodes of a list, from its head to \<^verbatim>\<open>NULL\<close>.\<close>

abbreviation is_list :: "cmem \<Rightarrow> addr \<Rightarrow> addr list \<Rightarrow> bool" where
  "is_list m p xs \<equiv> path (heads m) p xs NULL"

lemma path_append: "path h p (xs @ ys) q \<longleftrightarrow> (\<exists>r. path h p xs r \<and> path h r ys q)"
  by (induction xs arbitrary: p) (auto split: option.splits)

lemma path_cong: "(\<And>x. x \<in> set xs \<Longrightarrow> map_option nxt (h x) = map_option nxt (h' x)) \<Longrightarrow> path h p xs q = path h' p xs q"
proof (induction xs arbitrary: p)
  case (Cons x xs)
  from Cons.prems [of x] have "map_option nxt (h x) = map_option nxt (h' x)" by simp
  with Cons show ?case by (cases "h x"; cases "h' x") auto
qed simp

lemma path_upd_other [simp]: "a \<notin> set xs \<Longrightarrow> path (h(a := v)) p xs q = path h p xs q"
  by (rule path_cong) auto

lemma path_not_NULL: "path h p xs q \<Longrightarrow> x \<in> set xs \<Longrightarrow> x \<noteq> NULL \<and> (\<exists>n. h x = Some n)"
  by (induction xs arbitrary: p) (auto split: option.splits)

lemma path_to_NULL_det: "path h p xs NULL \<Longrightarrow> path h p ys NULL \<Longrightarrow> xs = ys"
proof (induction xs arbitrary: p ys)
  case Nil
  then show ?case by (cases ys) auto
next
  case (Cons x xs)
  then show ?case by (cases ys) (auto split: option.splits)
qed

lemma path_distinct: "path h p xs NULL \<Longrightarrow> distinct xs"
proof (induction xs arbitrary: p)
  case (Cons x xs)
  then obtain n where n: "h x = Some n" "path h (nxt n) xs NULL" by (auto split: option.splits)
  have "x \<notin> set xs"
  proof
    assume "x \<in> set xs"
    then obtain us vs where xs: "xs = us @ x # vs" by (meson split_list)
    with n have "path h x (x # vs) NULL" by (auto simp: path_append)
    moreover have "path h x (x # xs) NULL" using Cons.prems by auto
    ultimately have "length (x # vs) = length (x # xs)" by (metis path_to_NULL_det)
    with xs show False by simp
  qed
  with Cons.IH n show ?case by auto
qed simp

text \<open>The list a path ends in, its cells and their data.\<close>

definition infos :: "cmem \<Rightarrow> addr list \<Rightarrow> addr option list" where
  "infos m xs = map (\<lambda>x. map_option info (heads m x)) xs"

definition node_data :: "cmem \<Rightarrow> addr \<Rightarrow> list_data option" where
  "node_data m x = Option.bind (heads m x) (\<lambda>n. data_at m (info n))"

section \<open>Search\<close>

lemma find_loop_finds:
  assumes "is_list m p xs" "\<forall>x \<in> set xs. node_data m x \<noteq> None"
  shows "find_loop stop p m = Some (case List.find (\<lambda>x. stop (the (node_data m x))) xs of None \<Rightarrow> NULL | Some x \<Rightarrow> x)"
  using assms
proof (induction xs arbitrary: p)
  case Nil
  then show ?case by (subst find_loop.simps) simp
next
  case (Cons x xs)
  then obtain n where n: "p = x" "x \<noteq> NULL" "heads m x = Some n" "path (heads m) (nxt n) xs NULL"
    by (auto split: option.splits)
  moreover from Cons.prems(2) n obtain d where "data_at m (info n) = Some d"
    by (auto simp: node_data_def)
  ultimately show ?case using Cons
    by (subst find_loop.simps) (simp add: head_at_def node_data_def)
qed

section \<open>Reversal\<close>

lemma reverse_loop_eq:
  assumes "path (heads m) p xs NULL" "path (heads m) q ys NULL" "distinct (xs @ ys)"
  shows "\<exists>h. reverse_loop p q m = Some (hd (rev xs @ ys @ [NULL]), m\<lparr>heads := h\<rparr>)
    \<and> path h (hd (rev xs @ ys @ [NULL])) (rev xs @ ys) NULL
    \<and> (\<forall>x. map_option info (h x) = map_option info (heads m x)) \<and> (\<forall>x. x \<notin> set xs \<longrightarrow> h x = heads m x)"
  using assms
proof (induction xs arbitrary: p q ys m)
  case Nil
  then have "q = hd (ys @ [NULL])" by (cases ys) auto
  with Nil show ?case by (subst reverse_loop.simps) (auto intro!: exI [of _ "heads m"])
next
  case (Cons x xs)
  then obtain n where n: "p = x" "x \<noteq> NULL" "heads m x = Some n" "path (heads m) (nxt n) xs NULL"
    by (auto split: option.splits)
  let ?m = "m\<lparr>heads := (heads m)(x \<mapsto> n\<lparr>nxt := q\<rparr>)\<rparr>"
  have "path (heads ?m) (nxt n) xs NULL" "path (heads ?m) x (x # ys) NULL" "distinct (xs @ x # ys)"
    using Cons.prems n by auto
  from Cons.IH [OF this] obtain h where
    h: "reverse_loop (nxt n) x ?m = Some (hd (rev xs @ (x # ys) @ [NULL]), ?m\<lparr>heads := h\<rparr>)"
      "path h (hd (rev xs @ (x # ys) @ [NULL])) (rev xs @ x # ys) NULL"
      "\<forall>y. map_option info (h y) = map_option info (heads ?m y)" "\<forall>y. y \<notin> set xs \<longrightarrow> h y = heads ?m y"
    by auto
  have "reverse_loop p q m = reverse_loop (nxt n) x ?m"
    using n by (subst reverse_loop.simps) (simp add: head_at_def set_nxt_def)
  with h n show ?case by (intro exI [of _ h]) (auto split: if_splits)
qed

lemma data_at_heads [simp]: "data_at (m\<lparr>heads := h\<rparr>) p = data_at m p"
  by (simp add: data_at_def)

lemma head_at_datas [simp]: "head_at (m\<lparr>datas := h\<rparr>) p = head_at m p"
  by (simp add: head_at_def)

section \<open>Removal and its undo\<close>

lemma core_list_remove_eq:
  assumes "a \<noteq> NULL" "b \<noteq> NULL" "a \<noteq> b" "heads m a = Some na" "nxt na = b" "heads m b = Some nb"
  shows "core_list_remove a m = Some (b, m\<lparr>heads := (heads m)
     (a \<mapsto> na\<lparr>info := info nb, nxt := nxt nb\<rparr>, b \<mapsto> nb\<lparr>info := info na, nxt := NULL\<rparr>)\<rparr>)"
  using assms
  by (simp add: core_list_remove_def head_at_def set_info_def set_nxt_def Let_def fun_upd_twist [of a b])

lemma core_list_undo_remove_eq:
  assumes "a \<noteq> NULL" "b \<noteq> NULL" "a \<noteq> b" "heads m a = Some na" "heads m b = Some nb"
  shows "core_list_undo_remove b a m = Some (b, m\<lparr>heads := (heads m)
     (a \<mapsto> na\<lparr>info := info nb, nxt := b\<rparr>, b \<mapsto> nb\<lparr>info := info na, nxt := nxt na\<rparr>)\<rparr>)"
  using assms
  by (simp add: core_list_undo_remove_def head_at_def set_info_def set_nxt_def Let_def fun_upd_twist [of a b])

text \<open>Nodes of a list split around a position.\<close>

lemma path_split_two:
  assumes "path h p (us @ a # b # vs) q"
  obtains na nb where "path h p us a" "a \<noteq> NULL" "h a = Some na" "nxt na = b" "b \<noteq> NULL" "h b = Some nb"
    "path h (nxt nb) vs q"
  using assms by (auto simp: path_append split: option.splits)

lemma core_list_remove_restores:
  assumes "is_list m p (us @ a # b # vs)"
  shows "\<exists>m'. core_list_remove a m = Some (b, m') \<and> is_list m' p (us @ a # vs)
     \<and> map (node_data m') (us @ a # vs) = map (node_data m) (us @ b # vs)
     \<and> core_list_undo_remove b a m' = Some (b, m)"
proof -
  from assms obtain na nb where n: "path (heads m) p us a" "a \<noteq> NULL" "heads m a = Some na" "nxt na = b"
    "b \<noteq> NULL" "heads m b = Some nb" "path (heads m) (nxt nb) vs NULL"
    by (rule path_split_two)
  have d: "a \<notin> set us" "a \<noteq> b" "a \<notin> set vs" "b \<notin> set us" "b \<notin> set vs"
    using path_distinct [OF assms] by auto
  let ?m = "m\<lparr>heads := (heads m)(a \<mapsto> na\<lparr>info := info nb, nxt := nxt nb\<rparr>, b \<mapsto> nb\<lparr>info := info na, nxt := NULL\<rparr>)\<rparr>"
  have "core_list_remove a m = Some (b, ?m)"
    using core_list_remove_eq [OF n(2,5) d(2) n(3,4,6)] .
  moreover have "is_list ?m p (us @ a # vs)"
    using n d by (auto simp: path_append)
  moreover have same: "node_data ?m x = node_data m x" if "x \<noteq> a" "x \<noteq> b" for x
    using that by (simp add: node_data_def)
  have "map (node_data ?m) us = map (node_data m) us" "map (node_data ?m) vs = map (node_data m) vs"
    using d by (intro map_cong refl same; auto)+
  moreover have "node_data ?m a = node_data m b" using n d(2) by (simp add: node_data_def)
  moreover have "core_list_undo_remove b a ?m = Some (b, m)"
    using core_list_undo_remove_eq [OF n(2,5) d(2), of ?m] n d(2)
    by (simp add: fun_upd_twist [of a b] fun_upd_idem)
  ultimately show ?thesis by auto
qed

definition three_cells :: cmem where
  "three_cells = empty_mem\<lparr>heads := [8 \<mapsto> \<lparr>nxt = 16, info = 100\<rparr>, 16 \<mapsto> \<lparr>nxt = 24, info = 104\<rparr>,
      24 \<mapsto> \<lparr>nxt = 0, info = 108\<rparr>],
     datas := [100 \<mapsto> \<lparr>data16 = 1, idx = 3\<rparr>, 104 \<mapsto> \<lparr>data16 = 5, idx = 2\<rparr>, 108 \<mapsto> \<lparr>data16 = 9, idx = 1\<rparr>]\<rparr>"

text \<open>
  C15: removal. On a list with the node \<open>a\<close> and a successor \<open>b\<close>, \<^verbatim>\<open>core_list_remove\<close>
  returns \<open>b\<close>; the list then has every node but \<open>b\<close>, and its data, read in order, are
  the old data without those of \<open>a\<close>. Undoing it with the returned node gives back exactly the
  memory there was.
\<close>

theorem core_list_remove_undo:
  assumes "is_list m p (us @ a # b # vs)"
  shows "\<exists>m'. core_list_remove a m = Some (b, m') \<and> is_list m' p (us @ a # vs)
     \<and> map (node_data m') (us @ a # vs) = map (node_data m) (us @ b # vs)
     \<and> core_list_undo_remove b a m' = Some (b, m)"
  using assms by (rule core_list_remove_restores)

theorem core_list_remove_undo_witness:
  "\<exists>m'. core_list_remove 8 three_cells = Some (16, m') \<and> is_list m' 8 ([] @ 8 # [24])
     \<and> map (node_data m') ([] @ 8 # [24]) = map (node_data three_cells) ([] @ 16 # [24])
     \<and> core_list_undo_remove 16 8 m' = Some (16, three_cells)"
  by (rule core_list_remove_undo) (simp add: three_cells_def)

lemma sint_promote_s16: "sint (promote_s16 b) = sint b"
proof -
  have "sint (word_of_int (sint b) :: 32 word) = sint b"
    using sint_greater_eq [of b] sint_less [of b] by (intro sint32_of_int) simp_all
  then show ?thesis by (simp only: of_int_sint)
qed

lemma promote_low_byte: "sint (promote_s16 a AND 0xff) = uint a mod 256"
proof -
  have "promote_s16 a AND 0xff = word_of_int (uint a mod 256)"
  proof (rule bit_word_eqI)
    fix n
    assume "n < LENGTH(32)"
    have "bit (promote_s16 a AND 0xff) n \<longleftrightarrow> n < 8 \<and> bit a n"
      using bit_mask_iff [where 'a = "32 word" and m = 8 and n = n]
      by (auto simp: bit_and_iff bit_signed_iff mask_numeral min_def)
    moreover have "bit (word_of_int (uint a mod 256) :: 32 word) n \<longleftrightarrow> n < 8 \<and> bit a n"
      using \<open>n < LENGTH(32)\<close> bit_take_bit_iff [of 8 "uint a" n]
      by (auto simp: bit_word_of_int_iff take_bit_eq_mod bit_uint_iff)
    ultimately show "bit (promote_s16 a AND 0xff) n = bit (word_of_int (uint a mod 256) :: 32 word) n" by simp
  qed
  moreover have "0 \<le> uint a mod 256" "uint a mod 256 < 256" by simp_all
  then have "- (2 ^ 31) \<le> uint a mod 256" "uint a mod 256 < 2 ^ 31" by simp_all
  then have "sint (word_of_int (uint a mod 256) :: 32 word) = uint a mod 256" by (rule sint32_of_int)
  ultimately show ?thesis by (simp only:)
qed

lemma low_byte_eq: "promote_s16 a AND 0xff = promote_s16 b \<longleftrightarrow> uint a mod 256 = sint b"
  by (metis promote_low_byte sint_promote_s16 signed_word_eqI)

text \<open>What a search looks for: an index, or when that is negative the low byte of the data.\<close>

definition matches :: "list_data \<Rightarrow> list_data \<Rightarrow> bool" where
  "matches d e \<longleftrightarrow> (if 0 \<le> sint (idx d) then idx e = idx d else uint (data16 e) mod 256 = sint (data16 d))"

lemma core_list_find_eq: "core_list_find p d m = find_loop (matches d) p m"
  unfolding core_list_find_def matches_def low_byte_eq by (cases "0 \<le> sint (idx d)") simp_all

definition first_match :: "cmem \<Rightarrow> list_data \<Rightarrow> addr list \<Rightarrow> addr" where
  "first_match m d xs =
     (case List.find (\<lambda>x. case node_data m x of None \<Rightarrow> False | Some e \<Rightarrow> matches d e) xs of None \<Rightarrow> NULL | Some x \<Rightarrow> x)"

lemma core_list_find_first_match:
  assumes "is_list m p xs" "\<forall>x \<in> set xs. node_data m x \<noteq> None"
  shows "core_list_find p d m = Some (first_match m d xs)"
proof -
  have "List.find (\<lambda>x. matches d (the (node_data m x))) xs
      = List.find (\<lambda>x. case node_data m x of None \<Rightarrow> False | Some e \<Rightarrow> matches d e) xs"
    using assms(2) by (intro find_cong) auto
  then show ?thesis by (simp add: core_list_find_eq find_loop_finds [OF assms] first_match_def)
qed

text \<open>
  Search. On a list whose nodes have data, \<^verbatim>\<open>core_list_find\<close> returns \<^verbatim>\<open>NULL\<close> when no node
  matches, and otherwise the first node that does: its index is the one looked for, or, when that
  is negative, the low byte of its data is the data looked for.
\<close>

theorem core_list_find_first:
  assumes "is_list m p xs" "\<forall>x \<in> set xs. node_data m x \<noteq> None"
  shows "\<exists>r. core_list_find p d m = Some r
     \<and> (r = NULL \<longleftrightarrow> (\<forall>x \<in> set xs. \<forall>e. node_data m x = Some e \<longrightarrow> \<not> matches d e))
     \<and> (r \<noteq> NULL \<longrightarrow> (\<exists>us vs e. xs = us @ r # vs \<and> node_data m r = Some e \<and> matches d e
          \<and> (\<forall>x \<in> set us. \<forall>e. node_data m x = Some e \<longrightarrow> \<not> matches d e)))"
proof (cases "List.find (\<lambda>x. case node_data m x of None \<Rightarrow> False | Some e \<Rightarrow> matches d e) xs")
  case None
  then show ?thesis
    using core_list_find_first_match [OF assms] by (fastforce simp: first_match_def find_None_iff split: option.splits)
next
  case (Some r)
  then obtain i where i: "i < length xs" "r = xs ! i" "\<exists>e. node_data m r = Some e \<and> matches d e"
    "\<forall>j < i. \<forall>e. node_data m (xs ! j) = Some e \<longrightarrow> \<not> matches d e"
    by (fastforce simp: find_Some_iff split: option.splits)
  have "xs = take i xs @ r # drop (Suc i) xs" using i(1,2) by (simp add: id_take_nth_drop)
  moreover have "\<forall>x \<in> set (take i xs). \<forall>e. node_data m x = Some e \<longrightarrow> \<not> matches d e"
    using i(1,4) by (auto simp: in_set_conv_nth)
  moreover have "r \<noteq> NULL" using path_not_NULL [OF assms(1), of r] i by simp
  moreover have "r \<in> set xs" using i by simp
  ultimately show ?thesis
    using core_list_find_first_match [OF assms] Some i(3) by (fastforce simp: first_match_def)
qed

theorem core_list_find_first_witness:
  "\<exists>r. core_list_find 8 \<lparr>data16 = 0, idx = 1\<rparr> three_cells = Some r
     \<and> (r = NULL \<longleftrightarrow> (\<forall>x \<in> set [8, 16, 24]. \<forall>e. node_data three_cells x = Some e \<longrightarrow> \<not> matches \<lparr>data16 = 0, idx = 1\<rparr> e))
     \<and> (r \<noteq> NULL \<longrightarrow> (\<exists>us vs e. [8, 16, 24] = us @ r # vs \<and> node_data three_cells r = Some e
          \<and> matches \<lparr>data16 = 0, idx = 1\<rparr> e
          \<and> (\<forall>x \<in> set us. \<forall>e. node_data three_cells x = Some e \<longrightarrow> \<not> matches \<lparr>data16 = 0, idx = 1\<rparr> e)))"
  by (rule core_list_find_first) (simp_all add: three_cells_def node_data_def data_at_def)

lemma core_list_reverse_path:
  assumes "is_list m p xs"
  shows "\<exists>p' h. core_list_reverse p m = Some (p', m\<lparr>heads := h\<rparr>) \<and> path h p' (rev xs) NULL
     \<and> (\<forall>x. map_option info (h x) = map_option info (heads m x)) \<and> (\<forall>x. x \<notin> set xs \<longrightarrow> h x = heads m x)"
  using reverse_loop_eq [OF assms, of NULL "[]"] path_distinct [OF assms]
  by (auto simp: core_list_reverse_def)

text \<open>
  Reversal. \<^verbatim>\<open>core_list_reverse\<close> returns, the list from the pointer it returns has the
  nodes in reverse order, and no cell outside the list, no data pointer and no other memory changes.
\<close>

theorem core_list_reverse_reverses:
  assumes "is_list m p xs"
  shows "\<exists>p' h. core_list_reverse p m = Some (p', m\<lparr>heads := h\<rparr>) \<and> path h p' (rev xs) NULL
     \<and> (\<forall>x. map_option info (h x) = map_option info (heads m x)) \<and> (\<forall>x. x \<notin> set xs \<longrightarrow> h x = heads m x)"
  using assms by (rule core_list_reverse_path)

theorem core_list_reverse_reverses_witness:
  "\<exists>p' h. core_list_reverse 8 three_cells = Some (p', three_cells\<lparr>heads := h\<rparr>) \<and> path h p' (rev [8, 16, 24]) NULL
     \<and> (\<forall>x. map_option info (h x) = map_option info (heads three_cells x))
     \<and> (\<forall>x. x \<notin> set [8, 16, 24] \<longrightarrow> h x = heads three_cells x)"
  by (rule core_list_reverse_reverses) (simp add: three_cells_def)

section \<open>Insertion\<close>

lemma copy_info_eq:
  "datas m p = Some d \<Longrightarrow> p \<noteq> NULL \<Longrightarrow> copy_info p e m = Some (m\<lparr>datas := (datas m)(p \<mapsto> e)\<rparr>)"
  by (cases d, cases e) (simp add: copy_info_def put_data_def data_at_def)

lemma core_list_insert_new_eq:
  assumes "mb + 8 < me" "db + 4 < de" "heads m ip = Some n" "ip \<noteq> NULL" "mb \<noteq> ip" "mb \<noteq> NULL" "heads m mb = Some c"
    "datas m db = Some d0" "db \<noteq> NULL"
  shows "core_list_insert_new ip d mb db me de m = Some (mb, mb + 8, db + 4,
     m\<lparr>heads := (heads m)(ip \<mapsto> n\<lparr>nxt := mb\<rparr>, mb \<mapsto> c\<lparr>nxt := nxt n, info := db\<rparr>), datas := (datas m)(db \<mapsto> d)\<rparr>)"
  using assms
  by (simp add: core_list_insert_new_def head_at_def set_nxt_def set_info_def copy_info_eq Let_def not_le fun_upd_twist [of ip mb])

text \<open>
  C30: insertion. When both regions have room for one more cell, \<^verbatim>\<open>core_list_insert_new\<close> puts
  the next free cell behind the insertion point, with the given data, advances both free
  pointers and changes no other node's data. When a region is full it returns \<^verbatim>\<open>NULL\<close> and
  changes nothing.
\<close>

theorem core_list_insert_new_inserts:
  assumes "is_list m p (us @ ip # vs)" "mb \<notin> set (us @ ip # vs)" "mb \<noteq> NULL" "heads m mb = Some c"
    "db \<noteq> NULL" "datas m db = Some d0" "\<forall>x \<in> set (us @ ip # vs). map_option info (heads m x) \<noteq> Some db"
  shows "if mb + 8 < me \<and> db + 4 < de
    then \<exists>m'. core_list_insert_new ip d mb db me de m = Some (mb, mb + 8, db + 4, m')
      \<and> is_list m' p (us @ ip # mb # vs)
      \<and> map (node_data m') (us @ ip # mb # vs) = map (node_data m) (us @ [ip]) @ Some d # map (node_data m) vs
    else core_list_insert_new ip d mb db me de m = Some (NULL, mb, db, m)"
proof (cases "mb + 8 < me \<and> db + 4 < de")
  case False
  then show ?thesis by (auto simp: core_list_insert_new_def not_le)
next
  case True
  from assms(1) obtain n where n: "path (heads m) p us ip" "ip \<noteq> NULL" "heads m ip = Some n" "path (heads m) (nxt n) vs NULL"
    by (auto simp: path_append split: option.splits)
  have d: "ip \<notin> set us" "ip \<notin> set vs" using path_distinct [OF assms(1)] by auto
  let ?m = "m\<lparr>heads := (heads m)(ip \<mapsto> n\<lparr>nxt := mb\<rparr>, mb \<mapsto> c\<lparr>nxt := nxt n, info := db\<rparr>), datas := (datas m)(db \<mapsto> d)\<rparr>"
  have "core_list_insert_new ip d mb db me de m = Some (mb, mb + 8, db + 4, ?m)"
    using True assms n by (intro core_list_insert_new_eq) auto
  moreover have "is_list ?m p (us @ ip # mb # vs)"
    using n assms d by (auto simp: path_append)
  moreover have same: "node_data ?m x = node_data m x" if "x \<in> set (us @ ip # vs)" for x
    using that assms(2,7) n(3) by (cases "heads m x") (auto simp: node_data_def data_at_def)
  have "map (node_data ?m) us = map (node_data m) us" "map (node_data ?m) vs = map (node_data m) vs"
    "node_data ?m ip = node_data m ip"
    by (intro map_cong refl same; simp)+
  moreover have "node_data ?m mb = Some d" using assms(5) by (simp add: node_data_def data_at_def)
  ultimately show ?thesis using True by auto
qed

theorem core_list_insert_new_inserts_witness:
  "if (32 :: addr) + 8 < 100 \<and> (112 :: addr) + 4 < 200
    then \<exists>m'. core_list_insert_new 8 \<lparr>data16 = 7, idx = 7\<rparr> 32 112 100 200
        (three_cells\<lparr>heads := (heads three_cells)(32 \<mapsto> \<lparr>nxt = 0, info = 0\<rparr>), datas := (datas three_cells)(112 \<mapsto> \<lparr>data16 = 0, idx = 0\<rparr>)\<rparr>)
        = Some (32, 32 + 8, 112 + 4, m')
      \<and> is_list m' 8 ([] @ 8 # 32 # [16, 24])
      \<and> map (node_data m') ([] @ 8 # 32 # [16, 24])
        = map (node_data (three_cells\<lparr>heads := (heads three_cells)(32 \<mapsto> \<lparr>nxt = 0, info = 0\<rparr>), datas := (datas three_cells)(112 \<mapsto> \<lparr>data16 = 0, idx = 0\<rparr>)\<rparr>)) ([] @ [8])
          @ Some \<lparr>data16 = 7, idx = 7\<rparr>
          # map (node_data (three_cells\<lparr>heads := (heads three_cells)(32 \<mapsto> \<lparr>nxt = 0, info = 0\<rparr>), datas := (datas three_cells)(112 \<mapsto> \<lparr>data16 = 0, idx = 0\<rparr>)\<rparr>)) [16, 24]
    else core_list_insert_new 8 \<lparr>data16 = 7, idx = 7\<rparr> 32 112 100 200
        (three_cells\<lparr>heads := (heads three_cells)(32 \<mapsto> \<lparr>nxt = 0, info = 0\<rparr>), datas := (datas three_cells)(112 \<mapsto> \<lparr>data16 = 0, idx = 0\<rparr>)\<rparr>)
        = Some (NULL, 32, 112, three_cells\<lparr>heads := (heads three_cells)(32 \<mapsto> \<lparr>nxt = 0, info = 0\<rparr>), datas := (datas three_cells)(112 \<mapsto> \<lparr>data16 = 0, idx = 0\<rparr>)\<rparr>)"
  by (rule core_list_insert_new_inserts) (simp_all add: three_cells_def)

end
