(* ===== verification/MergeSort.thy ===== *)
theory MergeSort
  imports ListHeap "HOL-Library.Multiset"
begin

text \<open>
  The in-place merge sort of \<^verbatim>\<open>coremark/core_list_join.c\<close>, for any comparison function.
  A comparison may change the benchmark's results and memory (the one by data computes and
  caches a value), so it is a parameter with a state. The interface \<open>list_comparison\<close> says what
  the sort relies on, and the sort is proved correct once, inside it.
\<close>

section \<open>The algorithm\<close>

text \<open>\<^verbatim>\<open>typedef ee_s32 (*list_cmp)(list_data *a, list_data *b, core_results *res)\<close>; the type
  \<^typ>\<open>'r\<close> is that of the pointer \<^verbatim>\<open>res\<close> and what it points to.\<close>

type_synonym 'r list_cmp = "addr \<Rightarrow> addr \<Rightarrow> 'r \<Rightarrow> cmem \<Rightarrow> (ee_s32 \<times> 'r \<times> cmem) option"

text \<open>\<^verbatim>\<open>for (i = 0; i < insize; i++)\<close>: step \<^verbatim>\<open>q\<close> along at most \<^verbatim>\<open>insize\<close> nodes,
  counting them in \<^verbatim>\<open>psize\<close>.\<close>

partial_function (option) step_along ::
  "ee_s32 \<Rightarrow> ee_s32 \<Rightarrow> ee_s32 \<Rightarrow> addr \<Rightarrow> cmem \<Rightarrow> (ee_s32 \<times> addr) option" where
  "step_along insize i psize q m =
     (if sint i < sint insize then do {
        let psize = psize + 1;
        n \<leftarrow> head_at m q;
        let q = nxt n;
        if q = NULL then Some (psize, q) else step_along insize (i + 1) psize q m }
      else Some (psize, q))"

declare step_along.simps [code]

text \<open>Which run the next node comes from: the node, and the advanced \<^verbatim>\<open>p\<close>,
  \<^verbatim>\<open>psize\<close>, \<^verbatim>\<open>q\<close>, \<^verbatim>\<open>qsize\<close>.\<close>

definition take_p ::
  "addr \<Rightarrow> ee_s32 \<Rightarrow> addr \<Rightarrow> ee_s32 \<Rightarrow> cmem \<Rightarrow> (addr \<times> addr \<times> ee_s32 \<times> addr \<times> ee_s32) option" where
  "take_p p psize q qsize m = do {
     n \<leftarrow> head_at m p;
     Some (p, nxt n, psize - 1, q, qsize) }"

definition take_q ::
  "addr \<Rightarrow> ee_s32 \<Rightarrow> addr \<Rightarrow> ee_s32 \<Rightarrow> cmem \<Rightarrow> (addr \<times> addr \<times> ee_s32 \<times> addr \<times> ee_s32) option" where
  "take_q p psize q qsize m = do {
     n \<leftarrow> head_at m q;
     Some (q, p, psize, nxt n, qsize - 1) }"

definition pick_next ::
  "'r list_cmp \<Rightarrow> addr \<Rightarrow> ee_s32 \<Rightarrow> addr \<Rightarrow> ee_s32 \<Rightarrow> 'r \<Rightarrow> cmem
    \<Rightarrow> ((addr \<times> addr \<times> ee_s32 \<times> addr \<times> ee_s32) \<times> 'r \<times> cmem) option" where
  "pick_next cmp p psize q qsize res m =
     (if psize = 0 then do {
        c \<leftarrow> take_q p psize q qsize m;
        Some (c, res, m) }
      else if qsize = 0 \<or> q = NULL then do {
        c \<leftarrow> take_p p psize q qsize m;
        Some (c, res, m) }
      else do {
        np \<leftarrow> head_at m p;
        nq \<leftarrow> head_at m q;
        (v, res, m) \<leftarrow> cmp (info np) (info nq) res m;
        c \<leftarrow> (if sint v \<le> 0 then take_p p psize q qsize m else take_q p psize q qsize m);
        Some (c, res, m) })"

definition append_node :: "addr \<Rightarrow> addr \<Rightarrow> addr \<Rightarrow> cmem \<Rightarrow> (addr \<times> cmem) option" where
  "append_node list tail e m =
     (if tail \<noteq> NULL then do {
        m \<leftarrow> set_nxt tail e m;
        Some (list, m) }
      else Some (e, m))"

partial_function (option) merge_loop ::
  "'r list_cmp \<Rightarrow> addr \<Rightarrow> ee_s32 \<Rightarrow> addr \<Rightarrow> ee_s32 \<Rightarrow> addr \<Rightarrow> addr \<Rightarrow> 'r \<Rightarrow> cmem
    \<Rightarrow> (addr \<times> addr \<times> addr \<times> 'r \<times> cmem) option" where
  "merge_loop cmp p psize q qsize list tail res m =
     (if sint psize > 0 \<or> (sint qsize > 0 \<and> q \<noteq> NULL) then do {
        ((e, p, psize, q, qsize), res, m) \<leftarrow> pick_next cmp p psize q qsize res m;
        (list, m) \<leftarrow> append_node list tail e m;
        merge_loop cmp p psize q qsize list e res m }
      else Some (q, list, tail, res, m))"

declare merge_loop.simps [code]

text \<open>\<^verbatim>\<open>while (p)\<close>: one pass over the list.\<close>

partial_function (option) pass_loop ::
  "'r list_cmp \<Rightarrow> ee_s32 \<Rightarrow> addr \<Rightarrow> addr \<Rightarrow> addr \<Rightarrow> ee_s32 \<Rightarrow> 'r \<Rightarrow> cmem
    \<Rightarrow> (addr \<times> addr \<times> ee_s32 \<times> 'r \<times> cmem) option" where
  "pass_loop cmp insize p list tail nmerges res m =
     (if p \<noteq> NULL then do {
        let nmerges = nmerges + 1;
        (psize, q) \<leftarrow> step_along insize 0 0 p m;
        (q, list, tail, res, m) \<leftarrow> merge_loop cmp p psize q insize list tail res m;
        pass_loop cmp insize q list tail nmerges res m }
      else Some (list, tail, nmerges, res, m))"

declare pass_loop.simps [code]

text \<open>\<^verbatim>\<open>while (1)\<close>: passes with runs of doubling length.\<close>

partial_function (option) sort_loop ::
  "'r list_cmp \<Rightarrow> ee_s32 \<Rightarrow> addr \<Rightarrow> 'r \<Rightarrow> cmem \<Rightarrow> (addr \<times> 'r \<times> cmem) option" where
  "sort_loop cmp insize list res m = do {
     (list, tail, nmerges, res, m) \<leftarrow> pass_loop cmp insize list NULL NULL 0 res m;
     m \<leftarrow> set_nxt tail NULL m;
     if sint nmerges \<le> 1 then Some (list, res, m)
     else sort_loop cmp (insize * 2) list res m }"

declare sort_loop.simps [code]

definition core_list_mergesort :: "addr \<Rightarrow> 'r list_cmp \<Rightarrow> 'r \<Rightarrow> cmem \<Rightarrow> (addr \<times> 'r \<times> cmem) option" where
  "core_list_mergesort list cmp res m = sort_loop cmp 1 list res m"

section \<open>Counters\<close>

lemma sint_word_of_nat: "n < 2 ^ 31 \<Longrightarrow> sint (word_of_nat n :: 32 word) = int n"
  using sint32_of_int [of "int n"] by simp

lemma word_of_nat_eq_0: "n < 2 ^ 31 \<Longrightarrow> (word_of_nat n :: 32 word) = 0 \<longleftrightarrow> n = 0"
  using sint_word_of_nat [of n] by auto

section \<open>The list under construction\<close>

text \<open>The merged list so far: its nodes \<open>ds\<close>, linked from \<^verbatim>\<open>list\<close>, the last one in
  \<^verbatim>\<open>tail\<close>; the last \<^verbatim>\<open>next\<close> pointer is not set yet.\<close>

definition tailed :: "(addr \<Rightarrow> list_head option) \<Rightarrow> addr \<Rightarrow> addr \<Rightarrow> addr list \<Rightarrow> bool" where
  "tailed h list tail ds \<longleftrightarrow>
     (if ds = [] then tail = NULL else tail = last ds \<and> (\<exists>e. path h list ds e))"

text \<open>Only \<^verbatim>\<open>next\<close> pointers of the nodes \<open>ds\<close> differ.\<close>

definition relinked :: "addr set \<Rightarrow> cmem \<Rightarrow> cmem \<Rightarrow> bool" where
  "relinked S m m' \<longleftrightarrow> (\<exists>h. m' = m\<lparr>heads := h\<rparr>) \<and> (\<forall>x. map_option info (heads m' x) = map_option info (heads m x))
     \<and> (\<forall>x. x \<notin> S \<longrightarrow> heads m' x = heads m x)"

lemma path_relink_last:
  assumes "path h list ds e" "distinct ds" "ds \<noteq> []" "h (last ds) = Some n"
  shows "path (h(last ds \<mapsto> n\<lparr>nxt := e'\<rparr>)) list ds e'"
proof -
  obtain us x where ds: "ds = us @ [x]" using assms(3) by (metis rev_exhaust)
  with assms show ?thesis by (auto simp: path_append split: option.splits)
qed

lemma path_last: "path h list ds e \<Longrightarrow> ds \<noteq> [] \<Longrightarrow> last ds \<noteq> NULL \<and> (\<exists>n. h (last ds) = Some n)"
  using path_not_NULL last_in_set by blast

lemma append_node_ok:
  assumes "tailed (heads m) list tail ds" "distinct ds" "e \<notin> set ds" "e \<noteq> NULL" "heads m e = Some n"
  shows "\<exists>list' m'. append_node list tail e m = Some (list', m') \<and> tailed (heads m') list' e (ds @ [e])
     \<and> relinked (set ds) m m'"
proof (cases "ds = []")
  case True
  with assms show ?thesis
    by (auto simp: append_node_def tailed_def relinked_def intro!: exI [of _ "heads m"])
next
  case False
  with assms obtain x where p: "tail = last ds" "path (heads m) list ds x" by (auto simp: tailed_def)
  then obtain k where k: "last ds \<noteq> NULL" "heads m (last ds) = Some k" using path_last [OF _ False] by blast
  let ?m = "m\<lparr>heads := (heads m)(last ds \<mapsto> k\<lparr>nxt := e\<rparr>)\<rparr>"
  have "path (heads ?m) list ds e" using path_relink_last [OF p(2) assms(2) False k(2)] by simp
  then have "path (heads ?m) list (ds @ [e]) (nxt n)"
    using assms(3-5) False by (auto simp: path_append)
  then have "tailed (heads ?m) list e (ds @ [e])" by (auto simp: tailed_def)
  moreover have "append_node list tail e m = Some (list, ?m)"
    using p k by (simp add: append_node_def set_nxt_def head_at_def)
  moreover have "relinked (set ds) m ?m"
    using k False by (auto simp: relinked_def)
  ultimately show ?thesis by blast
qed

lemma relinked_path:
  "relinked S m m' \<Longrightarrow> S \<inter> set xs = {} \<Longrightarrow> path (heads m') p xs q = path (heads m) p xs q"
  by (rule path_cong) (auto simp: relinked_def)

lemma relinked_trans: "relinked S m m' \<Longrightarrow> relinked T m' m'' \<Longrightarrow> relinked (S \<union> T) m m''"
  by (auto simp: relinked_def)

lemma relinked_mono: "relinked S m m' \<Longrightarrow> S \<subseteq> T \<Longrightarrow> relinked T m m'"
  by (auto simp: relinked_def)

lemma relinked_refl [simp]: "relinked S m m"
  by (auto simp: relinked_def intro: exI [of _ "heads m"])

section \<open>Stepping along\<close>

lemma step_along_from:
  assumes "path (heads m) q qs NULL" "qs \<noteq> []" "i \<le> w" "w < 2 ^ 30"
  shows "\<exists>q'. step_along (word_of_nat w) (word_of_nat i) (word_of_nat i) q m
      = Some (word_of_nat (i + length (take (w - i) qs)), q')
    \<and> path (heads m) q (take (w - i) qs) q' \<and> path (heads m) q' (drop (w - i) qs) NULL"
  using assms
proof (induction "w - i" arbitrary: i q qs)
  case 0
  then show ?case by (subst step_along.simps) (auto simp: sint_word_of_nat)
next
  case (Suc d)
  then obtain y ys where qs: "qs = y # ys" by (cases qs) auto
  with Suc.prems obtain n where n: "q = y" "y \<noteq> NULL" "heads m y = Some n" "path (heads m) (nxt n) ys NULL"
    by (auto split: option.splits)
  have i: "i < w" "w - i = Suc d" using Suc.hyps(2) by simp_all
  have lt: "sint (word_of_nat i :: 32 word) < sint (word_of_nat w :: 32 word)"
    using i Suc.prems(4) by (simp add: sint_word_of_nat)
  show ?case
  proof (cases "ys = []")
    case True
    with n have "nxt n = NULL" by simp
    with n lt True i show ?thesis
      by (subst step_along.simps) (simp add: head_at_def qs Let_def add.commute)
  next
    case False
    with n have nn: "nxt n \<noteq> NULL" by (cases ys) auto
    have hyps: "d = w - Suc i" "Suc i \<le> w" using i by simp_all
    from Suc.hyps(1) [OF hyps(1) n(4) False hyps(2) Suc.prems(4)]
    obtain q' where q': "step_along (word_of_nat w) (word_of_nat (Suc i)) (word_of_nat (Suc i)) (nxt n) m
        = Some (word_of_nat (Suc i + length (take (w - Suc i) ys)), q')"
      "path (heads m) (nxt n) (take (w - Suc i) ys) q'" "path (heads m) q' (drop (w - Suc i) ys) NULL" by blast
    have "step_along (word_of_nat w) (word_of_nat i) (word_of_nat i) q m
      = step_along (word_of_nat w) (word_of_nat (Suc i)) (word_of_nat (Suc i)) (nxt n) m"
      using n nn lt by (subst step_along.simps) (simp add: head_at_def Let_def add.commute)
    with q' n i hyps show ?thesis by (auto simp: qs)
  qed
qed

section \<open>One step of the merge\<close>

text \<open>The runs \<open>ps\<close> and \<open>qs\<close> still to be merged, behind the merged nodes \<open>ds\<close>.\<close>

definition merging :: "cmem \<Rightarrow> addr \<Rightarrow> addr \<Rightarrow> addr list \<Rightarrow> addr \<Rightarrow> addr list \<Rightarrow> addr \<Rightarrow> addr list \<Rightarrow> bool" where
  "merging m list tail ds p ps q qs \<longleftrightarrow> tailed (heads m) list tail ds \<and> (\<exists>e. path (heads m) p ps e)
     \<and> path (heads m) q qs NULL \<and> distinct (ds @ ps @ qs)"

lemma merging_heads: "heads m = heads m' \<Longrightarrow> merging m list tail ds p ps q qs = merging m' list tail ds p ps q qs"
  by (simp add: merging_def)

lemma take_p_step:
  assumes "merging m list tail ds p (x # ps) q qs"
  shows "\<exists>p' list' m'. take_p p (word_of_nat (Suc n)) q qz m = Some (x, p', word_of_nat n, q, qz)
    \<and> append_node list tail x m = Some (list', m')
    \<and> merging m' list' x (ds @ [x]) p' ps q qs \<and> relinked (set ds) m m'"
proof -
  from assms obtain c e where x: "p = x" "x \<noteq> NULL" "heads m x = Some c" "path (heads m) (nxt c) ps e"
    by (auto simp: merging_def split: option.splits)
  from assms have d: "tailed (heads m) list tail ds" "distinct ds" "x \<notin> set ds" "path (heads m) q qs NULL"
      "distinct (ds @ (x # ps) @ qs)"
    by (auto simp: merging_def)
  from append_node_ok [OF d(1-3) x(2,3)] obtain list' m' where
    m': "append_node list tail x m = Some (list', m')" "tailed (heads m') list' x (ds @ [x])" "relinked (set ds) m m'"
    by blast
  have "path (heads m') (nxt c) ps e" "path (heads m') q qs NULL"
    using x d relinked_path [OF m'(3), of ps] relinked_path [OF m'(3), of qs] by (auto simp: Int_Un_distrib)
  with m' d have "merging m' list' x (ds @ [x]) (nxt c) ps q qs" by (auto simp: merging_def)
  then show ?thesis using x m' by (auto simp: take_p_def head_at_def)
qed

lemma take_q_step:
  assumes "merging m list tail ds p ps q (x # qs)"
  shows "\<exists>q' list' m'. take_q p pz q (word_of_nat (Suc n)) m = Some (x, p, pz, q', word_of_nat n)
    \<and> append_node list tail x m = Some (list', m')
    \<and> merging m' list' x (ds @ [x]) p ps q' qs \<and> relinked (set ds) m m'"
proof -
  from assms obtain c where x: "q = x" "x \<noteq> NULL" "heads m x = Some c" "path (heads m) (nxt c) qs NULL"
    by (auto simp: merging_def split: option.splits)
  from assms obtain e where d: "tailed (heads m) list tail ds" "distinct ds" "x \<notin> set ds" "path (heads m) p ps e"
      "distinct (ds @ ps @ x # qs)"
    by (auto simp: merging_def)
  from append_node_ok [OF d(1-3) x(2,3)] obtain list' m' where
    m': "append_node list tail x m = Some (list', m')" "tailed (heads m') list' x (ds @ [x])" "relinked (set ds) m m'"
    by blast
  have "path (heads m') (nxt c) qs NULL" "path (heads m') p ps e"
    using x d relinked_path [OF m'(3), of ps] relinked_path [OF m'(3), of qs] by (auto simp: Int_Un_distrib)
  with m' d have "merging m' list' x (ds @ [x]) p ps (nxt c) qs" by (auto simp: merging_def)
  then show ?thesis using x m' by (auto simp: take_q_def head_at_def)
qed

section \<open>The interface of a comparison\<close>

text \<open>
  What the sort relies on. A comparison may work on the addresses \<open>A\<close> in the states \<open>ok\<close>; it
  returns, keeps \<open>ok\<close> and does not touch the list heads. Afterwards both its arguments have a
  key, its result is at most 0 exactly when the first key is at most the second, and no key
  there was has changed. An item may have no key before it is first compared: the comparison by
  data computes it then.
\<close>

locale list_comparison =
  fixes cmp :: "'r list_cmp"
    and ok :: "'r \<Rightarrow> cmem \<Rightarrow> bool"
    and A :: "addr set"
    and key :: "cmem \<Rightarrow> addr \<Rightarrow> int option"
  assumes cmp_ok: "\<lbrakk>ok r m; a \<in> A; b \<in> A\<rbrakk> \<Longrightarrow> \<exists>v r' m' ka kb. cmp a b r m = Some (v, r', m') \<and> ok r' m'
      \<and> heads m' = heads m \<and> key m' a = Some ka \<and> key m' b = Some kb \<and> (sint v \<le> 0 \<longleftrightarrow> ka \<le> kb)"
    and cmp_keeps: "\<lbrakk>ok r m; a \<in> A; b \<in> A; cmp a b r m = Some (v, r', m'); key m x = Some k\<rbrakk> \<Longrightarrow> key m' x = Some k"
    and ok_heads: "ok r m \<Longrightarrow> ok r (m\<lparr>heads := h\<rparr>)"
    and key_heads: "key (m\<lparr>heads := h\<rparr>) x = key m x"
begin

text \<open>The key of a node, and the runs the passes keep sorted; a run of one node may have no key.\<close>

definition nkey :: "cmem \<Rightarrow> addr \<Rightarrow> int option" where
  "nkey m x = Option.bind (heads m x) (\<lambda>n. key m (info n))"

definition sorted_keys :: "cmem \<Rightarrow> addr list \<Rightarrow> bool" where
  "sorted_keys m xs \<longleftrightarrow> (\<exists>ks. map (nkey m) xs = map Some ks \<and> sorted ks)"

definition run_ok :: "cmem \<Rightarrow> addr list \<Rightarrow> bool" where
  "run_ok m xs \<longleftrightarrow> length xs \<le> 1 \<or> sorted_keys m xs"

definition nodes_in :: "cmem \<Rightarrow> addr list \<Rightarrow> bool" where
  "nodes_in m xs \<longleftrightarrow> (\<forall>x \<in> set xs. \<forall>n. heads m x = Some n \<longrightarrow> info n \<in> A)"

text \<open>What every step keeps: the data pointers, the cells outside \<open>S\<close>, and the keys.\<close>

definition evolved :: "addr set \<Rightarrow> cmem \<Rightarrow> cmem \<Rightarrow> bool" where
  "evolved S m m' \<longleftrightarrow> (\<forall>x. map_option info (heads m' x) = map_option info (heads m x))
     \<and> (\<forall>x. x \<notin> S \<longrightarrow> heads m' x = heads m x) \<and> (\<forall>x k. key m x = Some k \<longrightarrow> key m' x = Some k)"

lemma evolved_refl: "evolved S m m"
  by (simp add: evolved_def)

lemma evolved_trans: "evolved S m m' \<Longrightarrow> evolved T m' m'' \<Longrightarrow> S \<union> T \<subseteq> U \<Longrightarrow> evolved U m m''"
  unfolding evolved_def by (metis UnCI subsetD)

lemma relinked_evolved: "relinked S m m' \<Longrightarrow> evolved S m m'"
  by (auto simp: relinked_def evolved_def key_heads)

lemma relinked_ok: "relinked S m m' \<Longrightarrow> ok r m \<Longrightarrow> ok r m'"
  by (auto simp: relinked_def ok_heads)

lemma evolved_nkey:
  assumes "evolved S m m'" "nkey m x = Some k"
  shows "nkey m' x = Some k"
proof -
  from assms(2) obtain n where n: "heads m x = Some n" "key m (info n) = Some k"
    by (cases "heads m x") (auto simp: nkey_def)
  have "map_option info (heads m' x) = map_option info (heads m x)" using assms(1) by (simp add: evolved_def)
  with n(1) obtain n' where "heads m' x = Some n'" "info n' = info n" by (cases "heads m' x") auto
  with assms(1) n(2) show ?thesis by (simp add: nkey_def evolved_def)
qed

lemma evolved_sorted_keys:
  assumes "evolved S m m'" "sorted_keys m xs"
  shows "sorted_keys m' xs"
proof -
  from assms(2) obtain ks where ks: "map (nkey m) xs = map Some ks" "sorted ks" by (auto simp: sorted_keys_def)
  have "map (nkey m') xs = map Some ks"
    using ks(1) evolved_nkey [OF assms(1)] by (auto simp: list_eq_iff_nth_eq)
  with ks(2) show ?thesis by (auto simp: sorted_keys_def)
qed

lemma evolved_run_ok: "evolved S m m' \<Longrightarrow> run_ok m xs \<Longrightarrow> run_ok m' xs"
  using evolved_sorted_keys by (auto simp: run_ok_def)

text \<open>Nodes of equal key keep their order, also when more keys become known.\<close>

definition keeps_order :: "cmem \<Rightarrow> addr list \<Rightarrow> addr list \<Rightarrow> bool" where
  "keeps_order m xs ys \<longleftrightarrow> (\<forall>S m' k. evolved S m m' \<longrightarrow> filter (\<lambda>z. nkey m' z = Some k) ys = filter (\<lambda>z. nkey m' z = Some k) xs)"

lemma keeps_order_refl [simp]: "keeps_order m xs xs"
  by (simp add: keeps_order_def)

lemma keeps_order_evolved:
  assumes "evolved S m m'" "keeps_order m xs ys"
  shows "keeps_order m' xs ys"
  unfolding keeps_order_def
proof (intro allI impI)
  fix T m'' k
  assume "evolved T m' m''"
  then have "evolved (S \<union> T) m m''" by (rule evolved_trans [OF assms(1)]) simp
  then show "filter (\<lambda>z. nkey m'' z = Some k) ys = filter (\<lambda>z. nkey m'' z = Some k) xs" using assms(2) by (simp add: keeps_order_def)
qed

lemma keeps_order_append: "keeps_order m xs ys \<Longrightarrow> keeps_order m xs' ys' \<Longrightarrow> keeps_order m (xs @ xs') (ys @ ys')"
  by (simp add: keeps_order_def)

lemma keeps_order_trans: "keeps_order m xs ys \<Longrightarrow> keeps_order m ys zs \<Longrightarrow> keeps_order m xs zs"
  by (simp add: keeps_order_def)

lemma keeps_order_Cons: "keeps_order m xs ys \<Longrightarrow> keeps_order m (x # xs) (x # ys)"
  using keeps_order_append [OF keeps_order_refl, of m xs ys "[x]"] by simp

lemma evolved_nodes_in:
  assumes "evolved S m m'" "nodes_in m xs"
  shows "nodes_in m' xs"
  unfolding nodes_in_def
proof (intro ballI allI impI)
  fix x n
  assume x: "x \<in> set xs" "heads m' x = Some n"
  from assms(1) have "map_option info (heads m' x) = map_option info (heads m x)" by (simp add: evolved_def)
  with x assms(2) show "info n \<in> A" by (cases "heads m x") (auto simp: nodes_in_def)
qed

lemma nodes_in_simps [simp]:
  "nodes_in m []" "nodes_in m (xs @ ys) \<longleftrightarrow> nodes_in m xs \<and> nodes_in m ys"
  "nodes_in m (x # xs) \<longleftrightarrow> (\<forall>n. heads m x = Some n \<longrightarrow> info n \<in> A) \<and> nodes_in m xs"
  by (auto simp: nodes_in_def)

lemma sorted_keys_Nil [simp]: "sorted_keys m []"
  by (simp add: sorted_keys_def)

lemma sorted_keys_Cons:
  "sorted_keys m (x # xs) \<longleftrightarrow> (\<exists>k. nkey m x = Some k \<and> (\<forall>y \<in> set xs. \<exists>l. nkey m y = Some l \<and> k \<le> l) \<and> sorted_keys m xs)"
  (is "?L = ?R")
proof
  assume ?L
  then obtain ks where "map (nkey m) (x # xs) = map Some ks" "sorted ks" unfolding sorted_keys_def by blast
  then obtain k ls where k: "nkey m x = Some k" "map (nkey m) xs = map Some ls" "sorted (k # ls)"
    by (cases ks) auto
  have "\<forall>y \<in> set xs. \<exists>l. nkey m y = Some l \<and> k \<le> l"
  proof
    fix y
    assume "y \<in> set xs"
    then have "nkey m y \<in> set (map (nkey m) xs)" by simp
    with k show "\<exists>l. nkey m y = Some l \<and> k \<le> l" by auto
  qed
  with k show ?R by (auto simp: sorted_keys_def)
next
  assume ?R
  then obtain k ls where k: "nkey m x = Some k" "\<forall>y \<in> set xs. \<exists>l. nkey m y = Some l \<and> k \<le> l"
    "map (nkey m) xs = map Some ls" "sorted ls" by (auto simp: sorted_keys_def)
  have "\<forall>l \<in> set ls. k \<le> l"
  proof
    fix l
    assume "l \<in> set ls"
    then have "Some l \<in> nkey m ` set xs" using k(3) by (metis image_eqI list.set_map)
    with k(2) show "k \<le> l" by auto
  qed
  with k show ?L unfolding sorted_keys_def by (intro exI [of _ "k # ls"]) simp
qed

lemma run_ok_keyed:
  "run_ok m (x # xs) \<Longrightarrow> nkey m x = Some k \<Longrightarrow> sorted_keys m (x # xs)"
  by (cases xs) (auto simp: run_ok_def sorted_keys_Cons)

lemma run_ok_tl: "run_ok m (x # xs) \<Longrightarrow> run_ok m xs"
  by (cases xs) (auto simp: run_ok_def sorted_keys_Cons)

end

lemma merge_loop_done: "merge_loop cmp p 0 q 0 list tail r m = Some (q, list, tail, r, m)"
  by (subst merge_loop.simps) simp

lemma merge_loop_done_NULL: "merge_loop cmp p 0 NULL qz list tail r m = Some (NULL, list, tail, r, m)"
  by (subst merge_loop.simps) simp

lemma merging_q: "merging m list tail ds p ps q (y # qs) \<Longrightarrow> q = y \<and> q \<noteq> NULL"
  by (auto simp: merging_def)

lemma merging_p: "merging m list tail ds p (x # ps) q qs \<Longrightarrow> p = x \<and> p \<noteq> NULL"
  by (auto simp: merging_def)

context list_comparison
begin

lemma pick_next_compares:
  assumes "merging m list tail ds p (x # ps) q (y # qs)" "ok r m" "nodes_in m (x # ps)" "nodes_in m (y # qs)"
    and "a \<noteq> 0" "b \<noteq> 0"
  shows "\<exists>c r' m' kx ky. pick_next cmp p a q b r m = Some (c, r', m') \<and> ok r' m' \<and> heads m' = heads m
     \<and> evolved {} m m' \<and> nkey m' x = Some kx \<and> nkey m' y = Some ky
     \<and> (if kx \<le> ky then take_p p a q b m' = Some c else take_q p a q b m' = Some c)"
proof -
  from assms(1) obtain nx ny where n: "p = x" "x \<noteq> NULL" "heads m x = Some nx" "q = y" "y \<noteq> NULL" "heads m y = Some ny"
    by (auto simp: merging_def split: option.splits)
  with assms(3,4) have A: "info nx \<in> A" "info ny \<in> A" by (auto simp: nodes_in_def)
  from cmp_ok [OF assms(2) A] obtain v r' m' kx ky where
    c: "cmp (info nx) (info ny) r m = Some (v, r', m')" "ok r' m'" "heads m' = heads m"
      "key m' (info nx) = Some kx" "key m' (info ny) = Some ky" "sint v \<le> 0 \<longleftrightarrow> kx \<le> ky" by blast
  have "evolved {} m m'" using c(3) cmp_keeps [OF assms(2) A c(1)] by (auto simp: evolved_def)
  moreover have "nkey m' x = Some kx" "nkey m' y = Some ky" using n c by (simp_all add: nkey_def)
  moreover have "\<exists>c'. pick_next cmp p a q b r m = Some (c', r', m')
     \<and> (if kx \<le> ky then take_p p a q b m' = Some c' else take_q p a q b m' = Some c')"
    using n c assms(5,6) by (simp add: pick_next_def head_at_def take_p_def take_q_def)
  ultimately show ?thesis using c(2,3) by blast
qed

text \<open>What merging \<open>ps\<close> with \<open>Q\<close> gives.\<close>

definition merged :: "cmem \<Rightarrow> addr list \<Rightarrow> addr list \<Rightarrow> addr list \<Rightarrow> bool" where
  "merged m ps Q out \<longleftrightarrow> mset out = mset ps + mset Q \<and> (ps = [] \<longrightarrow> out = Q) \<and> (Q = [] \<longrightarrow> out = ps)
     \<and> (ps \<noteq> [] \<and> Q \<noteq> [] \<longrightarrow> sorted_keys m out) \<and> keeps_order m (ps @ Q) out"

lemma merged_p:
  assumes "merged m ps (y # Q) out" "sorted_keys m (x # ps)" "sorted_keys m (y # Q)"
    "nkey m x = Some kx" "nkey m y = Some ky" "kx \<le> ky"
  shows "merged m (x # ps) (y # Q) (x # out)"
proof -
  have s: "sorted_keys m out"
    using assms(1,3) by (cases "ps = []") (auto simp: merged_def)
  have "set out = set ps \<union> set (y # Q)" using assms(1) by (metis merged_def set_mset_mset set_mset_union)
  moreover have "\<forall>z \<in> set ps \<union> set (y # Q). \<exists>l. nkey m z = Some l \<and> kx \<le> l"
    using assms(2-6) by (fastforce simp: sorted_keys_Cons)
  ultimately have "sorted_keys m (x # out)" using s assms(4) by (auto simp: sorted_keys_Cons)
  moreover have "keeps_order m ((x # ps) @ y # Q) (x # out)" using assms(1) keeps_order_Cons by (simp add: merged_def)
  ultimately show ?thesis using assms(1) by (simp add: merged_def)
qed

lemma merged_q:
  assumes "merged m (x # ps) Q out" "sorted_keys m (x # ps)" "sorted_keys m (y # Q)"
    "nkey m x = Some kx" "nkey m y = Some ky" "ky < kx"
  shows "merged m (x # ps) (y # Q) (y # out)"
proof -
  have "keeps_order m ((x # ps) @ y # Q) (y # (x # ps) @ Q)"
    unfolding keeps_order_def
  proof (intro allI impI)
    fix S m' k
    assume e: "evolved S m m'"
    have "\<exists>l. nkey m z = Some l \<and> ky < l" if "z \<in> set (x # ps)" for z
      using that assms(2,4,6) by (fastforce simp: sorted_keys_Cons)
    then have "nkey m' z \<noteq> Some ky" if "z \<in> set (x # ps)" for z using that evolved_nkey [OF e] by fastforce
    then have "filter (\<lambda>z. nkey m' z = Some ky) (x # ps) = []" by (auto simp: filter_empty_conv)
    moreover have "nkey m' y = Some ky" using evolved_nkey [OF e assms(5)] .
    ultimately show "filter (\<lambda>z. nkey m' z = Some k) (y # (x # ps) @ Q) = filter (\<lambda>z. nkey m' z = Some k) ((x # ps) @ y # Q)"
      by (cases "k = ky") auto
  qed
  moreover have "keeps_order m (y # (x # ps) @ Q) (y # out)" using assms(1) keeps_order_Cons by (simp add: merged_def)
  ultimately have order: "keeps_order m ((x # ps) @ y # Q) (y # out)" by (rule keeps_order_trans)
  have s: "sorted_keys m out"
    using assms(1,2) by (cases "Q = []") (auto simp: merged_def)
  have "set out = set (x # ps) \<union> set Q" using assms(1) by (metis merged_def set_mset_mset set_mset_union)
  moreover have "\<forall>z \<in> set (x # ps) \<union> set Q. \<exists>l. nkey m z = Some l \<and> ky \<le> l"
    using assms(2-6) by (fastforce simp: sorted_keys_Cons)
  ultimately have "sorted_keys m (y # out)" using s assms(5) by (auto simp: sorted_keys_Cons)
  with assms(1) order show ?thesis by (simp add: merged_def)
qed

definition merge_post ::
  "addr list \<Rightarrow> addr list \<Rightarrow> addr list \<Rightarrow> nat \<Rightarrow> cmem \<Rightarrow> (addr \<times> addr \<times> addr \<times> 'r \<times> cmem) option \<Rightarrow> bool" where
  "merge_post ds ps qs k m res \<longleftrightarrow> (\<exists>out q' list' tail' r' m'. res = Some (q', list', tail', r', m')
     \<and> tailed (heads m') list' tail' (ds @ out) \<and> path (heads m') q' (drop k qs) NULL
     \<and> ok r' m' \<and> evolved (set (ds @ ps @ take k qs)) m m' \<and> merged m' ps (take k qs) out)"

lemma merge_postI:
  "\<lbrakk>tailed (heads m') list' tail' (ds @ out); path (heads m') q' (drop k qs) NULL; ok r' m';
    evolved (set (ds @ ps @ take k qs)) m m'; merged m' ps (take k qs) out\<rbrakk>
   \<Longrightarrow> merge_post ds ps qs k m (Some (q', list', tail', r', m'))"
  unfolding merge_post_def by blast

lemma merge_postE:
  assumes "merge_post ds ps qs k m res"
  obtains out q' list' tail' r' m' where "res = Some (q', list', tail', r', m')"
     "tailed (heads m') list' tail' (ds @ out)" "path (heads m') q' (drop k qs) NULL"
     "ok r' m'" "evolved (set (ds @ ps @ take k qs)) m m'" "merged m' ps (take k qs) out"
  using assms unfolding merge_post_def by blast

end

context list_comparison
begin

lemma merge_post_p:
  assumes "merge_post (ds @ [x]) ps qs k m2 res" "evolved {} m m1" "relinked (set ds) m1 m2"
    and "\<And>S m' out. evolved S m1 m' \<Longrightarrow> merged m' ps (take k qs) out \<Longrightarrow> merged m' (x # ps) (take k qs) (x # out)"
  shows "merge_post ds (x # ps) qs k m res"
proof -
  from assms(1) obtain out q' list' tail' r' m' where
    r: "res = Some (q', list', tail', r', m')" "tailed (heads m') list' tail' ((ds @ [x]) @ out)"
      "path (heads m') q' (drop k qs) NULL" "ok r' m'" "evolved (set ((ds @ [x]) @ ps @ take k qs)) m2 m'"
      "merged m' ps (take k qs) out" by (rule merge_postE)
  let ?S = "set (ds @ (x # ps) @ take k qs)"
  have e: "evolved ?S m1 m'" by (rule evolved_trans [OF relinked_evolved [OF assms(3)] r(5)]) auto
  have "evolved ?S m m'" by (rule evolved_trans [OF assms(2) e]) simp
  moreover have "tailed (heads m') list' tail' (ds @ (x # out))" using r(2) by simp
  ultimately show ?thesis unfolding r(1) using r(3,4) assms(4) [OF e r(6)] by (intro merge_postI)
qed

lemma merge_post_q:
  assumes "merge_post (ds @ [y]) ps qs k m2 res" "evolved {} m m1" "relinked (set ds) m1 m2"
    and "\<And>S m' out. evolved S m1 m' \<Longrightarrow> merged m' ps (take k qs) out \<Longrightarrow> merged m' ps (y # take k qs) (y # out)"
  shows "merge_post ds ps (y # qs) (Suc k) m res"
proof -
  from assms(1) obtain out q' list' tail' r' m' where
    r: "res = Some (q', list', tail', r', m')" "tailed (heads m') list' tail' ((ds @ [y]) @ out)"
      "path (heads m') q' (drop k qs) NULL" "ok r' m'" "evolved (set ((ds @ [y]) @ ps @ take k qs)) m2 m'"
      "merged m' ps (take k qs) out" by (rule merge_postE)
  let ?S = "set (ds @ ps @ take (Suc k) (y # qs))"
  have e: "evolved ?S m1 m'" by (rule evolved_trans [OF relinked_evolved [OF assms(3)] r(5)]) auto
  have "evolved ?S m m'" by (rule evolved_trans [OF assms(2) e]) simp
  moreover have "tailed (heads m') list' tail' (ds @ (y # out))" using r(2) by simp
  moreover have "merged m' ps (take (Suc k) (y # qs)) (y # out)" using assms(4) [OF e r(6)] by simp
  moreover have "path (heads m') q' (drop (Suc k) (y # qs)) NULL" using r(3) by simp
  ultimately show ?thesis unfolding r(1) using r(4) by (intro merge_postI)
qed

text \<open>The state a step of the merge leaves behind.\<close>

lemma after_step:
  assumes "evolved {} m m1" "relinked (set ds) m1 m2" "ok r' m1" "nodes_in m xs"
  shows "ok r' m2" "nodes_in m2 xs" "run_ok m xs' \<Longrightarrow> run_ok m2 xs'"
  using relinked_ok [OF assms(2,3)] evolved_nodes_in [OF relinked_evolved [OF assms(2)] evolved_nodes_in [OF assms(1,4)]]
    evolved_run_ok [OF relinked_evolved [OF assms(2)] evolved_run_ok [OF assms(1)]] by auto

lemma merge_loop_ok:
  assumes "merging m list tail ds p ps q qs" "length ps < 2 ^ 31" "k < 2 ^ 31" "ok r m" "nodes_in m ps" "nodes_in m qs"
    "run_ok m ps" "run_ok m (take k qs)"
  shows "merge_post ds ps qs k m (merge_loop cmp p (word_of_nat (length ps)) q (word_of_nat k) list tail r m)"
  using assms
proof (induction "length ps + length (take k qs)" arbitrary: m list tail ds p ps q qs k r)
  case 0
  then have z: "ps = []" "k = 0 \<or> qs = []" by (auto simp: min_def split: if_splits)
  then have "merge_loop cmp p (word_of_nat (length ps)) q (word_of_nat k) list tail r m = Some (q, list, tail, r, m)"
    using 0 merge_loop_done merge_loop_done_NULL by (auto simp: merging_def)
  with z 0 show ?case
    by (auto simp: merging_def merged_def intro!: merge_postI [where out = "[]"] evolved_refl)
next
  case (Suc d)
  note prems = Suc.prems
  have guard: "0 < sint (word_of_nat (length ps) :: 32 word) \<or> 0 < sint (word_of_nat k :: 32 word) \<and> q \<noteq> NULL"
  proof (cases "ps = []")
    case True
    with Suc.hyps(2) obtain y qs' where "qs = y # qs'" "k \<noteq> 0" by (cases qs; cases k) auto
    with merging_q prems(1,3) show ?thesis by (auto simp: sint_word_of_nat)
  qed (use prems(2) in \<open>simp add: sint_word_of_nat\<close>)
  have unfold: "merge_loop cmp p (word_of_nat (length ps)) q (word_of_nat k) list tail r m = do {
      ((e, p, psize, q, qsize), res, m) \<leftarrow> pick_next cmp p (word_of_nat (length ps)) q (word_of_nat k) r m;
      (list, m) \<leftarrow> append_node list tail e m;
      merge_loop cmp p psize q qsize list e res m }"
    using guard by (subst merge_loop.simps) simp
  consider (q) y qs' k' where "ps = []" "qs = y # qs'" "k = Suc k'" | (p) x ps' where "ps = x # ps'" "take k qs = []"
    | (both) x ps' y qs' k' where "ps = x # ps'" "qs = y # qs'" "k = Suc k'"
    using Suc.hyps(2) by (cases ps; cases qs; cases k) auto
  then show ?case
  proof cases
    case q
    from take_q_step [OF prems(1) [unfolded q(2)]] obtain q' list' m' where
      s: "take_q p (word_of_nat (length ps)) q (word_of_nat (Suc k')) m = Some (y, p, word_of_nat (length ps), q', word_of_nat k')"
        "append_node list tail y m = Some (list', m')" "merging m' list' y (ds @ [y]) p ps q' qs'" "relinked (set ds) m m'"
      by blast
    have "merge_post (ds @ [y]) ps qs' k' m' (merge_loop cmp p (word_of_nat (length ps)) q' (word_of_nat k') list' y r m')"
    proof (rule Suc.hyps(1) [OF _ s(3)])
      show "run_ok m' ps" by (simp add: q(1) run_ok_def)
      show "run_ok m' (take k' qs')"
        using prems(8) run_ok_tl after_step(3) [OF evolved_refl s(4) prems(4,6)] by (simp add: q)
      show "nodes_in m' qs'" using after_step(2) [OF evolved_refl s(4) prems(4), of qs'] prems(6) by (simp add: q)
    qed (use prems q Suc.hyps(2) after_step(1) [OF evolved_refl s(4) prems(4,6)] in simp_all)
    then have "merge_post ds ps (y # qs') (Suc k') m (merge_loop cmp p (word_of_nat (length ps)) q' (word_of_nat k') list' y r m')"
      by (rule merge_post_q [OF _ evolved_refl s(4)]) (simp add: q merged_def)
    then show ?thesis unfolding unfold using q s by (simp add: pick_next_def)
  next
    case p
    from take_p_step [OF prems(1) [unfolded p(1)]] obtain p' list' m' where
      s: "take_p p (word_of_nat (Suc (length ps'))) q (word_of_nat k) m = Some (x, p', word_of_nat (length ps'), q, word_of_nat k)"
        "append_node list tail x m = Some (list', m')" "merging m' list' x (ds @ [x]) p' ps' q qs" "relinked (set ds) m m'"
      by blast
    have "merge_post (ds @ [x]) ps' qs k m' (merge_loop cmp p' (word_of_nat (length ps')) q (word_of_nat k) list' x r m')"
    proof (rule Suc.hyps(1) [OF _ s(3)])
      show "run_ok m' ps'"
        using prems(7) run_ok_tl after_step(3) [OF evolved_refl s(4) prems(4,6)] by (simp add: p)
      show "run_ok m' (take k qs)" by (simp add: p(2) run_ok_def)
      show "nodes_in m' ps'" using after_step(2) [OF evolved_refl s(4) prems(4), of ps'] prems(5) by (simp add: p)
    qed (use prems p Suc.hyps(2) after_step(1,2) [OF evolved_refl s(4) prems(4,6)] in simp_all)
    then have "merge_post ds (x # ps') qs k m (merge_loop cmp p' (word_of_nat (length ps')) q (word_of_nat k) list' x r m')"
      by (rule merge_post_p [OF _ evolved_refl s(4)]) (simp add: p(2) merged_def)
    moreover have "(word_of_nat k :: 32 word) = 0 \<or> q = NULL" using p(2) prems(1) by (auto simp: merging_def)
    moreover have "(word_of_nat (Suc (length ps')) :: 32 word) \<noteq> 0" using prems(2) p(1) by (simp add: word_of_nat_eq_0 del: of_nat_Suc)
    ultimately show ?thesis
      unfolding unfold using p s by (simp add: pick_next_def)
  next
    case both
    have nz: "(word_of_nat (length ps) :: 32 word) \<noteq> 0" "(word_of_nat k :: 32 word) \<noteq> 0"
      using prems(2,3) both by (simp_all add: word_of_nat_eq_0 del: of_nat_Suc)
    from pick_next_compares [OF prems(1) [unfolded both] prems(4) prems(5) [unfolded both(1)] prems(6) [unfolded both(2)] nz]
    obtain c r' m1 kx ky where
      c: "pick_next cmp p (word_of_nat (length ps)) q (word_of_nat k) r m = Some (c, r', m1)" "ok r' m1" "heads m1 = heads m"
        "evolved {} m m1" "nkey m1 x = Some kx" "nkey m1 y = Some ky"
        "if kx \<le> ky then take_p p (word_of_nat (length ps)) q (word_of_nat k) m1 = Some c
         else take_q p (word_of_nat (length ps)) q (word_of_nat k) m1 = Some c" by blast
    have mg: "merging m1 list tail ds p (x # ps') q (y # qs')" using prems(1) both merging_heads [OF c(3)] by simp
    have sx: "sorted_keys m1 (x # ps')" using run_ok_keyed [OF evolved_run_ok [OF c(4)] c(5)] prems(7) both(1) by simp
    have sy: "sorted_keys m1 (y # take k' qs')"
      using run_ok_keyed [OF evolved_run_ok [OF c(4)] c(6)] prems(8) both(2,3) by simp
    show ?thesis
    proof (cases "kx \<le> ky")
      case True
      from take_p_step [OF mg] obtain p' list' m2 where
        s: "take_p p (word_of_nat (Suc (length ps'))) q (word_of_nat k) m1 = Some (x, p', word_of_nat (length ps'), q, word_of_nat k)"
          "append_node list tail x m1 = Some (list', m2)" "merging m2 list' x (ds @ [x]) p' ps' q (y # qs')"
          "relinked (set ds) m1 m2" by blast
      have "merge_post (ds @ [x]) ps' (y # qs') k m2 (merge_loop cmp p' (word_of_nat (length ps')) q (word_of_nat k) list' x r' m2)"
        using prems both Suc.hyps(2) after_step [OF c(4) s(4) c(2) prems(5)] after_step(2) [OF c(4) s(4) c(2) prems(6)] run_ok_tl
        by (intro Suc.hyps(1) [OF _ s(3)]) auto
      moreover have "merged m' (x # ps') (take k (y # qs')) (x # out)"
        if "evolved S m1 m'" "merged m' ps' (take k (y # qs')) out" for S m' out
        using that(2) evolved_sorted_keys [OF that(1)] evolved_nkey [OF that(1)] sx sy c(5,6) True both(3)
        by (auto intro: merged_p)
      ultimately have "merge_post ds (x # ps') (y # qs') k m
          (merge_loop cmp p' (word_of_nat (length ps')) q (word_of_nat k) list' x r' m2)"
        by (rule merge_post_p [OF _ c(4) s(4)])
      then show ?thesis unfolding unfold using both c(1,7) s(1,2) True by simp
    next
      case False
      from take_q_step [OF mg] obtain q' list' m2 where
        s: "take_q p (word_of_nat (length ps)) q (word_of_nat (Suc k')) m1 = Some (y, p, word_of_nat (length ps), q', word_of_nat k')"
          "append_node list tail y m1 = Some (list', m2)" "merging m2 list' y (ds @ [y]) p (x # ps') q' qs'"
          "relinked (set ds) m1 m2" by blast
      have "merge_post (ds @ [y]) (x # ps') qs' k' m2
          (merge_loop cmp p (word_of_nat (length (x # ps'))) q' (word_of_nat k') list' y r' m2)"
        using prems both Suc.hyps(2) after_step [OF c(4) s(4) c(2) prems(5)] after_step(2) [OF c(4) s(4) c(2) prems(6)] run_ok_tl
        by (intro Suc.hyps(1) [OF _ s(3)]) auto
      moreover have "merged m' (x # ps') (y # take k' qs') (y # out)"
        if "evolved S m1 m'" "merged m' (x # ps') (take k' qs') out" for S m' out
        using that(2) evolved_sorted_keys [OF that(1)] evolved_nkey [OF that(1)] sx sy c(5,6) False
        by (auto intro: merged_q)
      ultimately have "merge_post ds (x # ps') (y # qs') (Suc k') m
          (merge_loop cmp p (word_of_nat (length (x # ps'))) q' (word_of_nat k') list' y r' m2)"
        by (rule merge_post_q [OF _ c(4) s(4)])
      then show ?thesis unfolding unfold using both c(1,7) s(1,2) False by simp
    qed
  qed
qed

end

section \<open>The passes\<close>

text \<open>The consecutive runs of length \<open>w\<close> of a list, the last of which may be shorter.\<close>

function all_chunks :: "('a list \<Rightarrow> bool) \<Rightarrow> nat \<Rightarrow> 'a list \<Rightarrow> bool" where
  "all_chunks P w xs = (if xs = [] \<or> w = 0 then True else P (take w xs) \<and> all_chunks P w (drop w xs))"
  by pat_completeness auto
termination
  by (relation "measure (\<lambda>(P, w, xs). length xs)") auto

declare all_chunks.simps [simp del]

lemma all_chunks_Nil [simp]: "all_chunks P w []"
  by (simp add: all_chunks.simps)

lemma all_chunks_step: "xs \<noteq> [] \<Longrightarrow> 0 < w \<Longrightarrow> all_chunks P w xs \<longleftrightarrow> P (take w xs) \<and> all_chunks P w (drop w xs)"
  by (subst all_chunks.simps) simp

lemma all_chunks_mono: "all_chunks P w xs \<Longrightarrow> (\<And>ys. P ys \<Longrightarrow> Q ys) \<Longrightarrow> all_chunks Q w xs"
proof (induction P w xs rule: all_chunks.induct)
  case (1 P w xs)
  show ?case
  proof (cases "xs = [] \<or> w = 0")
    case True
    then show ?thesis by (subst all_chunks.simps) simp
  next
    case False
    then have "P (take w xs)" "all_chunks P w (drop w xs)" using 1(2) by (simp_all add: all_chunks_step)
    moreover from False 1(1,3) this(2) have "all_chunks Q w (drop w xs)" by blast
    ultimately show ?thesis using False 1(3) by (simp add: all_chunks_step)
  qed
qed

lemma all_chunks_one: "all_chunks P w xs \<Longrightarrow> xs \<noteq> [] \<Longrightarrow> length xs \<le> w \<Longrightarrow> P xs"
  using all_chunks_step [of xs w P] by (cases "w = 0") auto

lemma all_chunks_append:
  "0 < w \<Longrightarrow> P xs \<Longrightarrow> length xs = w \<or> ys = [] \<and> length xs \<le> w \<Longrightarrow> all_chunks P w ys \<Longrightarrow> xs \<noteq> [] \<Longrightarrow> all_chunks P w (xs @ ys)"
  using all_chunks_step [of "xs @ ys" w P] by auto

lemma all_chunks_singletons: "(\<And>x. P [x]) \<Longrightarrow> all_chunks P 1 xs"
  by (induction xs) (auto simp: all_chunks_step)

text \<open>How many merges a pass makes.\<close>

function pass_merges :: "nat \<Rightarrow> nat \<Rightarrow> nat" where
  "pass_merges w n = (if n = 0 \<or> w = 0 then 0 else Suc (pass_merges w (n - 2 * w)))"
  by pat_completeness auto
termination
  by (relation "measure (\<lambda>(w, n). n)") auto

declare pass_merges.simps [simp del]

lemma pass_merges_0 [simp]: "pass_merges w 0 = 0"
  by (simp add: pass_merges.simps)

lemma pass_merges_le: "pass_merges w n \<le> n"
proof (induction w n rule: pass_merges.induct)
  case (1 w n)
  then show ?case by (subst pass_merges.simps) (auto simp: Suc_le_eq)
qed

lemma pass_merges_one: "0 < w \<Longrightarrow> pass_merges w n \<le> 1 \<longleftrightarrow> n \<le> 2 * w"
  by (subst pass_merges.simps) (subst pass_merges.simps, auto)

context list_comparison
begin

lemma pass_loop_ok:
  assumes "path (heads m) p xs NULL" "tailed (heads m) list tail ds" "distinct (ds @ xs)" "0 < w" "w < 2 ^ 30"
    "length xs < 2 ^ 30" "ok r m" "nodes_in m xs" "all_chunks (run_ok m) w xs"
  shows "\<exists>out list' tail' r' m'. pass_loop cmp (word_of_nat w) p list tail nm r m
      = Some (list', tail', nm + word_of_nat (pass_merges w (length xs)), r', m')
    \<and> tailed (heads m') list' tail' (ds @ out) \<and> mset out = mset xs \<and> ok r' m'
    \<and> evolved (set (ds @ xs)) m m' \<and> all_chunks (run_ok m') (2 * w) out \<and> keeps_order m' xs out"
  using assms
proof (induction "length xs" arbitrary: m p xs list tail ds nm r rule: less_induct)
  case less
  note prems = less.prems
  show ?case
  proof (cases "xs = []")
    case True
    with prems have "pass_loop cmp (word_of_nat w) p list tail nm r m = Some (list, tail, nm, r, m)"
      by (subst pass_loop.simps) simp
    with True prems show ?thesis by (auto intro!: exI [of _ "[]"] evolved_refl)
  next
    case False
    then have p: "p \<noteq> NULL" using prems(1) by (cases xs) auto
    define P where "P = take w xs"
    define Q where "Q = drop w xs"
    have xs: "xs = P @ Q" by (simp add: P_def Q_def)
    have P: "P \<noteq> []" "length P \<le> w" using False prems(4) by (simp_all add: P_def)
    from step_along_from [OF prems(1) False, of 0 w] prems(5) obtain q where
      q: "step_along (word_of_nat w) 0 0 p m = Some (word_of_nat (length P), q)"
        "path (heads m) p P q" "path (heads m) q Q NULL" by (auto simp: P_def Q_def)
    have mg: "merging m list tail ds p P q Q" using q prems(2,3) xs by (auto simp: merging_def)
    have ch: "run_ok m P" "all_chunks (run_ok m) w Q"
      using prems(9) False prems(4) by (simp_all add: all_chunks_step P_def Q_def)
    have "run_ok m (take w Q)" using ch(2) prems(4) by (cases "Q = []") (simp_all add: all_chunks_step run_ok_def)
    with merge_loop_ok [OF mg, of w r] prems ch xs
    have "merge_post ds P Q w m (merge_loop cmp p (word_of_nat (length P)) q (word_of_nat w) list tail r m)"
      by simp
    then obtain out q' list' tail' r' m' where
      m': "merge_loop cmp p (word_of_nat (length P)) q (word_of_nat w) list tail r m = Some (q', list', tail', r', m')"
        "tailed (heads m') list' tail' (ds @ out)" "path (heads m') q' (drop w Q) NULL" "ok r' m'"
        "evolved (set (ds @ P @ take w Q)) m m'" "merged m' P (take w Q) out" by (rule merge_postE)
    have mo: "mset out = mset (P @ take w Q)" using m'(6) by (simp add: merged_def)
    then have so: "set out = set (P @ take w Q)" "length out = length (P @ take w Q)"
      by (metis set_mset_mset, metis size_mset)
    have do: "distinct (ds @ out)"
      using prems(3) xs so mset_eq_imp_distinct_iff [OF mo] set_take_subset [of w Q] by auto
    have disj: "distinct ((ds @ out) @ drop w Q)"
      using prems(3) xs do so(1) set_take_disj_set_drop_if_distinct [of Q w w] set_drop_subset [of w Q] by fastforce
    have ro: "run_ok m' out"
      using m'(6) ch(1) \<open>run_ok m (take w Q)\<close> evolved_run_ok [OF m'(5)] by (auto simp: merged_def run_ok_def)
    have ch': "all_chunks (run_ok m') w (drop w Q)"
      using all_chunks_mono [OF _ evolved_run_ok [OF m'(5)]] ch(2) prems(4)
      by (cases "Q = []") (auto simp: all_chunks_step)
    have "0 < length P" using P(1) by simp
    then have hyps: "length (drop w Q) < length xs" "length (drop w Q) < 2 ^ 30" using xs prems(6) by (simp_all del: length_greater_0_conv)
    have nin: "nodes_in m' (drop w Q)"
      using xs evolved_nodes_in [OF m'(5)] prems(8) by (auto simp: nodes_in_def dest: in_set_dropD)
    from less.hyps [OF hyps(1) m'(3,2) disj prems(4,5) hyps(2) m'(4) nin ch', of "nm + 1"]
    obtain out2 list2 tail2 r2 m2 where
      m2: "pass_loop cmp (word_of_nat w) q' list' tail' (nm + 1) r' m'
          = Some (list2, tail2, nm + 1 + word_of_nat (pass_merges w (length (drop w Q))), r2, m2)"
        "tailed (heads m2) list2 tail2 ((ds @ out) @ out2)" "mset out2 = mset (drop w Q)" "ok r2 m2"
        "evolved (set ((ds @ out) @ drop w Q)) m' m2" "all_chunks (run_ok m2) (2 * w) out2"
        "keeps_order m2 (drop w Q) out2" by blast
    have len: "length (drop w Q) = length xs - 2 * w" using xs P by (simp add: P_def Q_def)
    have "pass_loop cmp (word_of_nat w) p list tail nm r m
        = Some (list2, tail2, nm + word_of_nat (pass_merges w (length xs)), r2, m2)"
    proof -
      have "pass_merges w (length xs) = Suc (pass_merges w (length (drop w Q)))"
        unfolding len using False prems(4) by (subst pass_merges.simps) simp
      then show ?thesis
        using p q(1) m'(1) m2(1) by (subst pass_loop.simps) (simp add: Let_def add.assoc)
    qed
    moreover have "mset (out @ out2) = mset xs"
      using mo m2(3) xs by simp (metis append_take_drop_id mset_append union_assoc)
    moreover have "keeps_order m2 xs (out @ out2)"
    proof -
      have "keeps_order m2 (P @ take w Q) out" using keeps_order_evolved [OF m2(5)] m'(6) by (simp add: merged_def)
      from keeps_order_append [OF this m2(7)] show ?thesis by (simp add: xs)
    qed
    moreover have "evolved (set (ds @ xs)) m m2"
      using so(1) xs set_take_subset [of w Q] set_drop_subset [of w Q]
      by (intro evolved_trans [OF m'(5) m2(5)]) auto
    moreover have "all_chunks (run_ok m2) (2 * w) (out @ out2)"
    proof (rule all_chunks_append)
      show "run_ok m2 out" using evolved_run_ok [OF m2(5) ro] .
      have "out2 = [] \<or> length Q > w" using m2(3) by (cases "length Q \<le> w") auto
      then show "length out = 2 * w \<or> out2 = [] \<and> length out \<le> 2 * w"
        using so(2) P by (auto simp: P_def Q_def)
      show "out \<noteq> []" using so(2) P(1) by auto
    qed (use prems(4) m2(6) in auto)
    ultimately show ?thesis using m2(2,4) by (intro exI [of _ "out @ out2"]) auto
  qed
qed

end

lemma set_nxt_last:
  assumes "tailed (heads m) list tail ds" "distinct ds" "ds \<noteq> []"
  shows "\<exists>m'. set_nxt tail NULL m = Some m' \<and> path (heads m') list ds NULL \<and> relinked (set ds) m m'"
proof -
  from assms obtain e where p: "tail = last ds" "path (heads m) list ds e" by (auto simp: tailed_def)
  then obtain k where k: "last ds \<noteq> NULL" "heads m (last ds) = Some k" using path_last [OF _ assms(3)] by blast
  let ?m = "m\<lparr>heads := (heads m)(last ds \<mapsto> k\<lparr>nxt := NULL\<rparr>)\<rparr>"
  have "path (heads ?m) list ds NULL" using path_relink_last [OF p(2) assms(2,3) k(2)] by simp
  moreover have "set_nxt tail NULL m = Some ?m" using p k by (simp add: set_nxt_def head_at_def)
  moreover have "relinked (set ds) m ?m" using k assms(3) by (auto simp: relinked_def)
  ultimately show ?thesis by blast
qed

context list_comparison
begin

lemma sort_loop_ok:
  assumes "path (heads m) p xs NULL" "xs \<noteq> []" "length xs < 2 ^ 29" "0 < w" "w \<le> 2 * length xs" "ok r m" "nodes_in m xs"
    "all_chunks (run_ok m) w xs"
  shows "\<exists>ys p' r' m'. sort_loop cmp (word_of_nat w) p r m = Some (p', r', m') \<and> path (heads m') p' ys NULL
     \<and> mset ys = mset xs \<and> run_ok m' ys \<and> ok r' m' \<and> evolved (set xs) m m' \<and> keeps_order m' xs ys"
  using assms
proof (induction "2 * length xs - w" arbitrary: w p xs r m rule: less_induct)
  case less
  note prems = less.prems
  have d: "distinct ([] @ xs)" using path_distinct [OF prems(1)] by simp
  have t: "tailed (heads m) NULL NULL []" by (simp add: tailed_def)
  have b: "w < 2 ^ 30" "length xs < 2 ^ 30" using prems by simp_all
  from pass_loop_ok [OF prems(1) t d prems(4) b prems(6-8), of 0] obtain ys list' tail' r1 m1 where
    s: "pass_loop cmp (word_of_nat w) p NULL NULL 0 r m
        = Some (list', tail', word_of_nat (pass_merges w (length xs)), r1, m1)"
      "tailed (heads m1) list' tail' ys" "mset ys = mset xs" "ok r1 m1" "evolved (set xs) m m1"
      "all_chunks (run_ok m1) (2 * w) ys" "keeps_order m1 xs ys" by auto
  have ys: "ys \<noteq> []" "distinct ys" "set ys = set xs" "length ys = length xs"
    using s(3) prems(2) d mset_eq_imp_distinct_iff [OF s(3)] mset_eq_setD [OF s(3)] mset_eq_length [OF s(3)] by auto
  from set_nxt_last [OF s(2) ys(2,1)] obtain m2 where
    m2: "set_nxt tail' NULL m1 = Some m2" "path (heads m2) list' ys NULL" "relinked (set ys) m1 m2" by blast
  have e2: "evolved (set xs) m m2" using evolved_trans [OF s(5) relinked_evolved [OF m2(3)]] ys(3) by simp
  have o2: "keeps_order m2 xs ys" using keeps_order_evolved [OF relinked_evolved [OF m2(3)] s(7)] .
  have ok2: "ok r1 m2" using relinked_ok [OF m2(3) s(4)] .
  have ch2: "all_chunks (run_ok m2) (2 * w) ys"
    using all_chunks_mono [OF s(6) evolved_run_ok [OF relinked_evolved [OF m2(3)]]] .
  have nm: "sint (word_of_nat (pass_merges w (length xs)) :: 32 word) \<le> 1 \<longleftrightarrow> length xs \<le> 2 * w"
    using pass_merges_le [of w "length xs"] b(2) pass_merges_one [OF prems(4)] by (subst sint_word_of_nat) auto
  show ?case
  proof (cases "length xs \<le> 2 * w")
    case True
    then have "run_ok m2 ys" using all_chunks_one [OF ch2 ys(1)] ys(4) by simp
    moreover have "sort_loop cmp (word_of_nat w) p r m = Some (list', r1, m2)"
      using s(1) m2(1) nm True by (subst sort_loop.simps) simp
    ultimately show ?thesis using m2(2) s(3) ok2 e2 o2 by blast
  next
    case False
    have nin: "nodes_in m2 ys" using evolved_nodes_in [OF e2 prems(7)] ys(3) by (simp add: nodes_in_def)
    have "\<exists>zs p' r' m'. sort_loop cmp (word_of_nat (2 * w)) list' r1 m2 = Some (p', r', m') \<and> path (heads m') p' zs NULL
       \<and> mset zs = mset ys \<and> run_ok m' zs \<and> ok r' m' \<and> evolved (set ys) m2 m' \<and> keeps_order m' ys zs"
      by (rule less.hyps) (use m2(2) ys prems False ok2 nin ch2 in auto)
    moreover have "sort_loop cmp (word_of_nat w) p r m = sort_loop cmp (word_of_nat (2 * w)) list' r1 m2"
      using s(1) m2(1) nm False by (subst sort_loop.simps) (simp add: mult.commute)
    ultimately obtain zs p' r' m' where z: "sort_loop cmp (word_of_nat w) p r m = Some (p', r', m')" "path (heads m') p' zs NULL"
      "mset zs = mset ys" "run_ok m' zs" "ok r' m'" "evolved (set ys) m2 m'" "keeps_order m' ys zs" by auto
    have "evolved (set xs) m m'" using evolved_trans [OF e2 z(6)] ys(3) by simp
    moreover have "keeps_order m' xs zs" using keeps_order_trans [OF keeps_order_evolved [OF z(6) o2] z(7)] .
    ultimately show ?thesis using z s(3) by (intro exI [of _ zs] exI [of _ p'] exI [of _ r'] exI [of _ m']) simp
  qed
qed

text \<open>The sort returns, permutes the nodes, sorts them by key without changing the order of nodes
  with the same key, and leaves the data pointers and all other cells alone.\<close>

lemma core_list_mergesort_sorts:
  assumes "is_list m p xs" "2 \<le> length xs" "length xs < 2 ^ 29" "ok r m" "nodes_in m xs"
  shows "\<exists>ys p' r' m'. core_list_mergesort p cmp r m = Some (p', r', m') \<and> is_list m' p' ys
     \<and> mset ys = mset xs \<and> sorted_keys m' ys \<and> ok r' m' \<and> evolved (set xs) m m'
     \<and> (\<forall>k. filter (\<lambda>z. nkey m' z = Some k) ys = filter (\<lambda>z. nkey m' z = Some k) xs)"
proof -
  have "all_chunks (run_ok m) 1 xs" by (rule all_chunks_singletons) (simp add: run_ok_def)
  with assms sort_loop_ok [of m p xs 1 r] obtain ys p' r' m' where
    s: "sort_loop cmp 1 p r m = Some (p', r', m')" "is_list m' p' ys" "mset ys = mset xs" "run_ok m' ys" "ok r' m'"
      "evolved (set xs) m m'" "keeps_order m' xs ys" by fastforce
  moreover have "sorted_keys m' ys" using s(4) mset_eq_length [OF s(3)] assms(2) by (simp add: run_ok_def)
  moreover have "\<forall>k. filter (\<lambda>z. nkey m' z = Some k) ys = filter (\<lambda>z. nkey m' z = Some k) xs"
    using s(7) evolved_refl unfolding keeps_order_def by blast
  ultimately show ?thesis unfolding core_list_mergesort_def by blast
qed

end

text \<open>A sorted permutation that keeps the order of equal keys is the stable sort of the library.\<close>

lemma stable_sort:
  assumes "mset ys = mset xs" "\<And>x. x \<in> set xs \<Longrightarrow> key x = Some (f x)" "sorted (map f ys)"
    "\<forall>k. filter (\<lambda>z. key z = Some k) ys = filter (\<lambda>z. key z = Some k) xs"
  shows "ys = sort_key f xs"
proof -
  have "filter (\<lambda>x. f k = f x) zs = filter (\<lambda>z. key z = Some (f k)) zs" if "set zs \<subseteq> set xs" for k zs
    using that assms(2) by (intro filter_cong) auto
  moreover have "set ys = set xs" using mset_eq_setD [OF assms(1)] .
  ultimately have "\<forall>k \<in> set ys. filter (\<lambda>x. f k = f x) ys = filter (\<lambda>x. f k = f x) xs" using assms(4) by simp
  from properties_for_sort_key [OF assms(1) _ assms(3)] this show ?thesis by simp
qed

lemma mergesort_empty: "core_list_mergesort NULL cmp r m = None"
proof -
  have "pass_loop cmp 1 NULL NULL NULL 0 r m = Some (NULL, NULL, 0, r, m)"
    by (subst pass_loop.simps) simp
  then show ?thesis
    unfolding core_list_mergesort_def by (subst sort_loop.simps) (simp add: set_nxt_def head_at_def)
qed

text \<open>
  the sort and the empty list. Whatever the comparison, \<^verbatim>\<open>core_list_mergesort\<close> of
  \<^verbatim>\<open>NULL\<close> writes through the \<^verbatim>\<open>tail\<close> pointer, which is \<^verbatim>\<open>NULL\<close> then, before
  it looks at the number of merges.
\<close>

theorem core_list_mergesort_NULL: "core_list_mergesort NULL cmp r m = None"
  by (rule mergesort_empty)

end
