(* ===== verification/Matrix.thy ===== *)
theory Matrix
  imports Memory "HOL-Library.Signed_Division"
begin

text \<open>
  The matrix benchmark \<^verbatim>\<open>coremark/core_matrix.c\<close>. The kernels work on the arrays behind
  the matrix pointers; each is a pair of nested counting loops over row-major indices
  \<^verbatim>\<open>i * N + j\<close> computed in \<^verbatim>\<open>ee_u32\<close>. Matrix elements are \<^verbatim>\<open>MATDAT\<close> = 16-bit
  and results \<^verbatim>\<open>MATRES\<close> = 32-bit two's complement values; sums and products wrap as on
  the target.
\<close>

section \<open>The kernels\<close>

definition matrix_clip :: "ee_s16 \<Rightarrow> bool \<Rightarrow> 32 word" where
  "matrix_clip x y = (if y then promote_s16 x AND 0x0ff else promote_s16 x AND 0x0ffff)"

definition matrix_big :: "ee_s16 \<Rightarrow> 32 word" where
  "matrix_big x = 0xf000 OR promote_s16 x"

definition bit_extract :: "32 word \<Rightarrow> nat \<Rightarrow> nat \<Rightarrow> 32 word" where
  "bit_extract x from to = signed_drop_bit from x AND NOT (push_bit to 0xffffffff)"

text \<open>The two nested loops \<^verbatim>\<open>for (i..N) for (j..N)\<close>.\<close>

definition for2 :: "ee_u32 \<Rightarrow> (ee_u32 \<Rightarrow> ee_u32 \<Rightarrow> 's \<Rightarrow> 's option) \<Rightarrow> 's \<Rightarrow> 's option" where
  "for2 N body s = for_u32 0 N (\<lambda>i. for_u32 0 N (body i)) s"

definition add_const_loop :: "ee_u32 \<Rightarrow> ee_s16 \<Rightarrow> ee_s16 list \<Rightarrow> ee_s16 list option" where
  "add_const_loop N val = for2 N (\<lambda>i j A. do {
     a \<leftarrow> rd A (unat (i * N + j));
     wr A (unat (i * N + j)) (a + val) })"

definition matrix_add_const :: "ee_u32 \<Rightarrow> addr \<Rightarrow> ee_s16 \<Rightarrow> cmem \<Rightarrow> cmem option" where
  "matrix_add_const N A val m = do {
     a \<leftarrow> arr16 m A;
     a \<leftarrow> add_const_loop N val a;
     Some (upd_arr16 A a m) }"

definition mul_const_loop ::
  "ee_u32 \<Rightarrow> ee_s16 list \<Rightarrow> ee_s16 \<Rightarrow> ee_s32 list \<Rightarrow> ee_s32 list option" where
  "mul_const_loop N A val = for2 N (\<lambda>i j C. do {
     a \<leftarrow> rd A (unat (i * N + j));
     wr C (unat (i * N + j)) (promote_s16 a * promote_s16 val) })"

definition matrix_mul_const :: "ee_u32 \<Rightarrow> addr \<Rightarrow> addr \<Rightarrow> ee_s16 \<Rightarrow> cmem \<Rightarrow> cmem option" where
  "matrix_mul_const N C A val m = do {
     c \<leftarrow> arr32 m C;
     a \<leftarrow> arr16 m A;
     c \<leftarrow> mul_const_loop N a val c;
     Some (upd_arr32 C c m) }"

definition mul_vect_loop ::
  "ee_u32 \<Rightarrow> ee_s16 list \<Rightarrow> ee_s16 list \<Rightarrow> ee_s32 list \<Rightarrow> ee_s32 list option" where
  "mul_vect_loop N A B = for_u32 0 N (\<lambda>i C. do {
     C \<leftarrow> wr C (unat i) 0;
     for_u32 0 N (\<lambda>j C. do {
       a \<leftarrow> rd A (unat (i * N + j));
       b \<leftarrow> rd B (unat j);
       c \<leftarrow> rd C (unat i);
       wr C (unat i) (c + promote_s16 a * promote_s16 b) }) C })"

definition matrix_mul_vect :: "ee_u32 \<Rightarrow> addr \<Rightarrow> addr \<Rightarrow> addr \<Rightarrow> cmem \<Rightarrow> cmem option" where
  "matrix_mul_vect N C A B m = do {
     c \<leftarrow> arr32 m C;
     a \<leftarrow> arr16 m A;
     b \<leftarrow> arr16 m B;
     c \<leftarrow> mul_vect_loop N a b c;
     Some (upd_arr32 C c m) }"

definition mul_matrix_loop ::
  "ee_u32 \<Rightarrow> ee_s16 list \<Rightarrow> ee_s16 list \<Rightarrow> ee_s32 list \<Rightarrow> ee_s32 list option" where
  "mul_matrix_loop N A B = for2 N (\<lambda>i j C. do {
     C \<leftarrow> wr C (unat (i * N + j)) 0;
     for_u32 0 N (\<lambda>k C. do {
       a \<leftarrow> rd A (unat (i * N + k));
       b \<leftarrow> rd B (unat (k * N + j));
       c \<leftarrow> rd C (unat (i * N + j));
       wr C (unat (i * N + j)) (c + promote_s16 a * promote_s16 b) }) C })"

definition matrix_mul_matrix :: "ee_u32 \<Rightarrow> addr \<Rightarrow> addr \<Rightarrow> addr \<Rightarrow> cmem \<Rightarrow> cmem option" where
  "matrix_mul_matrix N C A B m = do {
     c \<leftarrow> arr32 m C;
     a \<leftarrow> arr16 m A;
     b \<leftarrow> arr16 m B;
     c \<leftarrow> mul_matrix_loop N a b c;
     Some (upd_arr32 C c m) }"

definition bitextract_loop ::
  "ee_u32 \<Rightarrow> ee_s16 list \<Rightarrow> ee_s16 list \<Rightarrow> ee_s32 list \<Rightarrow> ee_s32 list option" where
  "bitextract_loop N A B = for2 N (\<lambda>i j C. do {
     C \<leftarrow> wr C (unat (i * N + j)) 0;
     for_u32 0 N (\<lambda>k C. do {
       a \<leftarrow> rd A (unat (i * N + k));
       b \<leftarrow> rd B (unat (k * N + j));
       let tmp = promote_s16 a * promote_s16 b;
       c \<leftarrow> rd C (unat (i * N + j));
       wr C (unat (i * N + j)) (c + bit_extract tmp 2 4 * bit_extract tmp 5 7) }) C })"

definition matrix_mul_matrix_bitextract ::
  "ee_u32 \<Rightarrow> addr \<Rightarrow> addr \<Rightarrow> addr \<Rightarrow> cmem \<Rightarrow> cmem option" where
  "matrix_mul_matrix_bitextract N C A B m = do {
     c \<leftarrow> arr32 m C;
     a \<leftarrow> arr16 m A;
     b \<leftarrow> arr16 m B;
     c \<leftarrow> bitextract_loop N a b c;
     Some (upd_arr32 C c m) }"

text \<open>One element of \<^verbatim>\<open>matrix_sum\<close>: the state is \<^verbatim>\<open>tmp\<close>, \<^verbatim>\<open>prev\<close> and
  \<^verbatim>\<open>ret\<close>.\<close>

fun matrix_sum_step :: "ee_s16 \<Rightarrow> ee_s32 \<Rightarrow> ee_s32 \<times> ee_s32 \<times> ee_s16 \<Rightarrow> ee_s32 \<times> ee_s32 \<times> ee_s16" where
  "matrix_sum_step clipval cur (tmp, prev, ret) =
     (let tmp = tmp + cur
      in if promote_s16 clipval <s tmp then (0, cur, ret + 10)
         else (tmp, cur, ret + (if prev <s cur then 1 else 0)))"

definition matrix_sum :: "ee_u32 \<Rightarrow> addr \<Rightarrow> ee_s16 \<Rightarrow> cmem \<Rightarrow> ee_s16 option" where
  "matrix_sum N C clipval m = do {
     c \<leftarrow> arr32 m C;
     (tmp, prev, ret) \<leftarrow> for2 N (\<lambda>i j s. do {
       cur \<leftarrow> rd c (unat (i * N + j));
       Some (matrix_sum_step clipval cur s) }) (0, 0, 0);
     Some ret }"

section \<open>The benchmark\<close>

definition matrix_test ::
  "ee_u32 \<Rightarrow> addr \<Rightarrow> addr \<Rightarrow> addr \<Rightarrow> ee_s16 \<Rightarrow> cmem \<Rightarrow> (ee_s16 \<times> cmem) option" where
  "matrix_test N C A B val m = do {
     let crc = 0;
     let clipval = ucast (matrix_big val);
     m \<leftarrow> matrix_add_const N A val m;
     m \<leftarrow> matrix_mul_const N C A val m;
     s \<leftarrow> matrix_sum N C clipval m;
     let crc = crc16 s crc;
     m \<leftarrow> matrix_mul_vect N C A B m;
     s \<leftarrow> matrix_sum N C clipval m;
     let crc = crc16 s crc;
     m \<leftarrow> matrix_mul_matrix N C A B m;
     s \<leftarrow> matrix_sum N C clipval m;
     let crc = crc16 s crc;
     m \<leftarrow> matrix_mul_matrix_bitextract N C A B m;
     s \<leftarrow> matrix_sum N C clipval m;
     let crc = crc16 s crc;
     m \<leftarrow> matrix_add_const N A (- val) m;
     Some (crc, m) }"

definition core_bench_matrix :: "mat_params \<Rightarrow> ee_s16 \<Rightarrow> ee_u16 \<Rightarrow> cmem \<Rightarrow> (ee_u16 \<times> cmem) option" where
  "core_bench_matrix p seed crc m = do {
     (s, m) \<leftarrow> matrix_test (mat_N p) (mat_C p) (mat_A p) (mat_B p) seed m;
     Some (crc16 s crc, m) }"

section \<open>Initialisation\<close>

text \<open>The search for the dimension: the body always runs at least once for a positive block
  size, and the loop need not end for sizes near \<^verbatim>\<open>2^32\<close>.\<close>

partial_function (option) init_dim :: "ee_u32 \<Rightarrow> ee_u32 \<Rightarrow> ee_u32 \<Rightarrow> ee_u32 option" where
  "init_dim blksize i j =
     (if j < blksize then init_dim blksize (i + 1) ((i + 1) * (i + 1) * 2 * 4) else Some i)"

declare init_dim.simps [code]

text \<open>C's remainder truncates towards zero.\<close>

definition c_rem :: "32 word \<Rightarrow> 32 word \<Rightarrow> 32 word" where
  "c_rem a b = word_of_int (sint a smod sint b)"

record fill_state =
  f_seed :: ee_s32
  f_order :: ee_s32
  f_A :: "ee_s16 list"
  f_B :: "ee_s16 list"

definition fill_cell :: "nat \<Rightarrow> fill_state \<Rightarrow> fill_state option" where
  "fill_cell k s = do {
     let sd = c_rem (f_order s * f_seed s) 65536;
     let val = (ucast (sd + f_order s) :: ee_s16);
     let val = ucast (matrix_clip val False);
     b \<leftarrow> wr (f_B s) k val;
     let val = ucast (promote_s16 val + f_order s);
     let val = ucast (matrix_clip val True);
     a \<leftarrow> wr (f_A s) k val;
     Some \<lparr>f_seed = sd, f_order = f_order s + 1, f_A = a, f_B = b\<rparr> }"

text \<open>\<^verbatim>\<open>core_init_matrix\<close> lays A, B and C out in the zero-initialised block at
  \<^verbatim>\<open>memblk\<close> and fills A and B. An element of A or B takes 2 bytes, one of C takes 4.\<close>

definition core_init_matrix ::
  "ee_u32 \<Rightarrow> addr \<Rightarrow> ee_s32 \<Rightarrow> cmem \<Rightarrow> (mat_params \<times> cmem) option" where
  "core_init_matrix blksize memblk sd m = do {
     let sd = (if sd = 0 then 1 else sd);
     i \<leftarrow> init_dim blksize 0 0;
     let N = i - 1;
     let A = align_mem memblk;
     let B = A + 2 * (N * N);
     let zeros = replicate (unat (N * N)) 0;
     s \<leftarrow> for2 N (\<lambda>i j. fill_cell (unat (i * N + j)))
       \<lparr>f_seed = sd, f_order = 1, f_A = zeros, f_B = zeros\<rparr>;
     let C = align_mem (B + 2 * (N * N));
     let m = upd_arr16 A (f_A s) m;
     let m = upd_arr16 B (f_B s) m;
     let m = upd_arr32 C (replicate (unat (N * N)) 0) m;
     Some (\<lparr>mat_N = N, mat_A = A, mat_B = B, mat_C = C\<rparr>, m) }"

section \<open>Row-major loops\<close>

text \<open>The side condition of every kernel: all indices fit \<^verbatim>\<open>ee_u32\<close>.\<close>

definition dim_ok :: "ee_u32 \<Rightarrow> bool" where
  "dim_ok N \<longleftrightarrow> unat N * unat N < 2 ^ 32"

lemma index_less: "i < n \<Longrightarrow> j < n \<Longrightarrow> i * n + j < n * (n :: nat)"
proof -
  assume "i < n" "j < n"
  then have "i * n + j < Suc i * n" by simp
  also have "\<dots> \<le> n * n" using \<open>i < n\<close> by (intro mult_le_mono1) simp
  finally show ?thesis .
qed

lemma index_in: "i < n \<Longrightarrow> j < n \<Longrightarrow> n * n \<le> len \<Longrightarrow> i * n + j < (len :: nat)"
  using index_less [of i n j] by simp

lemma unat_index:
  assumes "dim_ok N" "i < unat N" "j < unat N"
  shows "unat (word_of_nat i * N + word_of_nat j) = i * unat N + j"
proof -
  have "i * unat N + j < 4294967296"
    using index_less [OF assms(2,3)] assms(1) by (simp add: dim_ok_def)
  moreover have "word_of_nat i * N + word_of_nat j = (word_of_nat (i * unat N + j) :: 32 word)"
    by simp
  ultimately show ?thesis by (simp only: unat_of_nat) (simp add: take_bit_nat_eq_self)
qed

lemma unat_word_of_nat_less: "i < unat (N :: 32 word) \<Longrightarrow> unat (word_of_nat i :: 32 word) = i"
  using unat32_bound [of N] by (simp add: unat_of_nat take_bit_nat_eq_self)

lemma for2_fold:
  assumes step: "\<And>k s. \<lbrakk>k < unat N * unat N; P k s\<rbrakk> \<Longrightarrow> P (Suc k) (g k s)"
    and body: "\<And>i j s. \<lbrakk>i < unat N; j < unat N; P (i * unat N + j) s\<rbrakk> \<Longrightarrow>
      body (word_of_nat i) (word_of_nat j) s = Some (g (i * unat N + j) s)"
    and init: "P 0 s0"
  shows "for2 N body s0 = Some (fold g [0..<unat N * unat N] s0)"
proof -
  let ?n = "unat N"
  have row: "\<exists>s'. for_u32 0 N (body (word_of_nat i)) s = Some s' \<and>
      (s' = fold g [0..<Suc i * ?n] s0 \<and> P (Suc i * ?n) s')"
    if i: "i < ?n" and s: "s = fold g [0..<i * ?n] s0" "P (i * ?n) s" for i s
  proof -
    have "\<exists>s'. for_u32 0 N (body (word_of_nat i)) s = Some s' \<and>
        (s' = fold g [0..<i * ?n + unat N] s0 \<and> P (i * ?n + unat N) s')"
      by (rule for_u32_rule [where I = "\<lambda>j s'. s' = fold g [0..<i * ?n + j] s0 \<and> P (i * ?n + j) s'"])
        (use i s body [OF i] step index_less [OF i] in auto)
    then show ?thesis by (simp add: add.commute)
  qed
  have "\<exists>s'. for_u32 0 N (\<lambda>i. for_u32 0 N (body i)) s0 = Some s' \<and>
      (s' = fold g [0..<unat N * ?n] s0 \<and> P (unat N * ?n) s')"
    by (rule for_u32_rule [where I = "\<lambda>i s'. s' = fold g [0..<i * ?n] s0 \<and> P (i * ?n) s'"])
      (use row init in auto)
  then show ?thesis by (auto simp: for2_def)
qed

text \<open>A loop that rewrites cell \<open>k\<close> at step \<open>k\<close> is a map over the cells.\<close>

lemma fold_cells:
  "m \<le> length xs \<Longrightarrow>
    fold (\<lambda>k xs. xs[k := h k (xs ! k)]) [0..<m] xs = map (\<lambda>k. h k (xs ! k)) [0..<m] @ drop m xs"
proof (induction m)
  case (Suc m)
  then have "drop m xs = xs ! m # drop (Suc m) xs" by (simp add: Cons_nth_drop_Suc)
  with Suc show ?case by (simp add: nth_append list_update_append)
qed simp

lemma for2_cells:
  assumes "\<And>i j xs. \<lbrakk>i < unat N; j < unat N; length xs = len\<rbrakk> \<Longrightarrow>
      body (word_of_nat i) (word_of_nat j) xs =
      Some (xs[i * unat N + j := h (i * unat N + j) (xs ! (i * unat N + j))])"
    and "length xs = len" and "unat N * unat N \<le> len"
  shows "for2 N body xs =
    Some (map (\<lambda>k. h k (xs ! k)) [0..<unat N * unat N] @ drop (unat N * unat N) xs)"
  using assms
  by (subst for2_fold [where P = "\<lambda>k ys. length ys = len" and g = "\<lambda>k xs. xs[k := h k (xs ! k)]"])
    (auto simp: fold_cells)

lemma for_accumulate:
  assumes "\<And>k c. k < unat N \<Longrightarrow> body (word_of_nat k) (C[x := c]) = Some (C[x := c + f k])"
    and "x < length C"
  shows "for_u32 0 N body (C[x := (0 :: 32 word)]) = Some (C[x := (\<Sum>k<unat N. f k)])"
proof -
  have "\<exists>C'. for_u32 0 N body (C[x := 0]) = Some C' \<and> C' = C[x := (\<Sum>k<unat N. f k)]"
    by (rule for_u32_rule [where I = "\<lambda>k C'. C' = C[x := (\<Sum>l<k. f l)]"])
      (use assms in auto)
  then show ?thesis by simp
qed

section \<open>What the kernels compute\<close>

definition dot :: "nat \<Rightarrow> ee_s16 list \<Rightarrow> ee_s16 list \<Rightarrow> nat \<Rightarrow> nat \<Rightarrow> (32 word \<Rightarrow> 32 word) \<Rightarrow> 32 word" where
  "dot n A B i j f = (\<Sum>k<n. f (promote_s16 (A ! (i * n + k)) * promote_s16 (B ! (k * n + j))))"

definition extract_mul :: "32 word \<Rightarrow> 32 word" where
  "extract_mul x = bit_extract x 2 4 * bit_extract x 5 7"

lemma add_const_loop_eq:
  assumes "dim_ok N" "unat N * unat N \<le> length A"
  shows "add_const_loop N val A =
    Some (map (\<lambda>a. a + val) (take (unat N * unat N) A) @ drop (unat N * unat N) A)"
proof -
  have "add_const_loop N val A =
      Some (map (\<lambda>k. A ! k + val) [0..<unat N * unat N] @ drop (unat N * unat N) A)"
    unfolding add_const_loop_def
    by (rule for2_cells [where h = "\<lambda>k a. a + val" and len = "length A"])
      (use assms in \<open>simp_all add: unat_index index_in\<close>)
  moreover have "map (\<lambda>k. A ! k + val) [0..<m] = map (\<lambda>a. a + val) (take m A)" if "m \<le> length A" for m
    using that by (intro nth_equalityI) auto
  ultimately show ?thesis using assms(2) by simp
qed

lemma mul_const_loop_eq:
  assumes "dim_ok N" "unat N * unat N \<le> length A" "unat N * unat N \<le> length C"
  shows "mul_const_loop N A val C =
    Some (map (\<lambda>a. promote_s16 a * promote_s16 val) (take (unat N * unat N) A) @
      drop (unat N * unat N) C)"
proof -
  have "mul_const_loop N A val C =
      Some (map (\<lambda>k. promote_s16 (A ! k) * promote_s16 val) [0..<unat N * unat N] @ drop (unat N * unat N) C)"
    unfolding mul_const_loop_def
    by (rule for2_cells [where h = "\<lambda>k c. promote_s16 (A ! k) * promote_s16 val" and len = "length C"])
      (use assms in \<open>simp_all add: unat_index index_in\<close>)
  moreover have "map (\<lambda>k. f (A ! k)) [0..<m] = map f (take m A)" if "m \<le> length A" for m and f :: "ee_s16 \<Rightarrow> 32 word"
    using that by (intro nth_equalityI) auto
  ultimately show ?thesis using assms(2) by simp
qed

lemma mul_matrix_gen:
  assumes N: "dim_ok N" and A: "unat N * unat N \<le> length A" and B: "unat N * unat N \<le> length B"
    and C: "unat N * unat N \<le> length C"
  shows "for2 N (\<lambda>i j C. do {
     C \<leftarrow> wr C (unat (i * N + j)) 0;
     for_u32 0 N (\<lambda>k C. do {
       a \<leftarrow> rd A (unat (i * N + k));
       b \<leftarrow> rd B (unat (k * N + j));
       c \<leftarrow> rd C (unat (i * N + j));
       wr C (unat (i * N + j)) (c + f (promote_s16 a * promote_s16 b)) }) C }) C =
    Some (map (\<lambda>k. dot (unat N) A B (k div unat N) (k mod unat N) f) [0..<unat N * unat N] @
      drop (unat N * unat N) C)"
proof (rule for2_cells [where h = "\<lambda>k c. dot (unat N) A B (k div unat N) (k mod unat N) f" and len = "length C"])
  fix i j and C' :: "32 word list"
  assume ij: "i < unat N" "j < unat N" and len: "length C' = length C"
  have x: "i * unat N + j < length C'" using index_less [OF ij] C len by simp
  have dm: "(i * unat N + j) div unat N = i" "(i * unat N + j) mod unat N = j" using ij by auto
  show "do {
     C \<leftarrow> wr C' (unat (word_of_nat i * N + word_of_nat j)) 0;
     for_u32 0 N (\<lambda>k C. do {
       a \<leftarrow> rd A (unat (word_of_nat i * N + k));
       b \<leftarrow> rd B (unat (k * N + word_of_nat j));
       c \<leftarrow> rd C (unat (word_of_nat i * N + word_of_nat j));
       wr C (unat (word_of_nat i * N + word_of_nat j)) (c + f (promote_s16 a * promote_s16 b)) }) C } =
    Some (C'[i * unat N + j := dot (unat N) A B ((i * unat N + j) div unat N) ((i * unat N + j) mod unat N) f])"
    unfolding dm unat_index [OF N ij] wr_Some [OF x] bind.bind_lunit dot_def
    by (rule for_accumulate)
      (use x ij A B in \<open>simp_all add: unat_index [OF N] index_in\<close>)
qed (use C in auto)

lemma mul_matrix_loop_eq:
  assumes "dim_ok N" "unat N * unat N \<le> length A" "unat N * unat N \<le> length B"
    "unat N * unat N \<le> length C"
  shows "mul_matrix_loop N A B C =
    Some (map (\<lambda>k. dot (unat N) A B (k div unat N) (k mod unat N) (\<lambda>x. x)) [0..<unat N * unat N] @
      drop (unat N * unat N) C)"
  using mul_matrix_gen [OF assms, of "\<lambda>x. x"] by (simp add: mul_matrix_loop_def)

lemma bitextract_loop_eq:
  assumes "dim_ok N" "unat N * unat N \<le> length A" "unat N * unat N \<le> length B"
    "unat N * unat N \<le> length C"
  shows "bitextract_loop N A B C =
    Some (map (\<lambda>k. dot (unat N) A B (k div unat N) (k mod unat N) extract_mul) [0..<unat N * unat N] @
      drop (unat N * unat N) C)"
  using mul_matrix_gen [OF assms, of extract_mul]
  by (simp add: bitextract_loop_def extract_mul_def Let_def)

lemma for_cells:
  assumes "\<And>i xs. \<lbrakk>i < unat N; length xs = len\<rbrakk> \<Longrightarrow> body (word_of_nat i) xs = Some (xs[i := h i])"
    and "length xs = len" and "unat N \<le> len"
  shows "for_u32 0 N body xs = Some (map h [0..<unat N] @ drop (unat N) xs)"
proof -
  have "for_u32 0 N body xs = Some (fold (\<lambda>k xs. xs[k := h k]) [0..<unat N] xs)"
    by (rule for_u32_fold [where P = "\<lambda>i ys. length ys = len"]) (use assms in auto)
  then show ?thesis using fold_cells [of "unat N" xs "\<lambda>k _. h k"] assms by simp
qed

lemma mul_vect_loop_eq:
  assumes N: "dim_ok N" and A: "unat N * unat N \<le> length A" and B: "unat N \<le> length B"
    and C: "unat N \<le> length C"
  shows "mul_vect_loop N A B C =
    Some (map (\<lambda>i. \<Sum>k<unat N. promote_s16 (A ! (i * unat N + k)) * promote_s16 (B ! k)) [0..<unat N] @
      drop (unat N) C)"
  unfolding mul_vect_loop_def
proof (rule for_cells [where len = "length C"])
  fix i and C' :: "32 word list"
  assume i: "i < unat N" and len: "length C' = length C"
  have x: "i < length C'" using i C len by simp
  show "do {
     C \<leftarrow> wr C' (unat (word_of_nat i :: ee_u32)) 0;
     for_u32 0 N (\<lambda>j C. do {
       a \<leftarrow> rd A (unat (word_of_nat i * N + j));
       b \<leftarrow> rd B (unat j);
       c \<leftarrow> rd C (unat (word_of_nat i :: ee_u32));
       wr C (unat (word_of_nat i :: ee_u32)) (c + promote_s16 a * promote_s16 b) }) C } =
    Some (C'[i := \<Sum>k<unat N. promote_s16 (A ! (i * unat N + k)) * promote_s16 (B ! k)])"
    unfolding unat_word_of_nat_less [OF i] wr_Some [OF x] bind.bind_lunit
    by (rule for_accumulate)
      (use x i A B in \<open>simp_all add: unat_index [OF N] unat_word_of_nat_less index_in\<close>)
qed (use C in auto)

definition sum_of :: "ee_s16 \<Rightarrow> ee_s32 list \<Rightarrow> ee_s16" where
  "sum_of clipval cs = snd (snd (fold (matrix_sum_step clipval) cs (0, 0, 0)))"

lemma fold_nth: "m \<le> length c \<Longrightarrow> fold (\<lambda>k. f (c ! k)) [0..<m] s = fold f (take m c) s"
  by (induction m) (simp_all add: take_Suc_conv_app_nth)

lemma matrix_sum_eq:
  assumes "dim_ok N" "arr32 m C = Some c" "unat N * unat N \<le> length c"
  shows "matrix_sum N C clipval m = Some (sum_of clipval (take (unat N * unat N) c))"
proof -
  have "for2 N (\<lambda>i j s. do { cur \<leftarrow> rd c (unat (i * N + j)); Some (matrix_sum_step clipval cur s) }) (0, 0, 0) =
      Some (fold (\<lambda>k. matrix_sum_step clipval (c ! k)) [0..<unat N * unat N] (0, 0, 0))"
    by (rule for2_fold [where P = "\<lambda>_ _. True"])
      (use assms in \<open>simp_all add: unat_index index_in\<close>)
  then show ?thesis using assms
    by (simp add: matrix_sum_def sum_of_def fold_nth split: prod.splits)
qed

text \<open>The reference for one benchmark run: the four result matrices as functions of A, B and
  the added value, and the CRC over their sums.\<close>

definition vect_result :: "nat \<Rightarrow> ee_s16 list \<Rightarrow> ee_s16 list \<Rightarrow> ee_s32 list" where
  "vect_result n A B = map (\<lambda>i. \<Sum>k<n. promote_s16 (A ! (i * n + k)) * promote_s16 (B ! k)) [0..<n]"

definition prod_result :: "nat \<Rightarrow> ee_s16 list \<Rightarrow> ee_s16 list \<Rightarrow> (32 word \<Rightarrow> 32 word) \<Rightarrow> ee_s32 list" where
  "prod_result n A B f = map (\<lambda>k. dot n A B (k div n) (k mod n) f) [0..<n * n]"

definition test_crc :: "nat \<Rightarrow> ee_s16 list \<Rightarrow> ee_s16 list \<Rightarrow> ee_s16 \<Rightarrow> ee_u16" where
  "test_crc n A B val =
     (let A' = map (\<lambda>a. a + val) (take (n * n) A) @ drop (n * n) A;
          clip = ucast (matrix_big val);
          scaled = map (\<lambda>a. promote_s16 a * promote_s16 val) (take (n * n) A');
          vect = vect_result n A' B @ drop n scaled
      in fold crc16 [sum_of clip scaled, sum_of clip vect,
           sum_of clip (prod_result n A' B (\<lambda>x. x)), sum_of clip (prod_result n A' B extract_mul)] 0)"

definition mat_ok :: "ee_u32 \<Rightarrow> addr \<Rightarrow> addr \<Rightarrow> addr \<Rightarrow> cmem \<Rightarrow> bool" where
  "mat_ok N C A B m \<longleftrightarrow> dim_ok N \<and> A \<noteq> B \<and>
     (case (arr16 m A, arr16 m B, arr32 m C) of
        (Some a, Some b, Some c) \<Rightarrow> unat N * unat N \<le> length a \<and> unat N * unat N \<le> length b \<and>
          unat N * unat N \<le> length c
      | _ \<Rightarrow> False)"

lemma mat_okE:
  assumes "mat_ok N C A B m"
  obtains a b c where "dim_ok N" "A \<noteq> B" "arr16 m A = Some a" "arr16 m B = Some b"
    "arr32 m C = Some c" "unat N * unat N \<le> length a" "unat N * unat N \<le> length b"
    "unat N * unat N \<le> length c"
  using assms by (auto simp: mat_ok_def split: option.splits)

lemma matrix_test_eq:
  assumes "dim_ok N" "A \<noteq> B" "arr16 m A = Some a" "arr16 m B = Some b" "arr32 m C = Some c"
    "unat N * unat N \<le> length a" "unat N * unat N \<le> length b" "unat N * unat N \<le> length c"
  shows "\<exists>c'. matrix_test N C A B val m = Some (test_crc (unat N) a b val, upd_arr32 C c' m) \<and>
    length c' = length c"
proof -
  define n where "n = unat N"
  have n: "n \<le> n * n" "unat N = n" by (cases n) (auto simp: n_def)
  define a' where "a' = map (\<lambda>a. a + val) (take (n * n) a) @ drop (n * n) a"
  define c1 where "c1 = map (\<lambda>a. promote_s16 a * promote_s16 val) (take (n * n) a') @ drop (n * n) c"
  define c2 where "c2 = vect_result n a' b @ drop n c1"
  define c3 where "c3 = prod_result n a' b (\<lambda>x. x) @ drop (n * n) c2"
  define c4 where "c4 = prod_result n a' b extract_mul @ drop (n * n) c3"
  have len: "n * n \<le> length a" "n * n \<le> length b" "n \<le> length b" "n * n \<le> length c" "n \<le> length c"
    using assms(6-8) [unfolded n(2)] n(1) by linarith+
  have len': "length a' = length a" "length c1 = length c" "length c2 = length c"
      "length c3 = length c" "length c4 = length c"
    using len by (simp_all add: a'_def c1_def c2_def c3_def c4_def vect_result_def prod_result_def)
  have add: "add_const_loop N val a = Some a'" "add_const_loop N (- val) a' = Some a"
    using assms(1) len len'(1) n by (simp_all add: add_const_loop_eq)
      (simp_all add: a'_def comp_def)
  have loops: "mul_const_loop N a' val c = Some c1" "mul_vect_loop N a' b c1 = Some c2"
      "mul_matrix_loop N a' b c2 = Some c3" "bitextract_loop N a' b c3 = Some c4"
    using len len' mul_const_loop_eq [OF assms(1), of a' c val] mul_vect_loop_eq [OF assms(1), of a' b c1]
      mul_matrix_loop_eq [OF assms(1), of a' b c2] bitextract_loop_eq [OF assms(1), of a' b c3]
    unfolding n(2) vect_result_def [symmetric] prod_result_def [symmetric]
      c1_def [symmetric] c2_def [symmetric] c3_def [symmetric] c4_def [symmetric]
    by simp_all
  have sum: "matrix_sum N C clip (upd_arr32 C d m') = Some (sum_of clip (take (n * n) d))"
    if "length d = length c" for clip d m'
    using that assms(1) len n(2) by (simp add: matrix_sum_eq)
  have takes: "take (n * n) c1 = map (\<lambda>a. promote_s16 a * promote_s16 val) (take (n * n) a')"
      "take (n * n) c2 = vect_result n a' b @ drop n (take (n * n) c1)"
      "take (n * n) c3 = prod_result n a' b (\<lambda>x. x)" "take (n * n) c4 = prod_result n a' b extract_mul"
    using len len'
    by (simp_all add: c1_def c2_def c3_def c4_def vect_result_def prod_result_def drop_take)
  have "matrix_test N C A B val m = Some (test_crc n a b val, upd_arr32 C c4 m)"
    using assms(2-5) add loops len'
    by (simp add: matrix_test_def matrix_add_const_def matrix_mul_const_def matrix_mul_vect_def
        matrix_mul_matrix_def matrix_mul_matrix_bitextract_def sum Let_def)
      (simp add: takes test_crc_def Let_def a'_def [symmetric] upd_arr32_def upd_arr16_def fun_upd_idem fun_upd_twist)
  with len'(5) n show ?thesis by auto
qed

section \<open>What the initialisation computes\<close>

lemma init_dim_least:
  assumes "i \<le> k" "k \<le> 23170" "unat blksize \<le> 8 * k * k"
    and "\<And>l. \<lbrakk>i \<le> l; l < k\<rbrakk> \<Longrightarrow> 8 * l * l < unat blksize"
  shows "init_dim blksize (word_of_nat i) (word_of_nat (8 * i * i)) = Some (word_of_nat k)"
  using assms
proof (induction "k - i" arbitrary: i)
  case 0
  then have "i = k" by simp
  moreover have "8 * k * k < 4294967296"
    using "0.prems"(2) mult_le_mono [OF "0.prems"(2) "0.prems"(2)] by simp
  then have "unat (word_of_nat (8 * k * k) :: 32 word) = 8 * k * k"
    by (simp only: unat_of_nat) (simp add: take_bit_nat_eq_self)
  ultimately show ?case using "0.prems"(3) by (subst init_dim.simps) (simp add: word_less_nat_alt del: of_nat_mult)
next
  case (Suc d)
  then have ik: "i < k" by simp
  have "8 * i * i < 4294967296"
    using ik Suc.prems(2) mult_le_mono [of i 23170 i 23170] by simp
  then have "unat (word_of_nat (8 * i * i) :: 32 word) = 8 * i * i"
    by (simp only: unat_of_nat) (simp add: take_bit_nat_eq_self)
  then have lt: "(word_of_nat (8 * i * i) :: 32 word) < blksize"
    using Suc.prems(4) [of i] ik by (simp add: word_less_nat_alt del: of_nat_mult)
  have "init_dim blksize (word_of_nat (Suc i)) (word_of_nat (8 * Suc i * Suc i)) = Some (word_of_nat k)"
    using Suc ik by (intro Suc.hyps(1)) auto
  moreover have "(word_of_nat i + 1) * (word_of_nat i + 1) * 2 * 4 = (word_of_nat (8 * Suc i * Suc i) :: 32 word)"
    by (simp add: algebra_simps)
  ultimately show ?case using lt by (subst init_dim.simps) (simp add: add.commute del: of_nat_mult)
qed

lemma init_dim_eq:
  assumes "0 < unat blksize" "unat blksize \<le> 8 * 23170 * 23170"
  shows "\<exists>n. init_dim blksize 0 0 = Some (word_of_nat (Suc n)) \<and> n < 23170 \<and>
    8 * n * n < unat blksize \<and> unat blksize \<le> 8 * Suc n * Suc n"
proof -
  define k where "k = (LEAST k. unat blksize \<le> 8 * k * k)"
  have k: "unat blksize \<le> 8 * k * k" unfolding k_def by (rule LeastI [of _ 23170]) (use assms in simp)
  have "k \<le> 23170" unfolding k_def by (rule Least_le) (use assms in simp)
  moreover have less: "8 * l * l < unat blksize" if "l < k" for l
    using not_less_Least [of l "\<lambda>k. unat blksize \<le> 8 * k * k"] that by (simp add: k_def not_le)
  ultimately have "init_dim blksize (word_of_nat 0) (word_of_nat (8 * 0 * 0)) = Some (word_of_nat k)"
    using k by (intro init_dim_least) auto
  moreover obtain n where "k = Suc n" using k assms(1) by (cases k) auto
  ultimately show ?thesis using k less [of n] \<open>k \<le> 23170\<close> by auto
qed

primrec seed_seq :: "ee_s32 \<Rightarrow> nat \<Rightarrow> ee_s32" where
  "seed_seq sd 0 = sd"
| "seed_seq sd (Suc k) = c_rem (word_of_nat (Suc k) * seed_seq sd k) 65536"

definition B_cell :: "ee_s32 \<Rightarrow> nat \<Rightarrow> ee_s16" where
  "B_cell sd k = ucast (seed_seq sd (Suc k) + word_of_nat (Suc k))"

definition A_cell :: "ee_s32 \<Rightarrow> nat \<Rightarrow> ee_s16" where
  "A_cell sd k = (B_cell sd k + word_of_nat (Suc k)) AND 0xff"

lemma clip_wide: "(ucast (matrix_clip v False) :: ee_s16) = v"
  by (intro word_eqI_bits) (simp add: matrix_clip_def bit_simps upt_16)

lemma clip_low: "(ucast (matrix_clip v True) :: ee_s16) = v AND 0xff"
  by (intro word_eqI_bits) (simp add: matrix_clip_def bit_simps upt_16)

lemma fill_cell_eq:
  assumes "k < length (f_A s)" "k < length (f_B s)" "f_order s = word_of_nat (Suc k)"
    "f_seed s = seed_seq sd k"
  shows "fill_cell k s = Some \<lparr>f_seed = seed_seq sd (Suc k), f_order = word_of_nat (Suc (Suc k)),
    f_A = (f_A s)[k := A_cell sd k], f_B = (f_B s)[k := B_cell sd k]\<rparr>"
  using assms
  by (simp add: fill_cell_def Let_def clip_wide clip_low ucast_add_down ucast_of_nat_down
      ucast_signed_16 A_cell_def B_cell_def ac_simps)

lemma fill_loop_eq:
  assumes "dim_ok N" "length za = unat N * unat N" "length zb = unat N * unat N"
  shows "for2 N (\<lambda>i j. fill_cell (unat (i * N + j)))
      \<lparr>f_seed = sd, f_order = 1, f_A = za, f_B = zb\<rparr> =
    Some \<lparr>f_seed = seed_seq sd (unat N * unat N), f_order = word_of_nat (Suc (unat N * unat N)),
      f_A = map (A_cell sd) [0..<unat N * unat N], f_B = map (B_cell sd) [0..<unat N * unat N]\<rparr>"
proof -
  define g where "g = (\<lambda>k (s :: fill_state). \<lparr>f_seed = seed_seq sd (Suc k), f_order = word_of_nat (Suc (Suc k)),
    f_A = (f_A s)[k := A_cell sd k], f_B = (f_B s)[k := B_cell sd k]\<rparr>)"
  let ?s0 = "\<lparr>f_seed = sd, f_order = 1, f_A = za, f_B = zb\<rparr>"
  have "for2 N (\<lambda>i j. fill_cell (unat (i * N + j))) ?s0 = Some (fold g [0..<unat N * unat N] ?s0)"
    by (rule for2_fold [where P = "\<lambda>k s. length (f_A s) = unat N * unat N \<and>
        length (f_B s) = unat N * unat N \<and> f_order s = word_of_nat (Suc k) \<and> f_seed s = seed_seq sd k"])
      (use assms in \<open>auto simp: g_def unat_index index_in fill_cell_eq of_nat_Suc [of 0] simp del: of_nat_Suc\<close>)
  moreover have "fold g [0..<m] ?s0 = \<lparr>f_seed = seed_seq sd m, f_order = word_of_nat (Suc m),
      f_A = map (A_cell sd) [0..<m] @ drop m za, f_B = map (B_cell sd) [0..<m] @ drop m zb\<rparr>"
    if "m \<le> unat N * unat N" for m
    using that
  proof (induction m)
    case (Suc m)
    then have "drop m za = za ! m # drop (Suc m) za" "drop m zb = zb ! m # drop (Suc m) zb"
      using assms(2,3) by (simp_all add: Cons_nth_drop_Suc)
    with Suc show ?case by (simp add: g_def list_update_append)
  qed simp
  ultimately show ?thesis using assms by simp
qed

lemma core_init_matrix_eq:
  assumes "0 < unat blksize" "unat blksize \<le> 8 * 23170 * 23170"
  shows "\<exists>n. n < 23170 \<and> 8 * n * n < unat blksize \<and> unat blksize \<le> 8 * Suc n * Suc n \<and>
    core_init_matrix blksize memblk sd m =
      (let A = align_mem memblk; B = A + 2 * word_of_nat (n * n); C = align_mem (B + 2 * word_of_nat (n * n));
           sd' = (if sd = 0 then 1 else sd)
       in Some (\<lparr>mat_N = word_of_nat n, mat_A = A, mat_B = B, mat_C = C\<rparr>,
          upd_arr32 C (replicate (n * n) 0)
            (upd_arr16 B (map (B_cell sd') [0..<n * n]) (upd_arr16 A (map (A_cell sd') [0..<n * n]) m))))"
proof -
  obtain n where n: "init_dim blksize 0 0 = Some (word_of_nat (Suc n))" "n < 23170"
      "8 * n * n < unat blksize" "unat blksize \<le> 8 * Suc n * Suc n"
    using init_dim_eq [OF assms] by blast
  have nn: "n * n < 4294967296" using n(3) unat32_bound [of blksize] by simp
  have un: "unat (word_of_nat n :: 32 word) = n" using n(2)
    by (simp add: unat_of_nat take_bit_nat_eq_self)
  then have ok: "dim_ok (word_of_nat n)" using nn by (simp add: dim_ok_def)
  have unn: "unat (word_of_nat n * word_of_nat n :: 32 word) = n * n"
    using nn by (simp only: of_nat_mult [symmetric] unat_of_nat) (simp add: take_bit_nat_eq_self)
  show ?thesis
    using n fill_loop_eq [OF ok] by (intro exI [of _ n]) (simp add: core_init_matrix_def un unn Let_def)
qed

section \<open>Value ranges\<close>

lemma A_cell_range: "unat (A_cell sd k) < 256"
  using word_and_le1 [of "B_cell sd k + word_of_nat (Suc k)" "0xff"]
  by (simp add: A_cell_def word_le_nat_alt)

lemma c_rem_range: "\<bar>sint (c_rem x 65536)\<bar> < 65536"
proof -
  have r: "\<bar>a smod 65536\<bar> < 65536" for a :: int
    by (simp add: signed_modulo_int_def abs_mult)
  have "sint (word_of_int b :: 32 word) = b" if "\<bar>b\<bar> < 65536" for b :: int
    using that by (intro sint32_of_int) auto
  from this [OF r] r show ?thesis by (simp add: c_rem_def)
qed

lemma init_product_exact:
  assumes "k < 32767"
  shows "sint (word_of_nat (Suc k) * seed_seq sd k) = int (Suc k) * sint (seed_seq sd k)"
proof (cases k)
  case (Suc l)
  then have "\<bar>sint (seed_seq sd k)\<bar> < 65536" by (simp add: c_rem_range)
  then have "\<bar>int (Suc k) * sint (seed_seq sd k)\<bar> \<le> 32767 * 65535"
    using assms by (simp only: abs_mult) (intro mult_mono; simp)
  then have "sint (word_of_int (int (Suc k) * sint (seed_seq sd k)) :: 32 word) =
      int (Suc k) * sint (seed_seq sd k)"
    by (intro sint32_of_int) auto
  then show ?thesis by simp
qed simp

section \<open>Address layout\<close>

lemma align_pad: "x mod 4 = 0 \<Longrightarrow> (x + 7) div 8 * 8 \<le> x + (4 :: nat) \<and> x \<le> (x + 7) div 8 * 8"
  by presburger

lemma matrix_layout_nat:
  assumes "unat memblk + 8 * nn + 16 < 2 ^ 32"
  shows "let A = align_mem memblk; B = A + 2 * word_of_nat nn; C = align_mem (B + 2 * word_of_nat nn)
    in unat memblk \<le> unat A \<and> unat A mod 8 = 0 \<and> unat B = unat A + 2 * nn \<and>
       unat B + 2 * nn \<le> unat C \<and> unat C mod 8 = 0 \<and> unat C + 4 * nn \<le> unat memblk + 8 * nn + 11"
proof -
  define a where "a = (unat memblk + 7) div 8 * 8"
  have a: "unat (align_mem memblk) = a" "unat memblk \<le> a" "a \<le> unat memblk + 7" "a mod 8 = 0"
    using assms by (simp_all add: a_def unat_align_mem)
  have plus: "unat (w + 2 * word_of_nat nn) = unat w + 2 * nn" if "unat w + 2 * nn < 2 ^ 32" for w :: addr
  proof -
    have "w + 2 * word_of_nat nn = word_of_nat (unat w + 2 * nn)" by simp
    then show ?thesis using that by (simp only: unat_of_nat) (simp add: take_bit_nat_eq_self)
  qed
  have b: "unat (align_mem memblk + 2 * word_of_nat nn) = a + 2 * nn"
    using a assms by (subst plus) auto
  have c0: "unat (align_mem memblk + 2 * word_of_nat nn + 2 * word_of_nat nn) = a + 4 * nn"
    using a b assms by (subst plus) auto
  have "(a + 4 * nn) mod 4 = 0" using a(4) by presburger
  note pad = align_pad [OF this]
  have c: "unat (align_mem (align_mem memblk + 2 * word_of_nat nn + 2 * word_of_nat nn)) =
      (a + 4 * nn + 7) div 8 * 8"
    unfolding c0 [symmetric] by (rule unat_align_mem) (unfold c0, use a assms in linarith)
  show ?thesis unfolding Let_def a(1) b c using a pad by auto
qed

section \<open>Properties\<close>

text \<open>C28: the triple loop of \<^verbatim>\<open>matrix_mul_matrix\<close> computes the matrix product of A and B with
  32-bit wrap-around: it stays inside the three arrays and leaves in cell \<open>i * N + j\<close> of C
  the inner product of row \<open>i\<close> of A and column \<open>j\<close> of B.\<close>

theorem matrix_mul_matrix_product:
  assumes "mat_ok N C A B m"
  shows "\<exists>c'. matrix_mul_matrix N C A B m = Some (upd_arr32 C c' m) \<and>
    (\<forall>i < unat N. \<forall>j < unat N. c' ! (i * unat N + j) =
      (\<Sum>k < unat N. promote_s16 (the (arr16 m A) ! (i * unat N + k)) *
        promote_s16 (the (arr16 m B) ! (k * unat N + j))))"
proof -
  from assms obtain a b c where abc: "dim_ok N" "arr16 m A = Some a" "arr16 m B = Some b"
      "arr32 m C = Some c" "unat N * unat N \<le> length a" "unat N * unat N \<le> length b"
      "unat N * unat N \<le> length c" by (rule mat_okE)
  show ?thesis
    using abc index_less
    by (auto simp: matrix_mul_matrix_def mul_matrix_loop_eq nth_append dot_def)
qed

theorem matrix_mul_matrix_product_witness:
  "let m = upd_arr16 16 [1, 2, 3, 4] (upd_arr16 32 [5, 6, 7, - 8] (upd_arr32 64 [0, 0, 0, 0] empty_mem))
   in \<exists>c'. matrix_mul_matrix 2 64 16 32 m = Some (upd_arr32 64 c' m) \<and>
     c' ! 0 = 19 \<and> c' ! 1 = - 10 \<and> c' ! 2 = 43 \<and> c' ! 3 = - 14"
proof -
  let ?m = "upd_arr16 16 [1, 2, 3, 4] (upd_arr16 32 [5, 6, 7, - 8] (upd_arr32 64 [0, 0, 0, 0] empty_mem))"
  have "mat_ok 2 64 16 32 ?m" by (simp add: mat_ok_def dim_ok_def)
  from matrix_mul_matrix_product [OF this] obtain c' where
    c': "matrix_mul_matrix 2 64 16 32 ?m = Some (upd_arr32 64 c' ?m)"
      "\<forall>i < 2. \<forall>j < 2. c' ! (i * 2 + j) =
        (\<Sum>k < (2 :: nat). promote_s16 ([1, 2, 3, 4] ! (i * 2 + k)) * promote_s16 ([5, 6, 7, - 8] ! (k * 2 + j)))"
    by (auto simp del: One_nat_def)
  from c'(2) [rule_format, of 0 0] c'(2) [rule_format, of 0 1] c'(2) [rule_format, of 1 0]
    c'(2) [rule_format, of 1 1]
  have "c' ! 0 = 19 \<and> c' ! 1 = - 10 \<and> c' ! 2 = 43 \<and> c' ! 3 = - 14"
    by (simp add: numeral_2_eq_2 numeral_3_eq_3 lessThan_Suc)
  with c'(1) show ?thesis by (auto simp: Let_def)
qed

lemma core_bench_matrix_returns:
  assumes "mat_ok (mat_N p) (mat_C p) (mat_A p) (mat_B p) m"
  shows "\<exists>c'. core_bench_matrix p seed crc m =
      Some (crc16 (test_crc (unat (mat_N p)) (the (arr16 m (mat_A p))) (the (arr16 m (mat_B p))) seed) crc,
        upd_arr32 (mat_C p) c' m) \<and>
    length c' = length (the (arr32 m (mat_C p)))"
proof -
  from assms obtain a b c where abc: "dim_ok (mat_N p)" "mat_A p \<noteq> mat_B p" "arr16 m (mat_A p) = Some a"
      "arr16 m (mat_B p) = Some b" "arr32 m (mat_C p) = Some c"
      "unat (mat_N p) * unat (mat_N p) \<le> length a" "unat (mat_N p) * unat (mat_N p) \<le> length b"
      "unat (mat_N p) * unat (mat_N p) \<le> length c" by (rule mat_okE)
  from matrix_test_eq [OF abc, of seed] show ?thesis
    using abc by (auto simp: core_bench_matrix_def)
qed





text \<open>The pseudo-random recurrence of the initialisation never overflows \<^verbatim>\<open>ee_s32\<close>:
  for the first 32767 cells the product of the running order and the running seed is exact.\<close>

theorem init_recurrence_exact:
  "k < 32767 \<Longrightarrow> sint (word_of_nat (Suc k) * seed_seq sd k) = int (Suc k) * sint (seed_seq sd k)"
  by (rule init_product_exact)

theorem init_recurrence_exact_witness:
  "sint (word_of_nat (Suc 80) * seed_seq 0x34153415 80) = int (Suc 80) * sint (seed_seq 0x34153415 80)"
  by (rule init_recurrence_exact) simp

end
