(* ===== verification/ListCmp.thy ===== *)
theory ListCmp
  imports MergeSort Matrix
begin

text \<open>
  The two comparisons of \<^verbatim>\<open>coremark/core_list_join.c\<close> and what they share: the value of a data
  item, which runs the state-machine or the matrix benchmark and caches the result in the item,
  and the index, which regenerates the data. Both meet the contract \<open>list_comparison\<close> of the sort,
  so the sort by index and the sort by data are correct.

  A pointer to the results structure is \<^term>\<open>None\<close> when it is \<^verbatim>\<open>NULL\<close>.
\<close>

section \<open>Values and comparisons\<close>

text \<open>\<^verbatim>\<open>res->memblock[3]\<close>\<close>

definition memblock_at :: "core_results \<Rightarrow> nat \<Rightarrow> addr option" where
  "memblock_at res i = rd (r_memblock res) i"

text \<open>The switch on the type of the operation.\<close>

definition calc_value :: "ee_s16 \<Rightarrow> ee_s16 \<Rightarrow> ee_s16 \<Rightarrow> core_results \<Rightarrow> cmem \<Rightarrow> (ee_s16 \<times> core_results \<times> cmem) option" where
  "calc_value flag dtype dat res m =
     (if flag = 0 then do {
        let dtype = (if sint dtype < 0x22 then 0x22 else dtype);
        b \<leftarrow> memblock_at res 3;
        (retval, m) \<leftarrow> core_bench_state (r_size res) b (r_seed1 res) (r_seed2 res) dtype (r_crc res) m;
        Some (retval, (if r_crcstate res = 0 then res\<lparr>r_crcstate := retval\<rparr> else res), m) }
      else if flag = 1 then do {
        (retval, m) \<leftarrow> core_bench_matrix (r_mat res) dtype (r_crc res) m;
        Some (retval, (if r_crcmatrix res = 0 then res\<lparr>r_crcmatrix := retval\<rparr> else res), m) }
      else Some (dat, res, m))"

text \<open>\<^verbatim>\<open>pdata\<close> is always the address of the \<^verbatim>\<open>data16\<close> member of a list item, so the
  item's address is passed.\<close>

definition calc_func :: "addr \<Rightarrow> core_results option \<Rightarrow> cmem \<Rightarrow> (ee_s16 \<times> core_results option \<times> cmem) option" where
  "calc_func a res m = do {
     d \<leftarrow> data_at m a;
     let dat = data16 d;
     let optype = (ucast (signed_drop_bit 7 (promote_s16 dat) AND 1) :: ee_u8);
     if optype \<noteq> 0 then Some (ucast (promote_s16 dat AND 0x7f), res, m)
     else do {
       let flag = (ucast (promote_s16 dat AND 0x7) :: ee_s16);
       let dtype = (ucast (signed_drop_bit 3 (promote_s16 dat) AND 0xf) :: ee_s16);
       let dtype = dtype OR ucast (push_bit 4 (promote_s16 dtype));
       re \<leftarrow> res;
       (retval, re, m) \<leftarrow> calc_value flag dtype dat re m;
       let re = re\<lparr>r_crc := crcu16 retval (r_crc re)\<rparr>;
       let retval = retval AND 0x7f;
       d \<leftarrow> data_at m a;
       m \<leftarrow> put_data a (d\<lparr>data16 := ucast ((promote_s16 dat AND 0xff00) OR 0x80 OR promote_s16 retval)\<rparr>) m;
       Some (retval, Some re, m) } }"

definition cmp_complex :: "core_results option list_cmp" where
  "cmp_complex a b res m = do {
     (val1, res, m) \<leftarrow> calc_func a res m;
     (val2, res, m) \<leftarrow> calc_func b res m;
     Some (promote_s16 val1 - promote_s16 val2, res, m) }"

text \<open>\<^verbatim>\<open>(data16 & 0xff00) | (0x00ff & (data16 >> 8))\<close>: the low byte from the high one.\<close>

definition regen :: "ee_s16 \<Rightarrow> ee_s16" where
  "regen v = ucast ((promote_s16 v AND 0xff00) OR (0xff AND signed_drop_bit 8 (promote_s16 v)))"

definition cmp_idx :: "core_results option list_cmp" where
  "cmp_idx a b res m = do {
     m \<leftarrow> (case res of
        None \<Rightarrow> do {
          d \<leftarrow> data_at m a;
          m \<leftarrow> put_data a (d\<lparr>data16 := regen (data16 d)\<rparr>) m;
          d \<leftarrow> data_at m b;
          put_data b (d\<lparr>data16 := regen (data16 d)\<rparr>) m }
      | Some _ \<Rightarrow> Some m);
     da \<leftarrow> data_at m a;
     db \<leftarrow> data_at m b;
     Some (promote_s16 (idx da) - promote_s16 (idx db), res, m) }"

section \<open>Data items\<close>

lemma less16_cases:
  "(n :: nat) < 16 \<Longrightarrow> n = 0 \<or> n = 1 \<or> n = 2 \<or> n = 3 \<or> n = 4 \<or> n = 5 \<or> n = 6 \<or> n = 7 \<or> n = 8 \<or> n = 9
     \<or> n = 10 \<or> n = 11 \<or> n = 12 \<or> n = 13 \<or> n = 14 \<or> n = 15"
  by presburger

lemma bit_regen: "n < 16 \<Longrightarrow> bit (regen v) n \<longleftrightarrow> bit v (if n < 8 then n + 8 else n)"
  by (drule less16_cases, elim disjE)
    (simp_all add: regen_def bit_unsigned_iff bit_or_iff bit_and_iff bit_signed_iff bit_signed_drop_bit_iff)

lemma regen_regen [simp]: "regen (regen v) = regen v"
  by (rule bit_word_eqI) (simp add: bit_regen)

text \<open>A datum whose low byte is its high byte; the values the list starts with are.\<close>

definition fresh :: "ee_s16 \<Rightarrow> bool" where
  "fresh v \<longleftrightarrow> regen v = v"

lemma fresh_regen [simp]: "fresh (regen v)"
  by (simp add: fresh_def)

lemma bit7_iff: "ucast (signed_drop_bit 7 (promote_s16 dat) AND 1) \<noteq> (0 :: ee_u8) \<longleftrightarrow> bit dat 7"
proof -
  have "signed_drop_bit 7 (promote_s16 dat) AND 1 = of_bool (bit dat 7)"
    by (simp add: and_one_word bit_signed_drop_bit_iff bit_signed_iff min_def flip: bit_0)
  then show ?thesis by simp
qed

definition low7 :: "ee_s16 \<Rightarrow> int" where
  "low7 v = uint (v AND 0x7f)"

lemma low7_eq: "low7 v = uint v mod 128"
proof -
  have "v AND 0x7f = take_bit 7 v" by (simp add: take_bit_eq_mask mask_numeral)
  then show ?thesis by (simp add: low7_def uint_mod take_bit_eq_mod)
qed

lemma low7_range: "0 \<le> low7 v" "low7 v < 128"
  by (simp_all add: low7_eq)

lemma sint_low7: "sint (v AND 0x7f :: ee_s16) = low7 v"
proof -
  have "v AND 0x7f = word_of_int (low7 v)" by (simp add: low7_def)
  moreover have "sint (word_of_int (low7 v) :: 16 word) = low7 v"
    using low7_range [of v] by (subst signed_of_int) (simp add: signed_take_bit_int_eq_self)
  ultimately show ?thesis by simp
qed

lemma ucast_and_low7: "(ucast (promote_s16 dat AND 0x7f) :: ee_s16) = dat AND 0x7f"
proof (rule bit_word_eqI)
  fix n
  assume "n < LENGTH(16)"
  then have "n < 16" by simp
  then show "bit (ucast (promote_s16 dat AND 0x7f) :: ee_s16) n = bit (dat AND 0x7f) n"
    by (drule_tac less16_cases, elim disjE) (simp_all add: bit_unsigned_iff bit_and_iff bit_signed_iff)
qed

text \<open>The cached form of a datum: the high byte of the old one, bit 7 and the value.\<close>

definition cached :: "ee_s16 \<Rightarrow> ee_s16 \<Rightarrow> ee_s16" where
  "cached dat v = ucast ((promote_s16 dat AND 0xff00) OR 0x80 OR promote_s16 (v AND 0x7f))"

lemma bit_cached: "n < 16 \<Longrightarrow> bit (cached dat v) n \<longleftrightarrow> (if n < 7 then bit v n else if n = 7 then True else bit dat n)"
  by (drule less16_cases, elim disjE)
    (simp_all add: cached_def bit_unsigned_iff bit_or_iff bit_and_iff bit_signed_iff)

lemma regen_cached: "regen (cached dat v) = regen dat"
  by (rule bit_word_eqI) (simp add: bit_regen bit_cached)

lemma low7_cached: "low7 (cached dat v) = low7 v"
proof -
  have "cached dat v AND 0x7f = v AND 0x7f"
  proof (rule bit_word_eqI)
    fix n
    assume n: "n < LENGTH(16)"
    then have "n < 16" by simp
    then show "bit (cached dat v AND 0x7f) n = bit (v AND 0x7f) n"
      by (drule_tac less16_cases, elim disjE) (simp_all add: bit_and_iff bit_cached)
  qed
  then show ?thesis by (simp add: low7_def)
qed

lemma bit7_cached: "bit (cached dat v) 7"
  by (simp add: bit_cached)

text \<open>The step of the state machine that a datum selects is a multiple of 17, at least 34.\<close>

lemma nibble_cases:
  fixes w :: "16 word"
  assumes "w < 16"
  shows "w \<in> {0, 1, 2, 3, 4, 5, 6, 7, 8, 9, 10, 11, 12, 13, 14, 15}"
proof -
  have "unat w < 16" using assms by (simp add: word_less_nat_alt)
  moreover have "w = word_of_nat (unat w)" by simp
  ultimately show ?thesis by (elim less16_cases [elim_format] disjE) simp_all
qed

lemma state_step:
  fixes dat :: ee_s16
  defines "w \<equiv> ucast (signed_drop_bit 3 (promote_s16 dat) AND 0xf) :: ee_s16"
  defines "step \<equiv> (if sint (w OR ucast (push_bit 4 (promote_s16 w))) < 0x22 then 0x22 else w OR ucast (push_bit 4 (promote_s16 w)))"
  shows "0 < sint step" "17 dvd nat (sint step)"
proof -
  have "w < 16"
  proof -
    have "signed_drop_bit 3 (promote_s16 dat) AND 0xf = take_bit 4 (signed_drop_bit 3 (promote_s16 dat))"
      by (simp add: take_bit_eq_mask mask_numeral)
    then have "w = take_bit 4 (ucast (signed_drop_bit 3 (promote_s16 dat)))"
      unfolding w_def by (intro bit_word_eqI) (auto simp: bit_simps)
    then have "unat w = take_bit 4 (unat (ucast (signed_drop_bit 3 (promote_s16 dat)) :: ee_s16))"
      by (simp only: unsigned_take_bit_eq)
    then have "unat w < 2 ^ 4" by (simp only: take_bit_nat_less_exp)
    then show ?thesis by (simp add: word_less_nat_alt)
  qed
  then have c: "w \<in> {0, 1, 2, 3, 4, 5, 6, 7, 8, 9, 10, 11, 12, 13, 14, 15}" by (rule nibble_cases)
  show "0 < sint step" "17 dvd nat (sint step)"
    unfolding step_def using c by (elim insertE; simp)+
qed

section \<open>Sorting by index\<close>

lemma sint_diff_promote: "sint (promote_s16 a - promote_s16 b) = sint a - sint b"
proof -
  have "- (2 ^ 15) \<le> sint a" "sint a < 2 ^ 15" "- (2 ^ 15) \<le> sint b" "sint b < 2 ^ 15"
    using sint_greater_eq [of a] sint_less [of a] sint_greater_eq [of b] sint_less [of b] by simp_all
  then have "- (2 ^ 31) \<le> sint a - sint b" "sint a - sint b < 2 ^ 31" by simp_all
  then have "sint (word_of_int (sint a - sint b) :: 32 word) = sint a - sint b" by (rule sint32_of_int)
  then show ?thesis by (simp only: of_int_diff of_int_sint)
qed

definition regen_data :: "list_data \<Rightarrow> list_data" where
  "regen_data d = d\<lparr>data16 := regen (data16 d)\<rparr>"

lemma regen_data_simps [simp]:
  "idx (regen_data d) = idx d" "data16 (regen_data d) = regen (data16 d)" "regen_data (regen_data d) = regen_data d"
  by (simp_all add: regen_data_def)

lemma regen_data_fresh: "fresh (data16 d) \<Longrightarrow> regen_data d = d"
  by (simp add: regen_data_def fresh_def)

text \<open>The key by index; an item counts as compared when its data are regenerated.\<close>

definition idx_key :: "cmem \<Rightarrow> addr \<Rightarrow> int option" where
  "idx_key m a = Option.bind (data_at m a) (\<lambda>d. if fresh (data16 d) then Some (sint (idx d)) else None)"

text \<open>Since the memory \<open>m0\<close> only the list heads and the data of \<open>A\<close> have changed, and of the
  latter each is as it was or regenerated.\<close>

definition idx_inv :: "cmem \<Rightarrow> addr set \<Rightarrow> core_results option \<Rightarrow> cmem \<Rightarrow> bool" where
  "idx_inv m0 A r m \<longleftrightarrow> r = None \<and> NULL \<notin> A \<and> (\<exists>h d. m = m0\<lparr>heads := h, datas := d\<rparr>)
     \<and> (\<forall>a. a \<notin> A \<longrightarrow> datas m a = datas m0 a)
     \<and> (\<forall>a \<in> A. \<exists>d. datas m0 a = Some d \<and> datas m a \<in> {Some d, Some (regen_data d)})"

lemma cmp_idx_NULL:
  assumes "a \<noteq> NULL" "b \<noteq> NULL" "datas m a = Some da" "datas m b = Some db"
  shows "cmp_idx a b None m = Some (promote_s16 (idx da) - promote_s16 (idx db), None,
     m\<lparr>datas := (datas m)(a \<mapsto> regen_data da, b \<mapsto> regen_data db)\<rparr>)"
  using assms by (cases "a = b") (simp_all add: cmp_idx_def data_at_def put_data_def flip: regen_data_def)

lemma idx_inv_data:
  assumes "idx_inv m0 A r m" "a \<in> A"
  obtains d where "a \<noteq> NULL" "datas m a = Some d" "r = None"
  using assms by (auto simp: idx_inv_def)

lemma idx_inv_step:
  assumes "idx_inv m0 A r m" "a \<in> A" "datas m a = Some d"
  shows "idx_inv m0 A r (m\<lparr>datas := (datas m)(a \<mapsto> regen_data d)\<rparr>)"
proof -
  from assms(1) obtain h e where m: "m = m0\<lparr>heads := h, datas := e\<rparr>" by (auto simp: idx_inv_def)
  have "m\<lparr>datas := (datas m)(a \<mapsto> regen_data d)\<rparr> = m0\<lparr>heads := h, datas := e(a \<mapsto> regen_data d)\<rparr>"
    by (simp add: m)
  then have "\<exists>h' e'. m\<lparr>datas := (datas m)(a \<mapsto> regen_data d)\<rparr> = m0\<lparr>heads := h', datas := e'\<rparr>" by blast
  moreover have "\<exists>d'. datas m0 x = Some d' \<and> datas (m\<lparr>datas := (datas m)(a \<mapsto> regen_data d)\<rparr>) x \<in> {Some d', Some (regen_data d')}"
    if "x \<in> A" for x
  proof -
    from assms(1) that obtain d' where "datas m0 x = Some d'" "datas m x = Some d' \<or> datas m x = Some (regen_data d')"
      by (auto simp: idx_inv_def)
    with assms(3) show ?thesis by (cases "x = a") auto
  qed
  moreover have "\<forall>x. x \<notin> A \<longrightarrow> datas (m\<lparr>datas := (datas m)(a \<mapsto> regen_data d)\<rparr>) x = datas m0 x"
    using assms(1,2) by (auto simp: idx_inv_def)
  moreover have "r = None" "NULL \<notin> A" using assms(1) by (simp_all add: idx_inv_def)
  ultimately show ?thesis unfolding idx_inv_def by blast
qed

lemma idx_key_step:
  assumes "idx_key m x = Some k" "datas m a = Some d"
  shows "idx_key (m\<lparr>datas := (datas m)(a \<mapsto> regen_data d)\<rparr>) x = Some k"
  using assms regen_data_fresh [of d]
  by (auto simp: idx_key_def data_at_def bind_eq_Some_conv split: if_splits)

interpretation idx_sort: list_comparison cmp_idx "idx_inv m0 A" A idx_key for m0 A
proof
  fix r m a b
  assume inv: "idx_inv m0 A r m" and ab: "a \<in> A" "b \<in> A"
  obtain da where a: "a \<noteq> NULL" "datas m a = Some da" "r = None" using inv ab(1) by (rule idx_inv_data)
  obtain db where b: "b \<noteq> NULL" "datas m b = Some db" using inv ab(2) by (rule idx_inv_data)
  let ?m1 = "m\<lparr>datas := (datas m)(a \<mapsto> regen_data da)\<rparr>"
  let ?m = "m\<lparr>datas := (datas m)(a \<mapsto> regen_data da, b \<mapsto> regen_data db)\<rparr>"
  note cmp = cmp_idx_NULL [OF a(1) b(1) a(2) b(2)]
  obtain db' where db': "datas ?m1 b = Some db'" "regen_data db' = regen_data db" using a(2) b(2) by (cases "a = b") auto
  have m: "?m = ?m1\<lparr>datas := (datas ?m1)(b \<mapsto> regen_data db')\<rparr>" using db'(2) by simp
  show "\<exists>v r' m' ka kb. cmp_idx a b r m = Some (v, r', m') \<and> idx_inv m0 A r' m' \<and> heads m' = heads m
      \<and> idx_key m' a = Some ka \<and> idx_key m' b = Some kb \<and> (sint v \<le> 0) = (ka \<le> kb)"
  proof (intro exI conjI)
    show "cmp_idx a b r m = Some (promote_s16 (idx da) - promote_s16 (idx db), None, ?m)" using cmp a(3) by simp
    show "idx_inv m0 A None ?m"
      using idx_inv_step [OF idx_inv_step [OF inv ab(1) a(2)] ab(2) db'(1)] a(3) m by simp
    show "heads ?m = heads m" by simp
    show "idx_key ?m a = Some (sint (idx da))"
      using a b by (cases "a = b") (simp_all add: idx_key_def data_at_def)
    show "idx_key ?m b = Some (sint (idx db))" using b by (simp add: idx_key_def data_at_def)
    show "sint (promote_s16 (idx da) - promote_s16 (idx db)) \<le> 0 \<longleftrightarrow> sint (idx da) \<le> sint (idx db)"
      by (simp add: sint_diff_promote)
  qed
  fix v r' m' x k
  assume "cmp_idx a b r m = Some (v, r', m')" "idx_key m x = Some k"
  with cmp a(3) m show "idx_key m' x = Some k" using idx_key_step [OF idx_key_step [OF _ a(2)] db'(1)] by simp
next
  fix r m h
  assume inv: "idx_inv m0 A r m"
  then obtain h' e where "m = m0\<lparr>heads := h', datas := e\<rparr>" by (auto simp: idx_inv_def)
  then have "m\<lparr>heads := h\<rparr> = m0\<lparr>heads := h, datas := e\<rparr>" by simp
  then have "\<exists>h' e'. m\<lparr>heads := h\<rparr> = m0\<lparr>heads := h', datas := e'\<rparr>" by blast
  with inv show "idx_inv m0 A r (m\<lparr>heads := h\<rparr>)" by (simp add: idx_inv_def)
next
  show "idx_key (m\<lparr>heads := h\<rparr>) x = idx_key m x" for m h x by (simp add: idx_key_def)
qed

text \<open>The data addresses of the nodes of a list.\<close>

definition info_set :: "cmem \<Rightarrow> addr list \<Rightarrow> addr set" where
  "info_set m xs = {info n |n x. x \<in> set xs \<and> heads m x = Some n}"

definition has_data :: "cmem \<Rightarrow> addr list \<Rightarrow> bool" where
  "has_data m xs \<longleftrightarrow> list_all (\<lambda>x. node_data m x \<noteq> None) xs"

lemma has_data_info_set: "has_data m xs \<Longrightarrow> a \<in> info_set m xs \<Longrightarrow> a \<noteq> NULL \<and> (\<exists>d. datas m a = Some d)"
  by (auto simp: has_data_def list_all_iff info_set_def node_data_def data_at_def split: if_splits)

lemma has_data_node:
  assumes "has_data m xs" "x \<in> set xs"
  obtains n d where "heads m x = Some n" "info n \<in> info_set m xs" "datas m (info n) = Some d" "info n \<noteq> NULL"
    "node_data m x = Some d"
proof -
  from assms obtain d where d: "node_data m x = Some d" by (auto simp: has_data_def list_all_iff)
  then obtain n where n: "heads m x = Some n" "data_at m (info n) = Some d"
    by (cases "heads m x") (auto simp: node_data_def)
  have "info n \<in> info_set m xs" using n(1) assms(2) by (auto simp: info_set_def)
  with d n that show ?thesis by (auto simp: data_at_def split: if_splits)
qed

lemma same_info:
  "map_option info (heads m' x) = map_option info (heads m x) \<Longrightarrow> heads m x = Some n
    \<Longrightarrow> \<exists>n'. heads m' x = Some n' \<and> info n' = info n"
  by (cases "heads m' x") auto

definition node_idx :: "cmem \<Rightarrow> addr \<Rightarrow> int" where
  "node_idx m x = (case node_data m x of None \<Rightarrow> 0 | Some d \<Rightarrow> sint (idx d))"

lemma mergesort_idx_sorts:
  assumes "is_list m p xs" "2 \<le> length xs" "length xs < 2 ^ 29" "has_data m xs"
  shows "\<exists>ys p' h e. core_list_mergesort p cmp_idx None m = Some (p', None, m\<lparr>heads := h, datas := e\<rparr>)
     \<and> path h p' ys NULL \<and> mset ys = mset xs
     \<and> sorted (map (node_idx m) ys)
     \<and> (\<forall>x. map_option info (h x) = map_option info (heads m x)) \<and> (\<forall>x. x \<notin> set xs \<longrightarrow> h x = heads m x)
     \<and> (\<forall>a. e a = (if a \<in> info_set m xs then map_option regen_data (datas m a) else datas m a))
     \<and> ys = sort_key (node_idx m) xs"
proof -
  let ?A = "info_set m xs"
  have "\<exists>h d. m = m\<lparr>heads := h, datas := d\<rparr>" by (intro exI [of _ "heads m"] exI [of _ "datas m"]) simp
  with has_data_info_set [OF assms(4)] have inv: "idx_inv m ?A None m"
    unfolding idx_inv_def by blast
  have nin: "idx_sort.nodes_in ?A m xs" by (auto simp: idx_sort.nodes_in_def info_set_def)
  from idx_sort.core_list_mergesort_sorts [OF assms(1-3) inv nin] obtain ys p' r' m' where
    s: "core_list_mergesort p cmp_idx None m = Some (p', r', m')" "is_list m' p' ys" "mset ys = mset xs"
      "idx_sort.sorted_keys m' ys" "idx_inv m ?A r' m'" "idx_sort.evolved (set xs) m m'"
      "\<forall>k. filter (\<lambda>z. idx_sort.nkey m' z = Some k) ys = filter (\<lambda>z. idx_sort.nkey m' z = Some k) xs" by blast
  from s(5) obtain h e where m': "r' = None" "m' = m\<lparr>heads := h, datas := e\<rparr>" by (auto simp: idx_inv_def)
  have same: "map_option info (h x) = map_option info (heads m x)" for x
    using s(6) by (simp add: idx_sort.evolved_def m')
  obtain ks where ks: "map (idx_sort.nkey m') ys = map Some ks" "sorted ks"
    using s(4) by (auto simp: idx_sort.sorted_keys_def)
  have ys: "set ys = set xs" using mset_eq_setD [OF s(3)] .
  have key: "\<exists>n d. heads m x = Some n \<and> node_data m x = Some d \<and> datas m (info n) = Some d
      \<and> e (info n) = Some (regen_data d) \<and> idx_sort.nkey m' x = Some (sint (idx d))" if x: "x \<in> set xs" for x
  proof -
    have "idx_sort.nkey m' x \<in> set (map Some ks)" using x ks(1) ys by (metis image_eqI list.set_map)
    then obtain k where k: "idx_sort.nkey m' x = Some k" by auto
    obtain n d where n: "heads m x = Some n" "info n \<in> ?A" "datas m (info n) = Some d" "info n \<noteq> NULL" "node_data m x = Some d"
      using assms(4) x by (rule has_data_node)
    obtain n' where "h x = Some n'" "info n' = info n" using same [of x] n(1) by (cases "h x") auto
    with k n(4) obtain d' where d': "e (info n) = Some d'" "fresh (data16 d')" "k = sint (idx d')"
      by (auto simp: idx_sort.nkey_def m' idx_key_def data_at_def bind_eq_Some_conv split: if_splits)
    have "e (info n) = Some d \<or> e (info n) = Some (regen_data d)"
      using s(5) n(2,3) by (auto simp: idx_inv_def m')
    with d' regen_data_fresh [of d] have "d' = regen_data d" by auto
    with n k d' show ?thesis by auto
  qed
  have mk: "map (node_idx m) ys = ks"
  proof (rule nth_equalityI)
    show len: "length (map (node_idx m) ys) = length ks" using ks(1) by (metis length_map)
    fix i
    assume i: "i < length (map (node_idx m) ys)"
    then have "idx_sort.nkey m' (ys ! i) = Some (ks ! i)" using ks(1) len by (metis length_map nth_map)
    moreover have "ys ! i \<in> set xs" using i ys by (metis length_map nth_mem)
    ultimately show "map (node_idx m) ys ! i = ks ! i" using key [of "ys ! i"] i by (auto simp: node_idx_def)
  qed
  have "idx_sort.nkey m' x = Some (node_idx m x)" if "x \<in> set xs" for x using key [OF that] by (auto simp: node_idx_def)
  then have sk: "ys = sort_key (node_idx m) xs" using stable_sort [OF s(3) _ _ s(7)] ks(2) mk by simp
  have "\<forall>x. x \<notin> set xs \<longrightarrow> h x = heads m x" using s(6) by (simp add: idx_sort.evolved_def m')
  moreover have "e a = (if a \<in> ?A then map_option regen_data (datas m a) else datas m a)" for a
  proof (cases "a \<in> ?A")
    case True
    then obtain x n where "x \<in> set xs" "heads m x = Some n" "a = info n" by (auto simp: info_set_def)
    with key [of x] True show ?thesis by auto
  next
    case False
    with s(5) show ?thesis by (simp add: idx_inv_def m')
  qed
  ultimately show ?thesis using s(1-3) ks(2) same m' mk sk
    by (intro exI [of _ ys] exI [of _ p'] exI [of _ h] exI [of _ e]) (auto simp del: sorted_sort_key)
qed

text \<open>
  C6: sorting by index. On a list of at least two nodes with data, \<^verbatim>\<open>core_list_mergesort\<close> with
  \<^verbatim>\<open>cmp_idx\<close> and a null \<^verbatim>\<open>res\<close> returns and implements the stable sort of the abstract list: the list
  then has the same nodes, in the order of their indices and with nodes of equal index in their
  old order, each still with its data item; every item's data are regenerated from their upper
  byte; and nothing else in memory has changed.
\<close>

theorem core_list_mergesort_by_idx:
  assumes "is_list m p xs" "2 \<le> length xs" "length xs < 2 ^ 29" "has_data m xs"
  shows "\<exists>p' m'. core_list_mergesort p cmp_idx None m = Some (p', None, m') \<and> is_list m' p' (sort_key (node_idx m) xs)
     \<and> (\<forall>x \<in> set xs. node_data m' x = map_option regen_data (node_data m x))
     \<and> (arr8 m', arr16 m', arr32 m') = (arr8 m, arr16 m, arr32 m)"
proof -
  obtain ys p' h e where s: "core_list_mergesort p cmp_idx None m = Some (p', None, m\<lparr>heads := h, datas := e\<rparr>)"
    "path h p' ys NULL" "mset ys = mset xs" "sorted (map (node_idx m) ys)"
    "\<forall>x. map_option info (h x) = map_option info (heads m x)"
    "\<forall>a. e a = (if a \<in> info_set m xs then map_option regen_data (datas m a) else datas m a)" "ys = sort_key (node_idx m) xs"
    using mergesort_idx_sorts [OF assms] by blast
  have "node_data (m\<lparr>heads := h, datas := e\<rparr>) x = map_option regen_data (node_data m x)" if x: "x \<in> set xs" for x
  proof -
    from assms(4) x obtain n d where n: "heads m x = Some n" "info n \<in> info_set m xs" "datas m (info n) = Some d"
      "info n \<noteq> NULL" "node_data m x = Some d" by (rule has_data_node)
    obtain n' where "h x = Some n'" "info n' = info n" using s(5) n(1) by (metis map_option_eq_Some)
    with n s(6) show ?thesis by (simp add: node_data_def data_at_def)
  qed
  with s show ?thesis by (intro exI [of _ p'] exI [of _ "m\<lparr>heads := h, datas := e\<rparr>"]) simp
qed

theorem core_list_mergesort_by_idx_witness:
  "\<exists>p' m'. core_list_mergesort 8 cmp_idx None three_cells = Some (p', None, m') \<and> is_list m' p' (sort_key (node_idx three_cells) [8, 16, 24])
     \<and> (\<forall>x \<in> set [8, 16, 24]. node_data m' x = map_option regen_data (node_data three_cells x))
     \<and> (arr8 m', arr16 m', arr32 m') = (arr8 three_cells, arr16 three_cells, arr32 three_cells)"
  by (rule core_list_mergesort_by_idx)
    (simp_all add: three_cells_def has_data_def node_data_def data_at_def)

section \<open>Sorting by data\<close>

text \<open>The other benchmarks are ready to run: the state block is there, with a zero byte no step
  reaches, and the matrices are in place.\<close>

definition benches_ready :: "core_results \<Rightarrow> cmem \<Rightarrow> bool" where
  "benches_ready re m \<longleftrightarrow>
     (case memblock_at re 3 of None \<Rightarrow> False | Some b \<Rightarrow>
       (case arr8 m b of None \<Rightarrow> False | Some mem \<Rightarrow> unat (r_size re) \<le> length mem \<and> ends_safely 17 mem))
     \<and> mat_ok (mat_N (r_mat re)) (mat_C (r_mat re)) (mat_A (r_mat re)) (mat_B (r_mat re)) m"

text \<open>The corruption of the state block can be undone: equal seeds, and no byte that turns into a
  comma.\<close>

definition undoable :: "core_results \<Rightarrow> ee_u8 list \<Rightarrow> bool" where
  "undoable re mem \<longleftrightarrow> r_seed1 re = r_seed2 re \<and> (ucast (r_seed1 re) = (0 :: ee_u8) \<or> stuck_byte (r_seed1 re) \<notin> set mem)"

text \<open>Only the check sums of the results differ.\<close>

definition clear_crcs :: "core_results \<Rightarrow> core_results" where
  "clear_crcs re = re\<lparr>r_crc := 0, r_crclist := 0, r_crcmatrix := 0, r_crcstate := 0\<rparr>"

definition same_inputs :: "core_results \<Rightarrow> core_results \<Rightarrow> bool" where
  "same_inputs re0 re \<longleftrightarrow> clear_crcs re = clear_crcs re0"

text \<open>What running the other benchmarks may change: the state block, which keeps its length and a
  zero no step reaches, and is the same when the corruption can be undone; and the result matrix.\<close>

definition benches_rel :: "core_results \<Rightarrow> cmem \<Rightarrow> cmem \<Rightarrow> bool" where
  "benches_rel re m0 m \<longleftrightarrow> arr16 m = arr16 m0
     \<and> (\<exists>b mem0 mem. memblock_at re 3 = Some b \<and> arr8 m0 b = Some mem0 \<and> arr8 m = (arr8 m0)(b \<mapsto> mem)
          \<and> length mem = length mem0 \<and> ends_safely 17 mem \<and> (undoable re mem0 \<longrightarrow> mem = mem0))
     \<and> (\<exists>c. arr32 m = (arr32 m0)(mat_C (r_mat re) \<mapsto> c) \<and> length c = length (the (arr32 m0 (mat_C (r_mat re)))))"

lemma benches_rel_ready:
  assumes "benches_ready re m0" "benches_rel re m0 m"
  shows "benches_ready re m"
proof -
  from assms have "mat_ok (mat_N (r_mat re)) (mat_C (r_mat re)) (mat_A (r_mat re)) (mat_B (r_mat re)) m"
    by (auto simp: benches_ready_def benches_rel_def mat_ok_def split: option.splits)
  with assms show ?thesis by (auto simp: benches_ready_def benches_rel_def split: option.splits)
qed

lemma benches_rel_refl:
  assumes "benches_ready re m"
  shows "benches_rel re m m"
proof -
  from assms obtain b mem c where "memblock_at re 3 = Some b" "arr8 m b = Some mem" "ends_safely 17 mem"
    "arr32 m (mat_C (r_mat re)) = Some c"
    by (auto simp: benches_ready_def mat_ok_def split: option.splits)
  moreover from this have "arr8 m = (arr8 m)(b \<mapsto> mem)" "arr32 m = (arr32 m)(mat_C (r_mat re) \<mapsto> c)"
    by (simp_all add: fun_upd_idem)
  ultimately show ?thesis unfolding benches_rel_def by (metis option.sel)
qed

lemma benches_rel_trans: "benches_rel re m0 m1 \<Longrightarrow> benches_rel re m1 m2 \<Longrightarrow> benches_rel re m0 m2"
  unfolding benches_rel_def by auto

lemma benches_rel_cong:
  "benches_rel re m0 m \<Longrightarrow> arr8 m' = arr8 m \<Longrightarrow> arr16 m' = arr16 m \<Longrightarrow> arr32 m' = arr32 m \<Longrightarrow> benches_rel re m0 m'"
  by (simp add: benches_rel_def)

lemma same_inputs_refl: "same_inputs re re"
  by (simp add: same_inputs_def)

lemma same_inputs_trans: "same_inputs a b \<Longrightarrow> same_inputs b c \<Longrightarrow> same_inputs a c"
  by (simp add: same_inputs_def)

lemma same_inputs_fields:
  assumes "same_inputs re re'"
  shows "r_seed1 re' = r_seed1 re" "r_seed2 re' = r_seed2 re" "r_seed3 re' = r_seed3 re"
     "r_memblock re' = r_memblock re" "r_size re' = r_size re" "r_list re' = r_list re" "r_mat re' = r_mat re"
     "r_iterations re' = r_iterations re" "r_execs re' = r_execs re"
  using assms by (cases re, cases re', simp add: same_inputs_def clear_crcs_def)+

lemma same_inputs_benches:
  assumes "same_inputs re re'"
  shows "benches_rel re' m0 m = benches_rel re m0 m" "benches_ready re' m = benches_ready re m"
  unfolding benches_rel_def benches_ready_def memblock_at_def undoable_def same_inputs_fields [OF assms] by simp_all

lemma same_inputs_crc:
  "same_inputs re (re'\<lparr>r_crc := c\<rparr>) = same_inputs re re'"
  "same_inputs re (re'\<lparr>r_crclist := c\<rparr>) = same_inputs re re'"
  "same_inputs re (re'\<lparr>r_crcmatrix := c\<rparr>) = same_inputs re re'"
  "same_inputs re (re'\<lparr>r_crcstate := c\<rparr>) = same_inputs re re'"
  by (simp_all add: same_inputs_def clear_crcs_def)

text \<open>Running the state benchmark with a step a datum can select.\<close>

lemma bench_state_runs:
  assumes "benches_ready re m" "memblock_at re 3 = Some b" "0 < sint step" "17 dvd nat (sint step)"
  shows "\<exists>v mem. core_bench_state (r_size re) b (r_seed1 re) (r_seed2 re) step crc m = Some (v, upd_arr8 b mem m)
     \<and> benches_rel re m (upd_arr8 b mem m)"
proof -
  obtain mem where mem: "arr8 m b = Some mem" "unat (r_size re) \<le> length mem" "ends_safely 17 mem"
    using assms(1,2) by (auto simp: benches_ready_def split: option.splits)
  let ?k = "nat (sint step)" and ?n = "unat (r_size re)"
  let ?mem = "corrupted ?n (r_seed2 re) ?k (corrupted ?n (r_seed1 re) ?k mem)"
  from core_bench_state_returns [OF mem(1,2) assms(3,4) mem(3)] obtain v where
    v: "core_bench_state (r_size re) b (r_seed1 re) (r_seed2 re) step crc m = Some (v, upd_arr8 b ?mem m)" by blast
  have "ends_safely 17 ?mem" by (intro ends_safely_corrupted assms(4) mem(3))
  moreover have "undoable re mem \<Longrightarrow> ?mem = mem"
    by (auto simp: undoable_def corrupted_twice) (metis nth_mem)
  moreover from benches_rel_refl [OF assms(1)] have "\<exists>c. arr32 m = (arr32 m)(mat_C (r_mat re) \<mapsto> c)
      \<and> length c = length (the (arr32 m (mat_C (r_mat re))))" by (simp add: benches_rel_def)
  ultimately have "benches_rel re m (upd_arr8 b ?mem m)" using assms(2) mem(1) by (auto simp: benches_rel_def)
  with v show ?thesis by blast
qed

lemma bench_matrix_runs:
  assumes "benches_ready re m"
  shows "\<exists>v c. core_bench_matrix (r_mat re) sd crc m = Some (v, upd_arr32 (mat_C (r_mat re)) c m)
     \<and> benches_rel re m (upd_arr32 (mat_C (r_mat re)) c m)"
proof -
  from assms have ok: "mat_ok (mat_N (r_mat re)) (mat_C (r_mat re)) (mat_A (r_mat re)) (mat_B (r_mat re)) m"
    by (simp add: benches_ready_def)
  from core_bench_matrix_returns [OF ok, of sd crc] obtain v c where
    v: "core_bench_matrix (r_mat re) sd crc m = Some (v, upd_arr32 (mat_C (r_mat re)) c m)"
      "length c = length (the (arr32 m (mat_C (r_mat re))))" by blast
  from benches_rel_refl [OF assms] v(2) have "benches_rel re m (upd_arr32 (mat_C (r_mat re)) c m)"
    by (auto simp: benches_rel_def)
  with v show ?thesis by blast
qed

lemma calc_value_runs:
  fixes dat :: ee_s16
  assumes "benches_ready re m"
  defines "w \<equiv> ucast (signed_drop_bit 3 (promote_s16 dat) AND 0xf) :: ee_s16"
  shows "\<exists>v re' m'. calc_value flag (w OR ucast (push_bit 4 (promote_s16 w))) dat re m = Some (v, re', m')
     \<and> same_inputs re re' \<and> benches_rel re m m' \<and> heads m' = heads m \<and> datas m' = datas m"
proof -
  let ?d = "w OR ucast (push_bit 4 (promote_s16 w))"
  consider "flag = 0" | "flag = 1" | "flag \<noteq> 0" "flag \<noteq> 1" by blast
  then show ?thesis
  proof cases
    case 1
    from assms(1) obtain b where b: "memblock_at re 3 = Some b" by (auto simp: benches_ready_def split: option.splits)
    from bench_state_runs [OF assms(1) b state_step [of dat, folded w_def], of "r_crc re"] obtain v mem where
      "core_bench_state (r_size re) b (r_seed1 re) (r_seed2 re) (if sint ?d < 0x22 then 0x22 else ?d) (r_crc re) m
         = Some (v, upd_arr8 b mem m)" "benches_rel re m (upd_arr8 b mem m)" by blast
    with 1 b show ?thesis
      by (simp add: calc_value_def Let_def same_inputs_crc same_inputs_refl)
  next
    case 2
    from bench_matrix_runs [OF assms(1), of ?d "r_crc re"] obtain v c where
      "core_bench_matrix (r_mat re) ?d (r_crc re) m = Some (v, upd_arr32 (mat_C (r_mat re)) c m)"
      "benches_rel re m (upd_arr32 (mat_C (r_mat re)) c m)" by blast
    with 2 show ?thesis
      by (simp add: calc_value_def same_inputs_crc same_inputs_refl)
  next
    case 3
    with assms(1) show ?thesis
      by (simp add: calc_value_def same_inputs_refl benches_rel_refl)
  qed
qed

text \<open>The key by data: the cached value.\<close>

definition val_key :: "cmem \<Rightarrow> addr \<Rightarrow> int option" where
  "val_key m a = Option.bind (data_at m a) (\<lambda>d. if bit (data16 d) 7 then Some (low7 (data16 d)) else None)"

text \<open>Of the items \<open>A\<close> only the low bytes of the data differ, and no other item does.\<close>

definition items_rel :: "addr set \<Rightarrow> cmem \<Rightarrow> cmem \<Rightarrow> bool" where
  "items_rel A m0 m \<longleftrightarrow> (\<forall>a. a \<notin> A \<longrightarrow> datas m a = datas m0 a)
     \<and> (\<forall>a \<in> A. \<exists>d0 d. datas m0 a = Some d0 \<and> datas m a = Some d \<and> regen_data d = regen_data d0)"

definition val_inv :: "core_results \<Rightarrow> cmem \<Rightarrow> addr set \<Rightarrow> core_results option \<Rightarrow> cmem \<Rightarrow> bool" where
  "val_inv re0 m0 A r m \<longleftrightarrow> NULL \<notin> A \<and> (\<exists>re. r = Some re \<and> same_inputs re0 re) \<and> benches_ready re0 m0
     \<and> benches_rel re0 m0 m \<and> items_rel A m0 m"

lemma regen_data_cached: "regen_data (d\<lparr>data16 := cached (data16 d) v\<rparr>) = regen_data d"
  by (simp add: regen_data_def regen_cached)

lemma items_rel_put:
  assumes "items_rel A m0 m" "a \<in> A" "datas m a = Some d" "regen_data d' = regen_data d"
    "datas m' = (datas m)(a \<mapsto> d')"
  shows "items_rel A m0 m'"
  unfolding items_rel_def
proof (intro conjI allI impI ballI)
  fix x
  assume "x \<notin> A"
  with assms show "datas m' x = datas m0 x" by (auto simp: items_rel_def)
next
  fix x
  assume "x \<in> A"
  with assms(1) obtain d0 e where "datas m0 x = Some d0" "datas m x = Some e" "regen_data e = regen_data d0"
    by (auto simp: items_rel_def)
  with assms(3-5) show "\<exists>d0 d. datas m0 x = Some d0 \<and> datas m' x = Some d \<and> regen_data d = regen_data d0"
    by (cases "x = a") auto
qed

lemma calc_func_cached:
  assumes "a \<noteq> NULL" "datas m a = Some d" "bit (data16 d) 7"
  shows "calc_func a r m = Some (data16 d AND 0x7f, r, m)"
  using assms bit7_iff [of "data16 d"] by (simp add: calc_func_def data_at_def ucast_and_low7 Let_def)

lemma calc_func_fresh:
  assumes "a \<noteq> NULL" "datas m a = Some d" "\<not> bit (data16 d) 7" "benches_ready re m"
  shows "\<exists>v re' m'. calc_func a (Some re) m = Some (v AND 0x7f, Some re', m'\<lparr>datas := (datas m)(a \<mapsto> d\<lparr>data16 := cached (data16 d) v\<rparr>)\<rparr>)
     \<and> same_inputs re re' \<and> benches_rel re m m' \<and> heads m' = heads m"
proof -
  let ?w = "ucast (signed_drop_bit 3 (promote_s16 (data16 d)) AND 0xf) :: ee_s16"
  let ?flag = "ucast (promote_s16 (data16 d) AND 0x7) :: ee_s16"
  from calc_value_runs [OF assms(4), of ?flag "data16 d"] obtain v re' m' where
    v: "calc_value ?flag (?w OR ucast (push_bit 4 (promote_s16 ?w))) (data16 d) re m = Some (v, re', m')"
      "same_inputs re re'" "benches_rel re m m'" "heads m' = heads m" "datas m' = datas m" by blast
  have "calc_func a (Some re) m = Some (v AND 0x7f, Some (re'\<lparr>r_crc := crcu16 v (r_crc re')\<rparr>),
      m'\<lparr>datas := (datas m)(a \<mapsto> d\<lparr>data16 := cached (data16 d) v\<rparr>)\<rparr>)"
    using assms(1-3) v(1,5) bit7_iff [of "data16 d"]
    by (simp add: calc_func_def data_at_def put_data_def Let_def cached_def)
  with v show ?thesis by (metis same_inputs_crc(1))
qed

lemma val_key_put:
  assumes "val_key m x = Some k" "a \<noteq> NULL" "datas m a = Some d" "\<not> bit (data16 d) 7"
  shows "val_key (m'\<lparr>datas := (datas m)(a \<mapsto> d')\<rparr>) x = Some k"
  using assms by (auto simp: val_key_def data_at_def bind_eq_Some_conv split: if_splits)

lemma calc_func_step:
  assumes "val_inv re0 m0 A r m" "a \<in> A"
  shows "\<exists>v r' m'. calc_func a r m = Some (v, r', m') \<and> val_inv re0 m0 A r' m' \<and> heads m' = heads m
     \<and> val_key m' a = Some (sint v) \<and> (\<forall>x k. val_key m x = Some k \<longrightarrow> val_key m' x = Some k)"
proof -
  from assms obtain re d where a: "a \<noteq> NULL" "r = Some re" "same_inputs re0 re" "datas m a = Some d"
    unfolding val_inv_def items_rel_def by metis
  show ?thesis
  proof (cases "bit (data16 d) 7")
    case True
    with a assms show ?thesis
      by (simp add: calc_func_cached val_key_def data_at_def sint_low7)
  next
    case False
    have "benches_ready re0 m" using assms(1) benches_rel_ready by (auto simp: val_inv_def)
    then have "benches_ready re m" using same_inputs_benches(2) [OF a(3)] by simp
    from calc_func_fresh [OF a(1,4) False this] obtain v re' m' where
      v: "calc_func a (Some re) m = Some (v AND 0x7f, Some re', m'\<lparr>datas := (datas m)(a \<mapsto> d\<lparr>data16 := cached (data16 d) v\<rparr>)\<rparr>)"
        "same_inputs re re'" "benches_rel re m m'" "heads m' = heads m" by blast
    let ?m = "m'\<lparr>datas := (datas m)(a \<mapsto> d\<lparr>data16 := cached (data16 d) v\<rparr>)\<rparr>"
    have "benches_rel re0 m ?m" using v(3) same_inputs_benches(1) [OF a(3)] by (simp add: benches_rel_def)
    then have "benches_rel re0 m0 ?m" using assms(1) benches_rel_trans by (auto simp: val_inv_def)
    moreover have "items_rel A m0 ?m"
      by (rule items_rel_put [OF _ assms(2) a(4) regen_data_cached]) (use assms(1) in \<open>simp_all add: val_inv_def\<close>)
    ultimately have "val_inv re0 m0 A (Some re') ?m"
      using assms(1) same_inputs_trans [OF a(3) v(2)] by (simp add: val_inv_def)
    moreover have "val_key ?m a = Some (sint (v AND 0x7f))"
      using a(1) by (simp add: val_key_def data_at_def bit7_cached low7_cached sint_low7)
    ultimately show ?thesis using v(1,4) a(2) val_key_put [OF _ a(1,4) False] by auto
  qed
qed

interpretation val_sort: list_comparison cmp_complex "val_inv re0 m0 A" A val_key for re0 m0 A
proof
  fix r m a b
  assume inv: "val_inv re0 m0 A r m" and ab: "a \<in> A" "b \<in> A"
  from calc_func_step [OF inv ab(1)] obtain va r1 m1 where
    1: "calc_func a r m = Some (va, r1, m1)" "val_inv re0 m0 A r1 m1" "heads m1 = heads m"
      "val_key m1 a = Some (sint va)" "\<And>x k. val_key m x = Some k \<Longrightarrow> val_key m1 x = Some k" by blast
  from calc_func_step [OF 1(2) ab(2)] obtain vb r2 m2 where
    2: "calc_func b r1 m1 = Some (vb, r2, m2)" "val_inv re0 m0 A r2 m2" "heads m2 = heads m1"
      "val_key m2 b = Some (sint vb)" "\<And>x k. val_key m1 x = Some k \<Longrightarrow> val_key m2 x = Some k" by blast
  have cmp: "cmp_complex a b r m = Some (promote_s16 va - promote_s16 vb, r2, m2)"
    using 1 2 by (simp add: cmp_complex_def)
  show "\<exists>v r' m' ka kb. cmp_complex a b r m = Some (v, r', m') \<and> val_inv re0 m0 A r' m' \<and> heads m' = heads m
      \<and> val_key m' a = Some ka \<and> val_key m' b = Some kb \<and> (sint v \<le> 0) = (ka \<le> kb)"
    using cmp 1 2 by (auto simp: sint_diff_promote)
  fix v r' m' x k
  assume "cmp_complex a b r m = Some (v, r', m')" "val_key m x = Some k"
  with cmp show "val_key m' x = Some k" using 1(5) 2(5) by simp
next
  fix r m h
  assume "val_inv re0 m0 A r m"
  then show "val_inv re0 m0 A r (m\<lparr>heads := h\<rparr>)" by (simp add: val_inv_def items_rel_def benches_rel_def)
next
  show "val_key (m\<lparr>heads := h\<rparr>) x = val_key m x" for m h x by (simp add: val_key_def)
qed

lemma mergesort_val_sorts:
  assumes "is_list m p xs" "2 \<le> length xs" "length xs < 2 ^ 29" "has_data m xs" "benches_ready re m"
  shows "\<exists>ys p' re' m' ks. core_list_mergesort p cmp_complex (Some re) m = Some (p', Some re', m')
     \<and> is_list m' p' ys \<and> mset ys = mset xs
     \<and> map (\<lambda>x. Option.bind (heads m' x) (\<lambda>n. val_key m' (info n))) ys = map Some ks \<and> sorted ks
     \<and> same_inputs re re' \<and> benches_rel re m m' \<and> items_rel (info_set m xs) m m'
     \<and> (\<forall>x. map_option info (heads m' x) = map_option info (heads m x)) \<and> (\<forall>x. x \<notin> set xs \<longrightarrow> heads m' x = heads m x)
     \<and> (\<forall>k. filter (\<lambda>x. Option.bind (heads m' x) (\<lambda>n. val_key m' (info n)) = Some k) ys
          = filter (\<lambda>x. Option.bind (heads m' x) (\<lambda>n. val_key m' (info n)) = Some k) xs)"
proof -
  let ?A = "info_set m xs"
  have "items_rel ?A m m" using has_data_info_set [OF assms(4)] unfolding items_rel_def by blast
  with has_data_info_set [OF assms(4)] have inv: "val_inv re m ?A (Some re) m"
    using assms(5) benches_rel_refl same_inputs_refl unfolding val_inv_def by blast
  have nin: "val_sort.nodes_in ?A m xs" by (auto simp: val_sort.nodes_in_def info_set_def)
  from val_sort.core_list_mergesort_sorts [OF assms(1-3) inv nin] obtain ys p' r' m' where
    s: "core_list_mergesort p cmp_complex (Some re) m = Some (p', r', m')" "is_list m' p' ys" "mset ys = mset xs"
      "val_sort.sorted_keys m' ys" "val_inv re m ?A r' m'" "val_sort.evolved (set xs) m m'"
      "\<forall>k. filter (\<lambda>z. val_sort.nkey m' z = Some k) ys = filter (\<lambda>z. val_sort.nkey m' z = Some k) xs" by blast
  from s(4) obtain ks where "map (val_sort.nkey m') ys = map Some ks" "sorted ks" by (auto simp: val_sort.sorted_keys_def)
  moreover from s(5) obtain re' where "r' = Some re'" "same_inputs re re'" "benches_rel re m m'" "items_rel ?A m m'"
    by (auto simp: val_inv_def)
  ultimately show ?thesis using s(1-3,6,7) unfolding val_sort.nkey_def val_sort.evolved_def by blast
qed

definition node_val :: "cmem \<Rightarrow> addr \<Rightarrow> int" where
  "node_val m x = (case node_data m x of None \<Rightarrow> 0 | Some d \<Rightarrow> low7 (data16 d))"

text \<open>
  C5: sorting by data. When the list has at least two nodes with data and the other benchmarks can
  run, \<^verbatim>\<open>core_list_mergesort\<close> with \<^verbatim>\<open>cmp_complex\<close> returns. Every item then has its value
  cached, and the list is the stable sort of the old one by these values: the nodes are the same,
  those of equal value in their old order, each with its index and the upper byte of its data
  unchanged.
\<close>

theorem core_list_mergesort_by_data:
  assumes "is_list m p xs" "2 \<le> length xs" "length xs < 2 ^ 29" "has_data m xs" "benches_ready re m"
  shows "\<exists>p' re' m'. core_list_mergesort p cmp_complex (Some re) m = Some (p', Some re', m')
     \<and> is_list m' p' (sort_key (node_val m') xs)
     \<and> (\<forall>x \<in> set xs. \<exists>d. node_data m' x = Some d \<and> bit (data16 d) 7
           \<and> map_option regen_data (node_data m' x) = map_option regen_data (node_data m x))"
proof -
  obtain ys p' re' m' ks where s: "core_list_mergesort p cmp_complex (Some re) m = Some (p', Some re', m')"
     "is_list m' p' ys" "mset ys = mset xs" "map (\<lambda>x. Option.bind (heads m' x) (\<lambda>n. val_key m' (info n))) ys = map Some ks"
     "sorted ks" "items_rel (info_set m xs) m m'" "\<forall>x. map_option info (heads m' x) = map_option info (heads m x)"
     "\<forall>k. filter (\<lambda>x. Option.bind (heads m' x) (\<lambda>n. val_key m' (info n)) = Some k) ys
        = filter (\<lambda>x. Option.bind (heads m' x) (\<lambda>n. val_key m' (info n)) = Some k) xs"
    using mergesort_val_sorts [OF assms] by blast
  have item: "\<exists>d. node_data m' x = Some d \<and> bit (data16 d) 7 \<and> node_val m' x = k
      \<and> map_option regen_data (node_data m' x) = map_option regen_data (node_data m x)"
    if x: "x \<in> set ys" and k: "Option.bind (heads m' x) (\<lambda>n. val_key m' (info n)) = Some k" for x k
  proof -
    have "x \<in> set xs" using x mset_eq_setD [OF s(3)] by simp
    with assms(4) obtain n d0 where n: "heads m x = Some n" "info n \<in> info_set m xs" "datas m (info n) = Some d0"
      "info n \<noteq> NULL" "node_data m x = Some d0" by (rule has_data_node)
    obtain n' where n': "heads m' x = Some n'" "info n' = info n" using s(7) n(1) by (metis map_option_eq_Some)
    obtain d where d: "datas m' (info n) = Some d" "regen_data d = regen_data d0"
      using s(6) n(2,3) by (auto simp: items_rel_def)
    with n n' k show ?thesis by (auto simp: node_data_def data_at_def val_key_def node_val_def split: if_splits)
  qed
  have nth: "Option.bind (heads m' (ys ! i)) (\<lambda>n. val_key m' (info n)) = Some (ks ! i)" if "i < length ys" for i
    using s(4) that by (metis (no_types, lifting) length_map nth_map)
  have len: "length ks = length ys" using s(4) by (metis length_map)
  have mk: "map (node_val m') ys = ks"
    using item [OF nth_mem nth] len by (intro nth_equalityI) auto
  have ys: "set ys = set xs" using mset_eq_setD [OF s(3)] .
  have "\<exists>k. Option.bind (heads m' x) (\<lambda>n. val_key m' (info n)) = Some k" if "x \<in> set ys" for x
    using nth that by (metis in_set_conv_nth)
  then have keyed: "Option.bind (heads m' x) (\<lambda>n. val_key m' (info n)) = Some (node_val m' x)" if "x \<in> set xs" for x
    using item that ys by metis
  have "ys = sort_key (node_val m') xs" by (rule stable_sort [OF s(3) keyed _ s(8)]) (use mk s(5) in simp_all)
  moreover have "\<forall>x \<in> set xs. \<exists>d. node_data m' x = Some d \<and> bit (data16 d) 7
           \<and> map_option regen_data (node_data m' x) = map_option regen_data (node_data m x)"
    using item keyed ys by blast
  ultimately show ?thesis using s(1,2) by blast
qed

text \<open>A small instance: the three cells, a state block and matrices of dimension 1.\<close>

definition small_mem :: cmem where
  "small_mem = upd_arr8 0x1000 [49, 44, 50, 0, 0] (upd_arr16 0x2000 [3] (upd_arr16 0x2008 [5] (upd_arr32 0x2010 [0]
     (three_cells\<lparr>datas := [100 \<mapsto> \<lparr>data16 = 0x8080, idx = 0\<rparr>, 104 \<mapsto> \<lparr>data16 = 0x0808, idx = 1\<rparr>,
        108 \<mapsto> \<lparr>data16 = 0xffff, idx = 0x7fff\<rparr>]\<rparr>))))"

definition small_results :: core_results where
  "small_results = \<lparr>r_seed1 = 0, r_seed2 = 0, r_seed3 = 0x66, r_memblock = [0, 0, 0, 0x1000], r_size = 5,
     r_iterations = 1, r_execs = 7, r_list = 8, r_mat = \<lparr>mat_N = 1, mat_A = 0x2000, mat_B = 0x2008, mat_C = 0x2010\<rparr>,
     r_crc = 0, r_crclist = 0, r_crcmatrix = 0, r_crcstate = 0, r_err = 0, r_port = \<lparr>portable_id = 1\<rparr>\<rparr>"

lemma small_ready: "benches_ready small_results small_mem"
proof -
  have "ends_safely 17 [49, 44, 50, 0, 0]" by code_simp
  then show ?thesis
    by (simp add: benches_ready_def small_results_def small_mem_def memblock_at_def mat_ok_def dim_ok_def)
qed

lemma small_list:
  "is_list small_mem 8 [8, 16, 24]" "has_data small_mem [8, 16, 24]"
  by (simp_all add: small_mem_def three_cells_def has_data_def node_data_def data_at_def)

theorem core_list_mergesort_by_data_witness:
  "\<exists>p' re' m'. core_list_mergesort 8 cmp_complex (Some small_results) small_mem = Some (p', Some re', m')
     \<and> is_list m' p' (sort_key (node_val m') [8, 16, 24])
     \<and> (\<forall>x \<in> set [8, 16, 24]. \<exists>d. node_data m' x = Some d \<and> bit (data16 d) 7
           \<and> map_option regen_data (node_data m' x) = map_option regen_data (node_data small_mem x))"
  by (rule core_list_mergesort_by_data [OF small_list(1) _ _ small_list(2) small_ready]) simp_all

end
