(* ===== verification/ListBench.thy ===== *)
theory ListBench
  imports ListCmp
begin

text \<open>
  The list benchmark \<^verbatim>\<open>core_bench_list\<close> of \<^verbatim>\<open>coremark/core_list_join.c\<close>: searches that
  reverse and rearrange the list, a sort by data, a removal that is undone, a sort by index and
  check sums. The main result is that the list comes back exactly as it was.
\<close>

section \<open>The benchmark\<close>

record bench_vars =
  v_list :: addr
  v_retval :: ee_u16
  v_found :: ee_u16
  v_missed :: ee_u16
  v_info :: list_data

text \<open>Move the successor of the found node behind the head of the list.\<close>

definition cache_next :: "addr \<Rightarrow> addr \<Rightarrow> cmem \<Rightarrow> cmem option" where
  "cache_next this_find list m = do {
     f \<leftarrow> head_at m this_find;
     if nxt f \<noteq> NULL then do {
       let finder = nxt f;
       g \<leftarrow> head_at m finder;
       m \<leftarrow> set_nxt this_find (nxt g) m;
       l \<leftarrow> head_at m list;
       m \<leftarrow> set_nxt finder (nxt l) m;
       set_nxt list finder m }
     else Some m }"

definition data16_of :: "addr \<Rightarrow> cmem \<Rightarrow> ee_s16 option" where
  "data16_of p m = do {
     n \<leftarrow> head_at m p;
     d \<leftarrow> data_at m (info n);
     Some (data16 d) }"

text \<open>The body of the \<^verbatim>\<open>for (i = 0; i < find_num; i++)\<close> loop.\<close>

definition find_step :: "ee_s16 \<Rightarrow> bench_vars \<Rightarrow> cmem \<Rightarrow> (bench_vars \<times> cmem) option" where
  "find_step i v m = do {
     let inf_d = (v_info v)\<lparr>data16 := ucast (promote_s16 i AND 0xff)\<rparr>;
     this_find \<leftarrow> core_list_find (v_list v) inf_d m;
     (list, m) \<leftarrow> core_list_reverse (v_list v) m;
     let v = v\<lparr>v_list := list, v_info := inf_d\<rparr>;
     (v, m) \<leftarrow> (if this_find = NULL then do {
         l \<leftarrow> head_at m list;
         w \<leftarrow> data16_of (nxt l) m;
         Some (v\<lparr>v_missed := v_missed v + 1,
                 v_retval := v_retval v + ucast (signed_drop_bit 8 (promote_s16 w) AND 1)\<rparr>, m) }
       else do {
         let v = v\<lparr>v_found := v_found v + 1\<rparr>;
         w \<leftarrow> data16_of this_find m;
         let v = (if promote_s16 w AND 0x1 \<noteq> 0
                  then v\<lparr>v_retval := v_retval v + ucast (signed_drop_bit 9 (promote_s16 w) AND 1)\<rparr> else v);
         m \<leftarrow> cache_next this_find list m;
         Some (v, m) });
     let inf_d = v_info v;
     Some (if 0 \<le> sint (idx inf_d) then v\<lparr>v_info := inf_d\<lparr>idx := idx inf_d + 1\<rparr>\<rparr> else v, m) }"

partial_function (option) find_steps :: "ee_s16 \<Rightarrow> ee_s16 \<Rightarrow> bench_vars \<Rightarrow> cmem \<Rightarrow> (bench_vars \<times> cmem) option" where
  "find_steps find_num i v m =
     (if sint i < sint find_num then do {
        (v, m) \<leftarrow> find_step i v m;
        find_steps find_num (i + 1) v m }
      else Some (v, m))"

declare find_steps.simps [code]

text \<open>\<^verbatim>\<open>while (finder)\<close>: the loop reads \<^verbatim>\<open>list->info->data16\<close> each time round.\<close>

partial_function (option) crc_loop :: "addr \<Rightarrow> addr \<Rightarrow> ee_u16 \<Rightarrow> cmem \<Rightarrow> ee_u16 option" where
  "crc_loop list finder retval m =
     (if finder \<noteq> NULL then do {
        w \<leftarrow> data16_of list m;
        n \<leftarrow> head_at m finder;
        crc_loop list (nxt n) (crc16 w retval) m }
      else Some retval)"

declare crc_loop.simps [code]

definition core_bench_list :: "core_results \<Rightarrow> ee_s16 \<Rightarrow> cmem \<Rightarrow> (ee_u16 \<times> core_results \<times> cmem) option" where
  "core_bench_list res finder_idx m = do {
     let v = \<lparr>v_list = r_list res, v_retval = 0, v_found = 0, v_missed = 0,
              v_info = \<lparr>data16 = 0, idx = finder_idx\<rparr>\<rparr>;
     (v, m) \<leftarrow> find_steps (r_seed3 res) 0 v m;
     let retval = v_retval v + ucast (promote_u16 (v_found v) * 4 - promote_u16 (v_missed v));
     (list, re, m) \<leftarrow> (if 0 < sint finder_idx then core_list_mergesort (v_list v) cmp_complex (Some res) m
                       else Some (v_list v, Some res, m));
     res \<leftarrow> re;
     l \<leftarrow> head_at m list;
     (remover, m) \<leftarrow> core_list_remove (nxt l) m;
     finder \<leftarrow> core_list_find list (v_info v) m;
     l \<leftarrow> head_at m list;
     let finder = (if finder = NULL then nxt l else finder);
     retval \<leftarrow> crc_loop list finder retval m;
     (remover, m) \<leftarrow> core_list_undo_remove remover (nxt l) m;
     (list, _, m) \<leftarrow> core_list_mergesort list cmp_idx None m;
     l \<leftarrow> head_at m list;
     retval \<leftarrow> crc_loop list (nxt l) retval m;
     Some (retval, res, m) }"

section \<open>The search loop\<close>

lemma relinked_node_data: "relinked S m m' \<Longrightarrow> node_data m' x = node_data m x"
proof -
  assume r: "relinked S m m'"
  then obtain h where m': "m' = m\<lparr>heads := h\<rparr>" and i: "map_option info (h x) = map_option info (heads m x)"
    by (auto simp: relinked_def)
  from i show ?thesis unfolding m' by (cases "heads m x"; cases "h x") (auto simp: node_data_def)
qed

lemma has_data_relinked: "relinked S m m' \<Longrightarrow> has_data m' xs = has_data m xs"
  by (simp add: has_data_def relinked_node_data)

lemma has_data_perm: "mset xs = mset ys \<Longrightarrow> has_data m xs = has_data m ys"
  by (simp add: has_data_def list_all_iff) (metis set_mset_mset)

lemma relinked_set_nxt:
  "heads m x = Some n \<Longrightarrow> x \<in> S \<Longrightarrow> relinked S m (m\<lparr>heads := (heads m)(x \<mapsto> n\<lparr>nxt := q\<rparr>)\<rparr>)"
  by (auto simp: relinked_def)

lemma set_nxt_eq: "p \<noteq> NULL \<Longrightarrow> heads m p = Some n \<Longrightarrow> set_nxt p q m = Some (m\<lparr>heads := (heads m)(p \<mapsto> n\<lparr>nxt := q\<rparr>)\<rparr>)"
  by (simp add: set_nxt_def head_at_def)

lemma cache_next_last:
  "heads m f = Some n \<Longrightarrow> f \<noteq> NULL \<Longrightarrow> nxt n = NULL \<Longrightarrow> cache_next f p m = Some m"
  by (simp add: cache_next_def head_at_def)

lemma cache_next_head:
  assumes "is_list m a (a # g # vs)"
  shows "cache_next a a m = Some m"
proof -
  from assms obtain na ng where n: "a \<noteq> NULL" "heads m a = Some na" "nxt na = g" "g \<noteq> NULL" "heads m g = Some ng"
    by (auto split: option.splits)
  have d: "a \<noteq> g" using path_distinct [OF assms] by simp
  have same: "na\<lparr>nxt := g\<rparr> = na" "ng\<lparr>nxt := nxt ng\<rparr> = ng" using n(3) by (cases na, simp) (cases ng, simp)
  show ?thesis using n d same
    by (simp add: cache_next_def head_at_def set_nxt_def Let_def fun_upd_twist [of a g] fun_upd_idem)
qed

lemma cache_next_inner:
  assumes "is_list m a (a # us @ f # g # vs)"
  shows "\<exists>m'. cache_next f a m = Some m' \<and> is_list m' a (a # g # us @ f # vs) \<and> relinked (set (a # us @ f # g # vs)) m m'"
proof -
  from assms obtain na where na: "a \<noteq> NULL" "heads m a = Some na" "path (heads m) (nxt na) (us @ f # g # vs) NULL"
    by (auto split: option.splits)
  then obtain nf ng where n: "path (heads m) (nxt na) us f" "f \<noteq> NULL" "heads m f = Some nf" "nxt nf = g" "g \<noteq> NULL"
    "heads m g = Some ng" "path (heads m) (nxt ng) vs NULL" by (elim path_split_two)
  have d: "distinct (a # us @ f # g # vs)" using path_distinct [OF assms] .
  let ?m = "m\<lparr>heads := (heads m)(f \<mapsto> nf\<lparr>nxt := nxt ng\<rparr>, g \<mapsto> ng\<lparr>nxt := nxt na\<rparr>, a \<mapsto> na\<lparr>nxt := g\<rparr>)\<rparr>"
  have "cache_next f a m = Some ?m"
    using na n d not_sym [of f g] by (auto simp: cache_next_def head_at_def set_nxt_def Let_def)
  moreover have "is_list ?m a (a # g # us @ f # vs)"
    using na n d by (auto simp: path_append)
  moreover have "relinked (set (a # us @ f # g # vs)) m ?m"
    using na n by (auto simp: relinked_def)
  ultimately show ?thesis by blast
qed

lemma cache_next_ok:
  assumes "is_list m p zs" "f \<in> set zs"
  shows "\<exists>m' ws. cache_next f p m = Some m' \<and> is_list m' p ws \<and> mset ws = mset zs \<and> relinked (set zs) m m'"
proof -
  from assms(2) obtain us vs where zs: "zs = us @ f # vs" by (meson split_list)
  show ?thesis
  proof (cases vs)
    case Nil
    with assms(1) zs obtain n where "heads m f = Some n" "f \<noteq> NULL" "nxt n = NULL"
      by (auto simp: path_append split: option.splits)
    then have "cache_next f p m = Some m" by (rule cache_next_last)
    then show ?thesis using assms(1) relinked_refl by blast
  next
    case (Cons g ws)
    show ?thesis
    proof (cases us)
      case Nil
      with Cons zs assms(1) have "p = f" by simp
      then have "cache_next f p m = Some m" using cache_next_head [of m f g ws] assms(1) zs Cons Nil by simp
      then show ?thesis using assms(1) relinked_refl by blast
    next
      case (Cons a us')
      have p: "p = a" using assms(1) zs Cons by simp
      have "is_list m a (a # us' @ f # g # ws)" using assms(1) zs p Cons \<open>vs = g # ws\<close> by simp
      from cache_next_inner [OF this] obtain m' where "cache_next f a m = Some m'" "is_list m' a (a # g # us' @ f # ws)"
        "relinked (set (a # us' @ f # g # ws)) m m'" by blast
      then show ?thesis using zs p Cons \<open>vs = g # ws\<close> by (intro exI [of _ m'] exI [of _ "a # g # us' @ f # ws"]) simp
    qed
  qed
qed

lemma data16_of_node:
  "is_list m p zs \<Longrightarrow> has_data m zs \<Longrightarrow> x \<in> set zs \<Longrightarrow> \<exists>w. data16_of x m = Some w"
  using path_not_NULL [of "heads m" p zs NULL x]
  by (auto elim!: has_data_node simp: data16_of_def head_at_def data_at_def)

lemma first_match_cases: "first_match m d xs = NULL \<or> first_match m d xs \<in> set xs"
  by (auto simp: first_match_def find_Some_iff split: option.splits)

lemma find_matches:
  assumes "is_list m p zs" "has_data m zs"
  shows "\<exists>r. core_list_find p d m = Some r \<and> (r = NULL \<or> r \<in> set zs)"
  using core_list_find_first_match [OF assms(1)] assms(2) first_match_cases by (simp add: has_data_def list_all_iff)

lemma find_step_ok:
  assumes "is_list m (v_list v) zs" "has_data m zs" "2 \<le> length zs"
  shows "\<exists>v' m' ws. find_step i v m = Some (v', m') \<and> is_list m' (v_list v') ws \<and> mset ws = mset zs \<and> relinked (set zs) m m'"
proof -
  let ?d = "(v_info v)\<lparr>data16 := ucast (promote_s16 i AND 0xff)\<rparr>"
  obtain r where r: "core_list_find (v_list v) ?d m = Some r" "r = NULL \<or> r \<in> set zs"
    using find_matches [OF assms(1,2)] by blast
  obtain p1 m1 where p1: "core_list_reverse (v_list v) m = Some (p1, m1)" "is_list m1 p1 (rev zs)" "relinked (set zs) m m1"
  proof -
    from core_list_reverse_path [OF assms(1)] obtain p' h where
      h: "core_list_reverse (v_list v) m = Some (p', m\<lparr>heads := h\<rparr>)" "path h p' (rev zs) NULL"
        "\<forall>x. map_option info (h x) = map_option info (heads m x)" "\<forall>x. x \<notin> set zs \<longrightarrow> h x = heads m x" by blast
    then have "relinked (set zs) m (m\<lparr>heads := h\<rparr>)" unfolding relinked_def by auto
    with h that show ?thesis by simp
  qed
  have hd1: "has_data m1 (rev zs)"
    using assms(2) has_data_relinked [OF p1(3)] has_data_perm [of "rev zs" zs] by simp
  obtain a b ws where zs: "rev zs = a # b # ws"
    using assms(3) by (metis (no_types, opaque_lifting) Suc_le_length_iff length_rev numeral_2_eq_2)
  show ?thesis
  proof (cases "r = NULL")
    case True
    from p1(2) zs obtain n where n: "head_at m1 p1 = Some n" "nxt n = b"
      by (auto simp: head_at_def split: option.splits)
    obtain w where w: "data16_of b m1 = Some w" using data16_of_node [OF p1(2) hd1, of b] zs by auto
    with True r(1) p1 n show ?thesis
      by (auto simp: find_step_def Let_def intro!: exI [of _ "rev zs"])
  next
    case False
    with r(2) have rz: "r \<in> set (rev zs)" by simp
    obtain w where w: "data16_of r m1 = Some w" using data16_of_node [OF p1(2) hd1 rz] by blast
    obtain m2 us where m2: "cache_next r p1 m1 = Some m2" "is_list m2 p1 us" "mset us = mset (rev zs)"
      "relinked (set (rev zs)) m1 m2" using cache_next_ok [OF p1(2) rz] by blast
    have "relinked (set zs) m m2" using relinked_trans [OF p1(3) m2(4)] by simp
    with False r(1) p1(1) w m2 show ?thesis
      by (auto simp: find_step_def Let_def intro!: exI [of _ us])
  qed
qed

lemma sint16_Suc:
  assumes "sint (i :: 16 word) < sint (n :: 16 word)"
  shows "sint (i + 1) = sint i + 1"
proof -
  have "- (2 ^ 15) \<le> sint i" "sint n < 2 ^ 15" using sint_greater_eq [of i] sint_less [of n] by simp_all
  with assms have "signed_take_bit 15 (sint i + 1) = sint i + 1" by (intro signed_take_bit_int_eq_self) simp_all
  then have "sint (word_of_int (sint i + 1) :: 16 word) = sint i + 1" by (simp only: signed_of_int) simp
  then show ?thesis by (simp only: of_int_add of_int_sint) simp
qed

lemma find_steps_ok:
  assumes "is_list m (v_list v) zs" "has_data m zs" "2 \<le> length zs"
  shows "\<exists>v' m' ws. find_steps n i v m = Some (v', m') \<and> is_list m' (v_list v') ws \<and> mset ws = mset zs \<and> relinked (set zs) m m'"
  using assms
proof (induction "nat (sint n - sint i)" arbitrary: i v m zs rule: less_induct)
  case less
  show ?case
  proof (cases "sint i < sint n")
    case False
    then show ?thesis using less.prems by (subst find_steps.simps) auto
  next
    case True
    obtain v1 m1 ws where 1: "find_step i v m = Some (v1, m1)" "is_list m1 (v_list v1) ws" "mset ws = mset zs"
      "relinked (set zs) m m1" using find_step_ok [OF less.prems] by blast
    have ws: "has_data m1 ws" "2 \<le> length ws" "set ws = set zs"
      using less.prems(2,3) has_data_relinked [OF 1(4)] has_data_perm [OF 1(3)] mset_eq_length [OF 1(3)]
        mset_eq_setD [OF 1(3)] by simp_all
    have "nat (sint n - sint (i + 1)) < nat (sint n - sint i)" using sint16_Suc [OF True] True by simp
    from less.hyps [OF this 1(2) ws(1,2)] obtain v2 m2 us where
      2: "find_steps n (i + 1) v1 m1 = Some (v2, m2)" "is_list m2 (v_list v2) us" "mset us = mset ws"
        "relinked (set ws) m1 m2" by blast
    have "find_steps n i v m = Some (v2, m2)" using True 1(1) 2(1) by (subst find_steps.simps) simp
    then show ?thesis using 2 1 ws(3) relinked_trans [OF 1(4) 2(4)] by auto
  qed
qed

lemma crc_loop_ok:
  assumes "is_list m finder ys" "data16_of list m = Some w"
  shows "\<exists>v. crc_loop list finder r m = Some v"
  using assms
proof (induction ys arbitrary: finder r)
  case Nil
  then show ?case by (subst crc_loop.simps) simp
next
  case (Cons y ys)
  then obtain n where "finder = y" "y \<noteq> NULL" "heads m y = Some n" "is_list m (nxt n) ys" by (auto split: option.splits)
  with Cons show ?case by (subst crc_loop.simps) (simp add: head_at_def)
qed

lemma path_suffix: "is_list m p (us @ x # vs) \<Longrightarrow> is_list m x (x # vs)"
  by (auto simp: path_append)

section \<open>The list benchmark\<close>

text \<open>What the list looks like between runs: at least three nodes with data, and the data
  regenerated. It is ready when, besides, the indices are strictly increasing.\<close>

definition list_fit :: "addr \<Rightarrow> cmem \<Rightarrow> addr list \<Rightarrow> bool" where
  "list_fit p m xs \<longleftrightarrow> is_list m p xs \<and> 3 \<le> length xs \<and> length xs < 2 ^ 29 \<and> has_data m xs
     \<and> list_all (\<lambda>x. case node_data m x of None \<Rightarrow> False | Some d \<Rightarrow> fresh (data16 d)) xs"

definition list_ready :: "addr \<Rightarrow> cmem \<Rightarrow> addr list \<Rightarrow> bool" where
  "list_ready p m xs \<longleftrightarrow> list_fit p m xs \<and> sorted_wrt (<) (map (node_idx m) xs)"

text \<open>It is usable, in whatever order, when no index is less than that of the header \<open>p\<close>, and at
  least two are greater.\<close>

definition above :: "addr \<Rightarrow> cmem \<Rightarrow> addr list \<Rightarrow> addr set" where
  "above p m xs = {x \<in> set xs. node_idx m p < node_idx m x}"

definition list_usable :: "addr \<Rightarrow> cmem \<Rightarrow> addr list \<Rightarrow> bool" where
  "list_usable p m xs \<longleftrightarrow> list_fit p m xs \<and> (\<forall>x \<in> set xs. node_idx m p \<le> node_idx m x) \<and> 2 \<le> card (above p m xs)"

lemma list_ready_usable:
  assumes "list_ready p m xs"
  shows "list_usable p m xs"
proof -
  from assms have f: "list_fit p m xs" "sorted_wrt (<) (map (node_idx m) xs)" by (simp_all add: list_ready_def)
  then obtain a b c ys where xs: "xs = a # b # c # ys"
    by (auto simp: list_fit_def numeral_3_eq_3 Suc_le_length_iff)
  have l: "is_list m p xs" using f(1) by (simp add: list_fit_def)
  then have "p = a" "distinct xs" using path_distinct [OF l] by (simp_all add: xs)
  moreover have "{b, c} \<subseteq> above a m xs" using f(2) by (auto simp: xs above_def)
  then have "card {b, c} \<le> card (above a m xs)" by (intro card_mono) (simp_all add: above_def)
  ultimately show ?thesis using f by (auto simp: list_usable_def xs intro: less_imp_le)
qed

text \<open>Two heaps in which the same nodes are linked from the same end agree on these nodes, when
  they agree on the data pointers.\<close>

lemma path_unique_heap:
  assumes "path h p xs q" "path h' p' xs q" "\<forall>x. map_option info (h x) = map_option info (h' x)" "x \<in> set xs"
  shows "h x = h' x"
  using assms
proof (induction xs arbitrary: p p')
  case (Cons y ys)
  then obtain n n' where n: "h y = Some n" "path h (nxt n) ys q" "h' y = Some n'" "path h' (nxt n') ys q"
    by (auto split: option.splits)
  show ?case
  proof (cases "x = y")
    case True
    have "nxt n = nxt n'" using n by (cases ys) auto
    moreover have "info n = info n'" using Cons.prems(3) n by (metis option.inject option.simps(9))
    ultimately show ?thesis using n True by (cases n, cases n') simp
  next
    case False
    with Cons n show ?thesis by auto
  qed
qed simp

lemma strictly_sorted_unique:
  fixes f :: "'a \<Rightarrow> int"
  assumes "mset ys = mset xs" "sorted_wrt (<) (map f xs)" "sorted (map f ys)"
  shows "ys = xs"
proof -
  have d: "distinct (map f xs)" "sorted (map f xs)" using assms(2) by (auto simp: strict_sorted_iff)
  have "distinct (map f ys)" using d(1) assms(1) by (metis mset_eq_imp_distinct_iff mset_map)
  moreover have s: "set ys = set xs" using mset_eq_setD [OF assms(1)] .
  ultimately show ?thesis
    using map_sorted_distinct_set_unique [of f ys xs] d assms(3) by (simp add: distinct_map)
qed

text \<open>The middle part: one item out, a check sum, and the item back in.\<close>

lemma remove_crc_undo:
  assumes "is_list m p zs" "has_data m zs" "3 \<le> length zs"
  shows "\<exists>l r m3 f l3 v. head_at m p = Some l \<and> core_list_remove (nxt l) m = Some (r, m3)
     \<and> core_list_find p d m3 = Some f \<and> head_at m3 p = Some l3
     \<and> crc_loop p (if f = NULL then nxt l3 else f) c m3 = Some v
     \<and> core_list_undo_remove r (nxt l3) m3 = Some (r, m)"
proof -
  obtain a b c' ws where zs: "zs = a # b # c' # ws"
    using assms(3) by (metis (no_types, opaque_lifting) Suc_le_length_iff numeral_3_eq_3)
  with assms(1) have p: "p = a" "a \<noteq> NULL" by auto
  have il: "is_list m p ([a] @ b # c' # ws)" using assms(1) zs by simp
  from core_list_remove_restores [OF il] obtain m3 where
    m3: "core_list_remove b m = Some (c', m3)" "is_list m3 p ([a] @ b # ws)"
      "map (node_data m3) ([a] @ b # ws) = map (node_data m) ([a] @ c' # ws)" "core_list_undo_remove c' b m3 = Some (c', m)"
    by blast
  obtain l where l: "head_at m p = Some l" "nxt l = b"
    using il by (auto simp: head_at_def split: option.splits)
  have l3: "is_list m3 p (a # b # ws)" using m3(2) by simp
  then obtain l3 where l3': "head_at m3 p = Some l3" "nxt l3 = b" by (auto simp: head_at_def split: option.splits)
  have hd3: "has_data m3 (a # b # ws)"
  proof -
    have "list_all (\<lambda>y. y \<noteq> None) (map (node_data m) ([a] @ c' # ws))"
      using assms(2) zs by (simp add: has_data_def list.pred_map o_def)
    then have "list_all (\<lambda>y. y \<noteq> None) (map (node_data m3) ([a] @ b # ws))" by (simp only: m3(3))
    then show ?thesis by (simp add: has_data_def list.pred_map o_def)
  qed
  obtain f where f: "core_list_find p d m3 = Some f" "f = NULL \<or> f \<in> set (a # b # ws)"
    using find_matches [OF l3 hd3] by blast
  obtain w where w: "data16_of p m3 = Some w" using data16_of_node [OF l3 hd3, of p] p by auto
  have "\<exists>ys. is_list m3 (if f = NULL then nxt l3 else f) ys"
  proof (cases "f = NULL")
    case True
    have "is_list m3 b (b # ws)" using path_suffix [of m3 p "[a]" b ws] l3 by simp
    with True l3'(2) show ?thesis by metis
  next
    case False
    with f(2) obtain us vs where "a # b # ws = us @ f # vs" by (meson split_list)
    with l3 have "is_list m3 p (us @ f # vs)" by simp
    then have "is_list m3 f (f # vs)" by (rule path_suffix)
    with False show ?thesis by metis
  qed
  then obtain v where "crc_loop p (if f = NULL then nxt l3 else f) c m3 = Some v" using crc_loop_ok [OF _ w] by blast
  then show ?thesis using l m3(1,4) f(1) l3' by auto
qed

text \<open>The state in the middle of the benchmark: the nodes in some order, the items up to their low
  bytes.\<close>

definition shuffled :: "core_results \<Rightarrow> cmem \<Rightarrow> addr list \<Rightarrow> addr \<Rightarrow> core_results \<Rightarrow> cmem \<Rightarrow> addr list \<Rightarrow> bool" where
  "shuffled re m xs p' re' m' zs \<longleftrightarrow> is_list m' p' zs \<and> mset zs = mset xs \<and> has_data m' zs
     \<and> same_inputs re re' \<and> benches_rel re m m' \<and> items_rel (info_set m xs) m m'
     \<and> (\<forall>x. map_option info (heads m' x) = map_option info (heads m x)) \<and> (\<forall>x. x \<notin> set xs \<longrightarrow> heads m' x = heads m x)"

lemma info_set_perm:
  assumes "mset zs = mset xs" "\<forall>x. map_option info (heads m' x) = map_option info (heads m x)"
  shows "info_set m' zs = info_set m xs"
proof -
  have "info_set m ys = {a. \<exists>x \<in> set ys. map_option info (heads m x) = Some a}" for m ys
    by (auto simp: info_set_def)
  then show ?thesis by (simp only: mset_eq_setD [OF assms(1)] assms(2) [rule_format])
qed

lemma relinked_shuffled:
  assumes "is_list m1 p1 zs" "mset zs = mset xs" "relinked (set xs) m m1" "has_data m xs" "benches_ready re m"
  shows "shuffled re m xs p1 re m1 zs"
proof -
  obtain h where m1: "m1 = m\<lparr>heads := h\<rparr>" using assms(3) by (auto simp: relinked_def)
  have "items_rel (info_set m xs) m m1"
    using has_data_info_set [OF assms(4)] unfolding items_rel_def m1 by simp blast
  moreover have "benches_rel re m m1" using benches_rel_cong [OF benches_rel_refl [OF assms(5)]] by (simp add: m1)
  moreover have "has_data m1 zs" using has_data_relinked [OF assms(3)] has_data_perm [OF assms(2)] assms(4) by simp
  ultimately show ?thesis using assms(1-3) same_inputs_refl by (auto simp: shuffled_def relinked_def)
qed

lemma items_rel_trans:
  assumes "items_rel A m0 m1" "items_rel A m1 m2"
  shows "items_rel A m0 m2"
  unfolding items_rel_def
proof (intro conjI allI impI ballI)
  show "datas m2 a = datas m0 a" if "a \<notin> A" for a using that assms by (simp add: items_rel_def)
  fix a
  assume "a \<in> A"
  with assms obtain d0 d1 d1' d2 where "datas m0 a = Some d0" "datas m1 a = Some d1" "regen_data d1 = regen_data d0"
    "datas m1 a = Some d1'" "datas m2 a = Some d2" "regen_data d2 = regen_data d1'"
    unfolding items_rel_def by meson
  then show "\<exists>d0 d. datas m0 a = Some d0 \<and> datas m2 a = Some d \<and> regen_data d = regen_data d0" by auto
qed

lemma items_rel_has_data:
  assumes "items_rel (info_set m xs) m m'" "has_data m xs" "x \<in> set xs"
    "map_option info (heads m' x) = map_option info (heads m x)"
  shows "\<exists>d d'. node_data m x = Some d \<and> node_data m' x = Some d' \<and> regen_data d' = regen_data d"
proof -
  from assms(2,3) obtain n d where n: "heads m x = Some n" "info n \<in> info_set m xs" "datas m (info n) = Some d"
    "info n \<noteq> NULL" "node_data m x = Some d" by (rule has_data_node)
  obtain n' where "heads m' x = Some n'" "info n' = info n" using assms(4) n(1) by (metis map_option_eq_Some)
  moreover obtain d' where "datas m' (info n) = Some d'" "regen_data d' = regen_data d"
    using assms(1) n(2,3) by (auto simp: items_rel_def)
  ultimately show ?thesis using n by (simp add: node_data_def data_at_def)
qed

lemma node_data_cong: "heads m' = heads m \<Longrightarrow> datas m' = datas m \<Longrightarrow> node_data m' = node_data m"
  unfolding node_data_def data_at_def by (simp only:)

lemma node_data_infos:
  assumes "\<forall>x. map_option info (heads m' x) = map_option info (heads m x)" "datas m' = datas m"
  shows "node_data m' = node_data m"
proof
  fix x
  show "node_data m' x = node_data m x"
    using assms(1) [rule_format, of x] assms(2)
    by (cases "heads m x"; cases "heads m' x") (auto simp: node_data_def data_at_def)
qed

lemma regen_data_idx: "regen_data d' = regen_data d \<Longrightarrow> idx d' = idx d"
  by (metis regen_data_simps(1))

lemma sort_shuffled:
  assumes "shuffled re m xs p re m1 zs" "has_data m xs" "2 \<le> length xs" "length xs < 2 ^ 29" "benches_ready re m"
  shows "\<exists>p' re' m' ys. core_list_mergesort p cmp_complex (Some re) m1 = Some (p', Some re', m')
     \<and> shuffled re m xs p' re' m' ys"
proof -
  from assms(1) have sh: "is_list m1 p zs" "mset zs = mset xs" "has_data m1 zs" "benches_rel re m m1"
    "items_rel (info_set m xs) m m1" "\<forall>x. map_option info (heads m1 x) = map_option info (heads m x)"
    "\<forall>x. x \<notin> set xs \<longrightarrow> heads m1 x = heads m x" by (auto simp: shuffled_def)
  have zs: "set zs = set xs" "length zs = length xs" using mset_eq_setD [OF sh(2)] mset_eq_length [OF sh(2)] by simp_all
  have A: "info_set m1 zs = info_set m xs" using info_set_perm [OF sh(2,6)] .
  from mergesort_val_sorts [OF sh(1) _ _ sh(3) benches_rel_ready [OF assms(5) sh(4)]] assms(3,4) zs(2)
  obtain ys p' re' m' where s: "core_list_mergesort p cmp_complex (Some re) m1 = Some (p', Some re', m')"
    "is_list m' p' ys" "mset ys = mset zs" "same_inputs re re'" "benches_rel re m1 m'" "items_rel (info_set m1 zs) m1 m'"
    "\<forall>x. map_option info (heads m' x) = map_option info (heads m1 x)" "\<forall>x. x \<notin> set zs \<longrightarrow> heads m' x = heads m1 x"
    by auto
  have it: "items_rel (info_set m xs) m m'" using items_rel_trans [OF sh(5)] s(6) A by simp
  have inf: "\<forall>x. map_option info (heads m' x) = map_option info (heads m x)" using s(7) sh(6) by simp
  have "has_data m' ys"
    using items_rel_has_data [OF it assms(2)] inf mset_eq_setD [OF s(3)] zs(1)
    unfolding has_data_def list_all_iff by (metis option.distinct(1))
  then have "shuffled re m xs p' re' m' ys"
    using s sh it inf benches_rel_trans [OF sh(4) s(5)] zs(1) by (simp add: shuffled_def)
  with s(1) show ?thesis by blast
qed

text \<open>The sort by index brings the data of a shuffled list back, and its nodes into the order of
  their indices.\<close>

definition index_sorted :: "cmem \<Rightarrow> addr list \<Rightarrow> addr \<Rightarrow> cmem \<Rightarrow> addr list \<Rightarrow> bool" where
  "index_sorted m xs q m' ys \<longleftrightarrow> is_list m' q ys \<and> mset ys = mset xs \<and> sorted (map (node_idx m) ys) \<and> datas m' = datas m
     \<and> (\<forall>x. map_option info (heads m' x) = map_option info (heads m x)) \<and> (\<forall>x. x \<notin> set xs \<longrightarrow> heads m' x = heads m x)"

lemma regenerated_datas:
  assumes "shuffled re m xs p' re' m' zs" "list_fit p m xs"
    "\<forall>a. e a = (if a \<in> info_set m' zs then map_option regen_data (datas m' a) else datas m' a)"
  shows "e = datas m"
proof
  fix a
  from assms(1) have sh: "items_rel (info_set m xs) m m'" "info_set m' zs = info_set m xs"
    using info_set_perm by (auto simp: shuffled_def)
  show "e a = datas m a"
  proof (cases "a \<in> info_set m xs")
    case False
    then show ?thesis using assms(3) sh by (simp add: items_rel_def)
  next
    case True
    then obtain x n where x: "x \<in> set xs" "heads m x = Some n" "a = info n" by (auto simp: info_set_def)
    from assms(2) x(1) obtain n' d where "heads m x = Some n'" "datas m (info n') = Some d" "node_data m x = Some d"
      by (auto simp: list_fit_def elim: has_data_node)
    moreover have "case node_data m x of None \<Rightarrow> False | Some d \<Rightarrow> fresh (data16 d)"
      using assms(2) x(1) by (auto simp: list_fit_def list_all_iff)
    ultimately have d: "datas m a = Some d" "fresh (data16 d)" using x by auto
    moreover obtain d0 d' where "datas m a = Some d0" "datas m' a = Some d'" "regen_data d' = regen_data d0"
      using sh(1) True unfolding items_rel_def by blast
    ultimately have "e a = Some (regen_data d)" using assms(3) True sh(2) by simp
    then show ?thesis using d regen_data_fresh by simp
  qed
qed

lemma shuffled_sorted:
  assumes "shuffled re m xs p' re' m' zs" "list_fit p m xs"
  shows "\<exists>q h ys. core_list_mergesort p' cmp_idx None m' = Some (q, None, m'\<lparr>heads := h, datas := datas m\<rparr>)
     \<and> index_sorted m xs q (m'\<lparr>heads := h, datas := datas m\<rparr>) ys"
proof -
  from assms(1) have sh: "is_list m' p' zs" "mset zs = mset xs" "has_data m' zs"
    "items_rel (info_set m xs) m m'" "\<forall>x. map_option info (heads m' x) = map_option info (heads m x)"
    "\<forall>x. x \<notin> set xs \<longrightarrow> heads m' x = heads m x" by (auto simp: shuffled_def)
  from assms(2) have rd: "3 \<le> length xs" "length xs < 2 ^ 29" "has_data m xs" by (auto simp: list_fit_def)
  have zs: "set zs = set xs" "length zs = length xs" using mset_eq_setD [OF sh(2)] mset_eq_length [OF sh(2)] by simp_all
  obtain ys q h e where s: "core_list_mergesort p' cmp_idx None m' = Some (q, None, m'\<lparr>heads := h, datas := e\<rparr>)"
    "path h q ys NULL" "mset ys = mset zs" "sorted (map (node_idx m') ys)"
    "\<forall>x. map_option info (h x) = map_option info (heads m' x)" "\<forall>x. x \<notin> set zs \<longrightarrow> h x = heads m' x"
    "\<forall>a. e a = (if a \<in> info_set m' zs then map_option regen_data (datas m' a) else datas m' a)"
    using mergesort_idx_sorts [OF sh(1) _ _ sh(3)] rd(1,2) zs(2) by auto
  have "node_idx m' x = node_idx m x" if "x \<in> set xs" for x
  proof -
    from items_rel_has_data [OF sh(4) rd(3) that] sh(5) obtain d d' where
      "node_data m x = Some d" "node_data m' x = Some d'" "regen_data d' = regen_data d" by blast
    then show ?thesis using regen_data_idx [of d' d] by (simp add: node_idx_def)
  qed
  then have "map (node_idx m') ys = map (node_idx m) ys" using mset_eq_setD [OF s(3)] zs(1) by simp
  with s(4) have "sorted (map (node_idx m) ys)" by simp
  then have "index_sorted m xs q (m'\<lparr>heads := h, datas := datas m\<rparr>) ys"
    using s(2,3,5,6) sh(2,5,6) zs(1) by (simp add: index_sorted_def)
  with s(1) regenerated_datas [OF assms s(7)] show ?thesis by blast
qed

text \<open>The whole benchmark, for any order of the nodes.\<close>

lemma core_bench_list_sorts:
  assumes "list_fit (r_list re) m xs" "benches_ready re m"
  shows "\<exists>crc re' m' q ys. core_bench_list re finder_idx m = Some (crc, re', m') \<and> index_sorted m xs q m' ys
     \<and> same_inputs re re' \<and> benches_rel re m m'"
proof -
  from assms(1) have rd: "is_list m (r_list re) xs" "3 \<le> length xs" "2 \<le> length xs" "length xs < 2 ^ 29" "has_data m xs"
    by (auto simp: list_fit_def)
  let ?v = "\<lparr>v_list = r_list re, v_retval = 0, v_found = 0, v_missed = 0, v_info = \<lparr>data16 = 0, idx = finder_idx\<rparr>\<rparr>"
  obtain v m1 ws where 1: "find_steps (r_seed3 re) 0 ?v m = Some (v, m1)" "is_list m1 (v_list v) ws" "mset ws = mset xs"
    "relinked (set xs) m m1" using find_steps_ok [of m ?v xs "r_seed3 re" 0] rd by auto
  have sh1: "shuffled re m xs (v_list v) re m1 ws" using relinked_shuffled [OF 1(2-4) rd(5) assms(2)] .
  obtain p2 re2 m2 zs where 2: "(if 0 < sint finder_idx then core_list_mergesort (v_list v) cmp_complex (Some re) m1
      else Some (v_list v, Some re, m1)) = Some (p2, Some re2, m2)" "shuffled re m xs p2 re2 m2 zs"
  proof (cases "0 < sint finder_idx")
    case True
    with sort_shuffled [OF sh1 rd(5,3,4) assms(2)] that show thesis by auto
  next
    case False
    with sh1 that show thesis by auto
  qed
  have zs: "is_list m2 p2 zs" "has_data m2 zs" "3 \<le> length zs"
    using 2(2) rd(2) mset_eq_length [of zs xs] by (auto simp: shuffled_def)
  let ?c = "v_retval v + ucast (promote_u16 (v_found v) * 4 - promote_u16 (v_missed v))"
  obtain l r m3 f l3 c3 where 3: "head_at m2 p2 = Some l" "core_list_remove (nxt l) m2 = Some (r, m3)"
    "core_list_find p2 (v_info v) m3 = Some f" "head_at m3 p2 = Some l3"
    "crc_loop p2 (if f = NULL then nxt l3 else f) ?c m3 = Some c3" "core_list_undo_remove r (nxt l3) m3 = Some (r, m2)"
    using remove_crc_undo [OF zs, of "v_info v" ?c] by blast
  obtain q h ys where 4: "core_list_mergesort p2 cmp_idx None m2 = Some (q, None, m2\<lparr>heads := h, datas := datas m\<rparr>)"
    "index_sorted m xs q (m2\<lparr>heads := h, datas := datas m\<rparr>) ys" using shuffled_sorted [OF 2(2) assms(1)] by blast
  let ?m = "m2\<lparr>heads := h, datas := datas m\<rparr>"
  have il: "is_list ?m q ys" "has_data ?m ys" "2 \<le> length ys"
    using 4(2) rd(3,5) mset_eq_length [of ys xs] has_data_perm [of ys xs m] node_data_infos [of ?m m]
    by (auto simp: index_sorted_def has_data_def)
  obtain a b cs where ys: "ys = a # b # cs" using il(3) by (metis (no_types, opaque_lifting) Suc_le_length_iff numeral_2_eq_2)
  then obtain l4 where l4: "head_at ?m q = Some l4" "is_list ?m (nxt l4) (b # cs)"
    using il(1) by (auto simp: head_at_def split: option.splits)
  obtain w where "data16_of q ?m = Some w" using data16_of_node [OF il(1,2), of a] ys il(1) by auto
  then obtain c4 where 5: "crc_loop q (nxt l4) c3 ?m = Some c4" using crc_loop_ok [OF l4(2)] by blast
  have "core_bench_list re finder_idx m = Some (c4, re2, ?m)"
    unfolding core_bench_list_def Let_def using 1(1) 2(1) 3 4(1) l4(1) 5 by simp
  moreover have "same_inputs re re2" "benches_rel re m ?m"
    using 2(2) by (auto simp: shuffled_def intro: benches_rel_cong)
  ultimately show ?thesis using 4(2) by blast
qed

lemma core_bench_list_runs:
  assumes "list_ready (r_list re) m xs" "benches_ready re m"
  shows "\<exists>crc re' m'. core_bench_list re finder_idx m = Some (crc, re', m') \<and> heads m' = heads m \<and> datas m' = datas m
     \<and> same_inputs re re' \<and> benches_rel re m m'"
proof -
  from assms(1) have rd: "list_fit (r_list re) m xs" "is_list m (r_list re) xs" "sorted_wrt (<) (map (node_idx m) xs)"
    by (simp_all add: list_ready_def list_fit_def)
  obtain crc re' m' q ys where b: "core_bench_list re finder_idx m = Some (crc, re', m')" "index_sorted m xs q m' ys"
    "same_inputs re re'" "benches_rel re m m'" using core_bench_list_sorts [OF rd(1) assms(2)] by blast
  from b(2) have s: "is_list m' q ys" "mset ys = mset xs" "sorted (map (node_idx m) ys)" "datas m' = datas m"
    "\<forall>x. map_option info (heads m' x) = map_option info (heads m x)" "\<forall>x. x \<notin> set xs \<longrightarrow> heads m' x = heads m x"
    by (simp_all add: index_sorted_def)
  have ys: "ys = xs" by (rule strictly_sorted_unique [OF s(2) rd(3) s(3)])
  have "heads m' = heads m"
  proof
    fix x
    show "heads m' x = heads m x"
      using path_unique_heap [OF s(1) [unfolded ys] rd(2) s(5)] s(6) by (cases "x \<in> set xs") auto
  qed
  with b s(4) show ?thesis by blast
qed

text \<open>Cutting a sorted list at its header loses no node with a greater index.\<close>

lemma sorted_from:
  fixes f :: "'a \<Rightarrow> 'b :: linorder"
  assumes "sorted (map f (us @ p # vs))" "x \<in> set (us @ p # vs)" "f p < f x"
  shows "x \<in> set (p # vs)"
  using assms by (auto simp: sorted_append)

lemma index_sorted_usable:
  assumes "index_sorted m xs q m' ys" "list_usable p m xs"
  shows "\<exists>vs. list_usable p m' vs \<and> set vs \<subseteq> set xs \<and> above p m' vs = above p m xs"
proof -
  from assms(1) have s: "is_list m' q ys" "mset ys = mset xs" "sorted (map (node_idx m) ys)" "datas m' = datas m"
    "\<forall>x. map_option info (heads m' x) = map_option info (heads m x)" by (simp_all add: index_sorted_def)
  from assms(2) have u: "is_list m p xs" "3 \<le> length xs" "length xs < 2 ^ 29" "has_data m xs"
    "list_all (\<lambda>x. case node_data m x of None \<Rightarrow> False | Some d \<Rightarrow> fresh (data16 d)) xs"
    "\<forall>x \<in> set xs. node_idx m p \<le> node_idx m x" "2 \<le> card (above p m xs)" by (auto simp: list_usable_def list_fit_def)
  have nd: "node_data m' = node_data m" using node_data_infos [OF s(5,4)] .
  then have ni: "node_idx m' = node_idx m" by (simp add: node_idx_def fun_eq_iff)
  have ys: "set ys = set xs" "length ys = length xs" using mset_eq_setD [OF s(2)] mset_eq_length [OF s(2)] by simp_all
  have "p \<in> set ys" using u(1,2) ys(1) by (cases xs) auto
  then obtain us vs where v: "ys = us @ p # vs" by (meson split_list)
  have l: "is_list m' p (p # vs)" using path_suffix [of m' q us p vs] s(1) v by simp
  have sub: "set (p # vs) \<subseteq> set xs" using v ys(1) by auto
  have ab: "above p m' (p # vs) = above p m xs"
  proof (intro set_eqI iffI)
    show "x \<in> above p m xs" if "x \<in> above p m' (p # vs)" for x
      using that sub by (simp add: above_def ni) blast
    show "x \<in> above p m' (p # vs)" if "x \<in> above p m xs" for x
      using that sorted_from [OF s(3) [unfolded v], of x] ys(1) [unfolded v, symmetric] by (simp add: above_def ni)
  qed
  have "above p m xs \<subseteq> set vs" unfolding ab [symmetric] by (auto simp: above_def)
  then have "2 \<le> card (set vs)" using u(7) card_mono [of "set vs" "above p m xs"] by simp
  then have len: "3 \<le> length (p # vs)" "length (p # vs) < 2 ^ 29" using card_length [of vs] u(3) ys(2) v by simp_all
  have hd: "has_data m' (p # vs)" using u(4) sub unfolding has_data_def list_all_iff nd by blast
  have fr: "list_all (\<lambda>x. case node_data m' x of None \<Rightarrow> False | Some d \<Rightarrow> fresh (data16 d)) (p # vs)"
    using u(5) sub unfolding list_all_iff nd by blast
  have least: "\<forall>x \<in> set (p # vs). node_idx m' p \<le> node_idx m' x" using u(6) sub unfolding ni by blast
  have "list_usable p m' (p # vs)" unfolding list_usable_def list_fit_def ab by (intro conjI l len hd fr least u(7))
  then show ?thesis using sub ab by (intro exI conjI)
qed

lemma core_bench_list_usable:
  assumes "list_usable (r_list re) m xs" "benches_ready re m"
  shows "\<exists>crc re' m' ys. core_bench_list re finder_idx m = Some (crc, re', m') \<and> list_usable (r_list re') m' ys
     \<and> set ys \<subseteq> set xs \<and> above (r_list re') m' ys = above (r_list re) m xs \<and> datas m' = datas m
     \<and> same_inputs re re' \<and> benches_rel re m m'"
proof -
  have "list_fit (r_list re) m xs" using assms(1) by (simp add: list_usable_def)
  from core_bench_list_sorts [OF this assms(2)] obtain crc re' m' q ys where
    b: "core_bench_list re finder_idx m = Some (crc, re', m')" "index_sorted m xs q m' ys" "same_inputs re re'" "benches_rel re m m'"
    by blast
  moreover have "r_list re' = r_list re" using b(3) by (rule same_inputs_fields)
  moreover have "datas m' = datas m" using b(2) by (simp add: index_sorted_def)
  ultimately show ?thesis using index_sorted_usable [OF b(2) assms(1)] by metis
qed

text \<open>
  C3: the list benchmark leaves the list as it was. When the list is sorted by strictly increasing
  indices, with fresh data, and the other benchmarks can run, \<^verbatim>\<open>core_bench_list\<close> returns for every
  search index and number of searches: all its loops end and all its accesses are inside the
  cells it was given. All list heads and all data items are then exactly what they were, although
  it reverses, rearranges and sorts the list and caches values in the items. Of the inputs only
  the check sums change, and of the other arrays only the state block (which is restored when
  the corruption can be undone) and the result matrix.
\<close>

theorem core_bench_list_restores:
  assumes "list_ready (r_list re) m xs" "benches_ready re m"
  shows "\<exists>crc re' m'. core_bench_list re finder_idx m = Some (crc, re', m') \<and> heads m' = heads m \<and> datas m' = datas m
     \<and> same_inputs re re' \<and> benches_rel re m m'"
  using assms by (rule core_bench_list_runs)

lemma small_list_ready: "list_ready 8 small_mem [8, 16, 24]"
  by (simp add: list_ready_def list_fit_def small_mem_def three_cells_def has_data_def node_data_def data_at_def node_idx_def fresh_def
      regen_def)

theorem core_bench_list_restores_witness:
  "\<exists>crc re' m'. core_bench_list small_results 1 small_mem = Some (crc, re', m')
     \<and> heads m' = heads small_mem \<and> datas m' = datas small_mem
     \<and> same_inputs small_results re' \<and> benches_rel small_results small_mem m'"
proof -
  have "list_ready (r_list small_results) small_mem [8, 16, 24]" using small_list_ready by (simp add: small_results_def)
  from core_bench_list_restores [OF this small_ready] show ?thesis .
qed

text \<open>
  C4: the list benchmark can always run again. On a list in any order in which no index is less than
  that of the header and at least two are greater, \<^verbatim>\<open>core_bench_list\<close> returns for every search index
  and number of searches, and what hangs on the header then is again such a list. When another
  node has the index of the header it can come before the header and drop out, but never a node
  with a greater index; the data items are what they were.
\<close>

theorem core_bench_list_repeatable:
  assumes "list_usable (r_list re) m xs" "benches_ready re m"
  shows "\<exists>crc re' m' ys. core_bench_list re finder_idx m = Some (crc, re', m') \<and> list_usable (r_list re') m' ys
     \<and> set ys \<subseteq> set xs \<and> above (r_list re') m' ys = above (r_list re) m xs \<and> datas m' = datas m
     \<and> same_inputs re re' \<and> benches_rel re m m'"
  using core_bench_list_usable [OF assms] by blast

theorem core_bench_list_repeatable_witness:
  "\<exists>crc re' m' ys. core_bench_list small_results (- 1) small_mem = Some (crc, re', m') \<and> list_usable (r_list re') m' ys
     \<and> above (r_list re') m' ys = {16, 24}"
proof -
  have "list_usable (r_list small_results) small_mem [8, 16, 24]"
    using list_ready_usable [OF small_list_ready] by (simp add: small_results_def)
  moreover have "above (r_list small_results) small_mem [8, 16, 24] = {16, 24}"
    by (auto simp: above_def small_results_def small_mem_def three_cells_def node_idx_def node_data_def data_at_def)
  ultimately show ?thesis using core_bench_list_repeatable [OF _ small_ready, of "[8, 16, 24]" "- 1"] by metis
qed

end
