(* ===== verification/ListInit.thy ===== *)
theory ListInit
  imports ListBench
begin

text \<open>
  The initialisation \<^verbatim>\<open>core_list_init\<close> of \<^verbatim>\<open>coremark/core_list_join.c\<close>: it carves the cells
  out of the block, inserts them behind the header, numbers them and sorts by these numbers.
\<close>

section \<open>Initialisation\<close>

definition init_item :: "ee_s16 \<Rightarrow> ee_u32 \<Rightarrow> ee_s16" where
  "init_item sd i =
     (let datpat = (ucast (promote_s16 sd XOR i) AND 0xf :: ee_u16);
          dat = (ucast (push_bit 3 (promote_u16 datpat) OR (i AND 0x7)) :: ee_u16)
      in ucast (push_bit 8 (promote_u16 dat) OR promote_u16 dat))"

definition insert_items ::
  "ee_u32 \<Rightarrow> addr \<Rightarrow> ee_s16 \<Rightarrow> addr \<Rightarrow> addr \<Rightarrow> addr \<times> addr \<times> list_data \<times> cmem \<Rightarrow> (addr \<times> addr \<times> list_data \<times> cmem) option" where
  "insert_items sz list sd memblock_end datablock_end s =
     for_u32 0 sz (\<lambda>i (memblock, datablock, inf_d, m). do {
       let inf_d = inf_d\<lparr>data16 := init_item sd i\<rparr>;
       (_, memblock, datablock, m) \<leftarrow>
         core_list_insert_new list inf_d memblock datablock memblock_end datablock_end m;
       Some (memblock, datablock, inf_d, m) }) s"

definition set_idx :: "addr \<Rightarrow> ee_s16 \<Rightarrow> cmem \<Rightarrow> cmem option" where
  "set_idx p v m = do {
     n \<leftarrow> head_at m p;
     d \<leftarrow> data_at m (info n);
     put_data (info n) (d\<lparr>idx := v\<rparr>) m }"

text \<open>The index a node gets when the counter is \<open>i\<close>; the counter is incremented in between.\<close>

definition index_of :: "ee_u32 \<Rightarrow> ee_s16 \<Rightarrow> ee_u32 \<Rightarrow> ee_s16" where
  "index_of sz sd i =
     (if i < sz div 5 then ucast i
      else let pat = (ucast (i XOR promote_s16 sd) :: ee_u16); i = i + 1
           in ucast (0x3fff AND (push_bit 8 (i AND 0x07) OR promote_u16 pat)))"

partial_function (option) index_loop :: "ee_u32 \<Rightarrow> ee_s16 \<Rightarrow> addr \<Rightarrow> ee_u32 \<Rightarrow> cmem \<Rightarrow> cmem option" where
  "index_loop sz sd finder i m = do {
     f \<leftarrow> head_at m finder;
     if nxt f \<noteq> NULL then do {
       m \<leftarrow> set_idx finder (index_of sz sd i) m;
       f \<leftarrow> head_at m finder;
       index_loop sz sd (nxt f) (i + 1) m }
     else Some m }"

declare index_loop.simps [code]

abbreviation per_item :: ee_u32 where "per_item \<equiv> 16 + sizeof_list_data"

definition core_list_init :: "ee_u32 \<Rightarrow> addr \<Rightarrow> ee_s16 \<Rightarrow> cmem \<Rightarrow> (addr \<times> cmem) option" where
  "core_list_init blksize memblock sd m = do {
     let sz = blksize div per_item - 2;
     let memblock_end = memblock + sizeof_list_head * sz;
     let datablock = memblock_end;
     let datablock_end = datablock + sizeof_list_data * sz;
     let list = memblock;
     m \<leftarrow> set_nxt list NULL m;
     m \<leftarrow> set_info list datablock m;
     d \<leftarrow> data_at m datablock;
     m \<leftarrow> put_data datablock (d\<lparr>idx := 0, data16 := 0x8080\<rparr>) m;
     let memblock = memblock + sizeof_list_head;
     let datablock = datablock + sizeof_list_data;
     let inf_d = \<lparr>data16 = 0xffff, idx = 0x7fff\<rparr>;
     (_, memblock, datablock, m) \<leftarrow>
       core_list_insert_new list inf_d memblock datablock memblock_end datablock_end m;
     (_, _, _, m) \<leftarrow> insert_items sz list sd memblock_end datablock_end (memblock, datablock, inf_d, m);
     l \<leftarrow> head_at m list;
     m \<leftarrow> index_loop sz sd (nxt l) 1 m;
     (list, _, m) \<leftarrow> core_list_mergesort list cmp_idx None m;
     Some (list, m) }"

section \<open>The cells of the block\<close>

definition node_at :: "addr \<Rightarrow> nat \<Rightarrow> addr" where
  "node_at base i = base + 8 * word_of_nat i"

definition item_at :: "addr \<Rightarrow> nat \<Rightarrow> nat \<Rightarrow> addr" where
  "item_at base N i = base + 8 * word_of_nat N + 4 * word_of_nat i"

text \<open>The block at \<open>base\<close> has room for \<open>N\<close> heads and \<open>N\<close> items, whatever they hold.\<close>

definition region :: "addr \<Rightarrow> nat \<Rightarrow> cmem \<Rightarrow> bool" where
  "region base N m \<longleftrightarrow> base \<noteq> NULL \<and> unat base + 12 * N < 2 ^ 32
     \<and> list_all (\<lambda>i. heads m (node_at base i) \<noteq> None \<and> datas m (item_at base N i) \<noteq> None) [0..<N]"

lemma unat_small_mult: "c * n < 2 ^ 32 \<Longrightarrow> unat (word_of_nat (c * n) :: 32 word) = c * n"
  by (simp only: unat_of_nat) (simp add: take_bit_nat_eq_self)

lemma unat_node_at:
  assumes "unat base + 8 * i < 2 ^ 32"
  shows "unat (node_at base i) = unat base + 8 * i"
proof -
  have "node_at base i = base + word_of_nat (8 * i)" by (simp add: node_at_def)
  moreover have "unat (word_of_nat (8 * i) :: 32 word) = 8 * i" using assms by (intro unat_small_mult) simp
  ultimately show ?thesis using assms by (simp add: unat_word_ariths)
qed

lemma unat_item_at:
  assumes "unat base + 8 * N + 4 * i < 2 ^ 32"
  shows "unat (item_at base N i) = unat base + 8 * N + 4 * i"
proof -
  have "item_at base N i = node_at base N + word_of_nat (4 * i)" by (simp add: item_at_def node_at_def)
  moreover have "unat (word_of_nat (4 * i) :: 32 word) = 4 * i" using assms by (intro unat_small_mult) simp
  ultimately show ?thesis using assms unat_node_at [of base N] by (simp add: unat_word_ariths)
qed

lemma node_at_Suc: "node_at base (Suc i) = node_at base i + 8"
  by (simp add: node_at_def algebra_simps)

lemma item_at_Suc: "item_at base N (Suc i) = item_at base N i + 4"
  by (simp add: item_at_def algebra_simps)

lemma node_at_0 [simp]: "node_at base 0 = base"
  by (simp add: node_at_def)

lemma item_at_0: "item_at base N 0 = node_at base N"
  by (simp add: item_at_def node_at_def)

lemma node_at_eq:
  assumes "unat base + 12 * N < 2 ^ 32" "i \<le> N" "j \<le> N"
  shows "node_at base i = node_at base j \<longleftrightarrow> i = j" "node_at base i < node_at base j \<longleftrightarrow> i < j"
proof -
  have "unat (node_at base i) = unat base + 8 * i" "unat (node_at base j) = unat base + 8 * j"
    using assms by (simp_all add: unat_node_at)
  then show "node_at base i = node_at base j \<longleftrightarrow> i = j" "node_at base i < node_at base j \<longleftrightarrow> i < j"
    by (auto simp: word_unat_eq_iff word_less_nat_alt)
qed

lemma item_at_eq:
  assumes "unat base + 12 * N < 2 ^ 32" "i \<le> N" "j \<le> N"
  shows "item_at base N i = item_at base N j \<longleftrightarrow> i = j" "item_at base N i < item_at base N j \<longleftrightarrow> i < j"
proof -
  have "unat (item_at base N i) = unat base + 8 * N + 4 * i" "unat (item_at base N j) = unat base + 8 * N + 4 * j"
    using assms by (simp_all add: unat_item_at)
  then show "item_at base N i = item_at base N j \<longleftrightarrow> i = j" "item_at base N i < item_at base N j \<longleftrightarrow> i < j"
    by (auto simp: word_unat_eq_iff word_less_nat_alt)
qed

lemma cells_not_NULL:
  assumes "base \<noteq> NULL" "unat base + 12 * N < 2 ^ 32" "i \<le> N"
  shows "node_at base i \<noteq> NULL" "item_at base N i \<noteq> NULL"
proof -
  have "unat base \<noteq> 0" using assms(1) by (simp add: unat_eq_0)
  moreover have "unat (node_at base i) = unat base + 8 * i" using assms by (simp add: unat_node_at)
  moreover have "unat (item_at base N i) = unat base + 8 * N + 4 * i" using assms by (simp add: unat_item_at)
  ultimately show "node_at base i \<noteq> NULL" "item_at base N i \<noteq> NULL" by auto
qed

section \<open>Insertion of the items\<close>

text \<open>The first \<open>k\<close> cells in list cell_order: the header, then the others, the last one first.\<close>

definition cell_order :: "addr \<Rightarrow> nat \<Rightarrow> addr list" where
  "cell_order base k = base # rev (map (node_at base) [1..<k])"

lemma cell_order_Suc: "1 \<le> k \<Longrightarrow> cell_order base (Suc k) = base # node_at base k # rev (map (node_at base) [1..<k])"
  by (simp add: cell_order_def)

text \<open>The data of the cells before they are numbered.\<close>

definition start_data :: "ee_s16 \<Rightarrow> nat \<Rightarrow> list_data" where
  "start_data sd i = (if i = 0 then \<lparr>data16 = 0x8080, idx = 0\<rparr> else if i = 1 then \<lparr>data16 = 0xffff, idx = 0x7fff\<rparr>
     else \<lparr>data16 = init_item sd (word_of_nat (i - 2)), idx = 0x7fff\<rparr>)"

definition built :: "addr \<Rightarrow> nat \<Rightarrow> ee_s16 \<Rightarrow> nat \<Rightarrow> cmem \<Rightarrow> cmem \<Rightarrow> bool" where
  "built base N sd k m0 m \<longleftrightarrow> region base N m \<and> is_list m base (cell_order base k)
     \<and> (\<forall>i < k. \<exists>n. heads m (node_at base i) = Some n \<and> info n = item_at base N i)
     \<and> (\<forall>i < k. datas m (item_at base N i) = Some (start_data sd i))
     \<and> (\<exists>h e. m = m0\<lparr>heads := h, datas := e\<rparr>)"

lemma cells_only:
  assumes "\<exists>h e. m = m0\<lparr>heads := h, datas := e\<rparr>"
  shows "\<exists>h e. m\<lparr>heads := a, datas := b\<rparr> = m0\<lparr>heads := h, datas := e\<rparr>"
proof -
  from assms have "m\<lparr>heads := a, datas := b\<rparr> = m0\<lparr>heads := a, datas := b\<rparr>" by auto
  then show ?thesis by blast
qed

lemma region_cells:
  "region base N m \<Longrightarrow> i < N \<Longrightarrow> \<exists>n d. heads m (node_at base i) = Some n \<and> datas m (item_at base N i) = Some d"
  by (auto simp: region_def list_all_iff)

lemma region_upd:
  "region base N m \<Longrightarrow> region base N (m\<lparr>heads := (heads m)(a \<mapsto> x, b \<mapsto> y), datas := (datas m)(c \<mapsto> z)\<rparr>)"
  by (auto simp: region_def list_all_iff)

lemma insert_built:
  assumes "built base N sd k m0 m" "1 \<le> k" "Suc k < N" "d = start_data sd k"
  shows "\<exists>m'. core_list_insert_new base d (node_at base k) (item_at base N k) (node_at base N) (item_at base N N) m
      = Some (node_at base k, node_at base (Suc k), item_at base N (Suc k), m') \<and> built base N sd (Suc k) m0 m'"
proof -
  from assms(1) have b: "region base N m" "is_list m base (cell_order base k)"
    "\<forall>i < k. \<exists>n. heads m (node_at base i) = Some n \<and> info n = item_at base N i"
    "\<forall>i < k. datas m (item_at base N i) = Some (start_data sd i)" "\<exists>h e. m = m0\<lparr>heads := h, datas := e\<rparr>"
    by (auto simp: built_def)
  have r: "base \<noteq> NULL" "unat base + 12 * N < 2 ^ 32" using b(1) by (auto simp: region_def)
  obtain c d0 where cell: "heads m (node_at base k) = Some c" "datas m (item_at base N k) = Some d0"
    using region_cells [OF b(1), of k] assms(3) by auto
  obtain n where n: "heads m base = Some n" "info n = item_at base N 0" "path (heads m) (nxt n) (rev (map (node_at base) [1..<k])) NULL"
    using b(2,3) assms(2) by (auto simp: cell_order_def split: option.splits)
  have room: "node_at base k + 8 < node_at base N" "item_at base N k + 4 < item_at base N N"
    using node_at_eq(2) [OF r(2), of "Suc k" N] item_at_eq(2) [OF r(2), of "Suc k" N] assms(3)
    by (simp_all add: node_at_Suc item_at_Suc)
  have ne: "node_at base k \<noteq> base" using node_at_eq(1) [OF r(2), of k 0] assms(2,3) by simp
  let ?m = "m\<lparr>heads := (heads m)(base \<mapsto> n\<lparr>nxt := node_at base k\<rparr>,
      node_at base k \<mapsto> c\<lparr>nxt := nxt n, info := item_at base N k\<rparr>), datas := (datas m)(item_at base N k \<mapsto> d)\<rparr>"
  have "core_list_insert_new base d (node_at base k) (item_at base N k) (node_at base N) (item_at base N N) m
      = Some (node_at base k, node_at base k + 8, item_at base N k + 4, ?m)"
    using assms(3) cells_not_NULL [OF r, of k] by (intro core_list_insert_new_eq [OF room n(1) r(1) ne _ cell]) simp_all
  moreover have "built base N sd (Suc k) m0 ?m"
    unfolding built_def
  proof (intro conjI)
    show "region base N ?m" using region_upd [OF b(1)] .
    have notin: "node_at base k \<notin> set (rev (map (node_at base) [1..<k]))" "base \<notin> set (rev (map (node_at base) [1..<k]))"
    proof -
      have "node_at base k \<noteq> node_at base x" "base \<noteq> node_at base x" if "1 \<le> x" "x < k" for x
        using node_at_eq(1) [OF r(2), of k x] node_at_eq(1) [OF r(2), of 0 x] assms(3) that by auto
      then show "node_at base k \<notin> set (rev (map (node_at base) [1..<k]))" "base \<notin> set (rev (map (node_at base) [1..<k]))"
        unfolding set_rev set_map set_upt image_iff by (metis atLeastLessThan_iff)+
    qed
    show "is_list ?m base (cell_order base (Suc k))"
      using n(3) r(1) ne notin cells_not_NULL(1) [OF r, of k] assms(2,3) by (simp add: cell_order_Suc)
    show "\<forall>i < Suc k. \<exists>n. heads ?m (node_at base i) = Some n \<and> info n = item_at base N i"
    proof (intro allI impI)
      fix i
      assume "i < Suc k"
      then consider "i = 0" | "i = k" | "0 < i" "i < k" using assms(2) by linarith
      then show "\<exists>n. heads ?m (node_at base i) = Some n \<and> info n = item_at base N i"
      proof cases
        case 3
        then have "node_at base i \<noteq> base" "node_at base i \<noteq> node_at base k"
          using node_at_eq(1) [OF r(2), of i 0] node_at_eq(1) [OF r(2), of i k] assms(3) by auto
        with 3 b(3) show ?thesis by simp
      qed (use n ne in auto)
    qed
    show "\<forall>i < Suc k. datas ?m (item_at base N i) = Some (start_data sd i)"
      using b(4) assms(3,4) item_at_eq(1) [OF r(2), of _ k] by (auto simp: less_Suc_eq)
    show "\<exists>h e. ?m = m0\<lparr>heads := h, datas := e\<rparr>" using cells_only [OF b(5)] .
  qed
  ultimately show ?thesis by (simp add: node_at_Suc item_at_Suc)
qed

lemma insert_full:
  assumes "built base N sd k m0 m" "Suc k = N"
  shows "core_list_insert_new base d (node_at base k) (item_at base N k) (node_at base N) (item_at base N N) m
      = Some (NULL, node_at base k, item_at base N k, m)"
  using assms(2) by (auto simp: core_list_insert_new_def simp flip: node_at_Suc)

text \<open>The loop inserts items while there is room for them.\<close>

lemma insert_items_built:
  assumes "built base N sd 2 m0 m" "4 \<le> N" "unat sz = N"
  shows "\<exists>mb db d m'. insert_items sz base sd (node_at base N) (item_at base N N)
        (node_at base 2, item_at base N 2, \<lparr>data16 = 0xffff, idx = 0x7fff\<rparr>, m) = Some (mb, db, d, m')
     \<and> built base N sd (N - 1) m0 m'"
proof -
  let ?I = "\<lambda>i (mb, db, d, m'). mb = node_at base (min (2 + i) (N - 1)) \<and> db = item_at base N (min (2 + i) (N - 1))
     \<and> idx d = 0x7fff \<and> built base N sd (min (2 + i) (N - 1)) m0 m'"
  let ?f = "\<lambda>i (memblock, datablock, inf_d, m). do {
       let inf_d = inf_d\<lparr>data16 := init_item sd i\<rparr>;
       (_, memblock, datablock, m) \<leftarrow>
         core_list_insert_new base inf_d memblock datablock (node_at base N) (item_at base N N) m;
       Some (memblock, datablock, inf_d, m) }"
  let ?s = "(node_at base 2, item_at base N 2, \<lparr>data16 = 0xffff, idx = 0x7fff\<rparr>, m)"
  have "\<exists>s'. for_u32 0 sz ?f ?s = Some s' \<and> ?I (unat sz) s'"
  proof (rule for_u32_rule)
    show "?I (unat (0 :: 32 word)) ?s" using assms(1,2) by (simp add: min_absorb1)
    fix i :: nat and s :: "addr \<times> addr \<times> list_data \<times> cmem"
    assume i: "i < unat sz" and I: "?I i s"
    obtain mb db d m' where s: "s = (mb, db, d, m')" by (metis prod.exhaust)
    show "\<exists>s'. ?f (word_of_nat i) s = Some s' \<and> ?I (Suc i) s'"
    proof (cases "Suc (2 + i) < N")
      case True
      then have k: "min (2 + i) (N - 1) = 2 + i" "min (2 + Suc i) (N - 1) = Suc (2 + i)" by simp_all
      have I': "mb = node_at base (2 + i)" "db = item_at base N (2 + i)" "idx d = 0x7fff" "built base N sd (2 + i) m0 m'"
        using I s k(1) by simp_all
      have eq: "d\<lparr>data16 := init_item sd (word_of_nat i)\<rparr> = start_data sd (2 + i)"
        using I'(3) by (cases d) (simp add: start_data_def)
      from insert_built [OF I'(4) _ True refl] obtain m'' where
        m'': "core_list_insert_new base (start_data sd (2 + i)) (node_at base (2 + i)) (item_at base N (2 + i))
            (node_at base N) (item_at base N N) m'
          = Some (node_at base (2 + i), node_at base (Suc (2 + i)), item_at base N (Suc (2 + i)), m'')"
          "built base N sd (Suc (2 + i)) m0 m''" by auto
      have "?f (word_of_nat i) s = Some (node_at base (Suc (2 + i)), item_at base N (Suc (2 + i)), start_data sd (2 + i), m'')"
        unfolding s I'(1,2) prod.case Let_def eq m''(1) by simp
      moreover have "idx (start_data sd (2 + i)) = 0x7fff" by (simp add: start_data_def)
      ultimately show ?thesis using m''(2) k(2) by auto
    next
      case False
      then have k: "min (2 + i) (N - 1) = N - 1" "min (2 + Suc i) (N - 1) = N - 1" using assms(2) by simp_all
      with insert_full [of base N sd "N - 1" m0 m'] I s assms(2)
      show ?thesis by auto
    qed
  qed simp
  moreover have "min (2 + unat sz) (N - 1) = N - 1" using assms(3) by simp
  ultimately show ?thesis unfolding insert_items_def by auto
qed

section \<open>Numbering\<close>

lemma set_idx_eq:
  "p \<noteq> NULL \<Longrightarrow> heads m p = Some n \<Longrightarrow> info n \<noteq> NULL \<Longrightarrow> datas m (info n) = Some d
    \<Longrightarrow> set_idx p v m = Some (m\<lparr>datas := (datas m)(info n \<mapsto> d\<lparr>idx := v\<rparr>)\<rparr>)"
  by (simp add: set_idx_def head_at_def data_at_def put_data_def)

lemma index_loop_numbers:
  assumes "is_list m p (ys @ [t])" "\<forall>x \<in> set ys. \<exists>n d. heads m x = Some n \<and> info n = g x \<and> g x \<noteq> NULL \<and> datas m (g x) = Some d"
    "distinct (map g ys)"
  shows "\<exists>e. index_loop sz sd p i m = Some (m\<lparr>datas := e\<rparr>)
     \<and> (\<forall>j < length ys. e (g (ys ! j)) = map_option (\<lambda>d. d\<lparr>idx := index_of sz sd (i + word_of_nat j)\<rparr>) (datas m (g (ys ! j))))
     \<and> (\<forall>a. a \<notin> g ` set ys \<longrightarrow> e a = datas m a)"
  using assms
proof (induction ys arbitrary: p i m)
  case Nil
  then obtain n where "head_at m p = Some n" "nxt n = NULL" by (auto simp: head_at_def split: option.splits)
  then show ?case by (subst index_loop.simps) (auto intro!: exI [of _ "datas m"])
next
  case (Cons y ys)
  from Cons.prems(1) obtain n where n: "p = y" "y \<noteq> NULL" "heads m y = Some n" "path (heads m) (nxt n) (ys @ [t]) NULL"
    by (auto split: option.splits)
  from Cons.prems(2) n(3) obtain d where d: "info n = g y" "g y \<noteq> NULL" "datas m (g y) = Some d" by auto
  have nn: "nxt n \<noteq> NULL" using n(4) by (cases ys) auto
  let ?m = "m\<lparr>datas := (datas m)(g y \<mapsto> d\<lparr>idx := index_of sz sd i\<rparr>)\<rparr>"
  have g: "g y \<notin> g ` set ys" "distinct (map g ys)" using Cons.prems(3) by auto
  have "\<forall>x \<in> set ys. \<exists>n d. heads ?m x = Some n \<and> info n = g x \<and> g x \<noteq> NULL \<and> datas ?m (g x) = Some d"
  proof
    fix x
    assume x: "x \<in> set ys"
    then have "g x \<noteq> g y" using g(1) by (metis image_eqI)
    with x Cons.prems(2) show "\<exists>n d. heads ?m x = Some n \<and> info n = g x \<and> g x \<noteq> NULL \<and> datas ?m (g x) = Some d" by simp
  qed
  moreover have "is_list ?m (nxt n) (ys @ [t])" using n(4) by simp
  ultimately obtain e where e: "index_loop sz sd (nxt n) (i + 1) ?m = Some (?m\<lparr>datas := e\<rparr>)"
      "\<forall>j < length ys. e (g (ys ! j)) = map_option (\<lambda>d. d\<lparr>idx := index_of sz sd (i + 1 + word_of_nat j)\<rparr>) (datas ?m (g (ys ! j)))"
      "\<forall>a. a \<notin> g ` set ys \<longrightarrow> e a = datas ?m a" using Cons.IH [of ?m "nxt n" "i + 1"] g(2) by blast
  have "index_loop sz sd p i m = Some (m\<lparr>datas := e\<rparr>)"
    using n nn d e(1) set_idx_eq [OF n(2,3), of d "index_of sz sd i"]
    by (subst index_loop.simps) (simp add: head_at_def)
  moreover have "e (g ((y # ys) ! j)) = map_option (\<lambda>d. d\<lparr>idx := index_of sz sd (i + word_of_nat j)\<rparr>) (datas m (g ((y # ys) ! j)))"
    if j: "j < length (y # ys)" for j
  proof (cases j)
    case 0
    then show ?thesis using e(3) g(1) d(3) by simp
  next
    case (Suc k)
    then have "g (ys ! k) \<noteq> g y" using j g(1) by (metis Suc_less_eq image_eqI length_Cons nth_mem)
    with Suc j e(2) show ?thesis by (simp add: add.assoc)
  qed
  moreover have "e a = datas m a" if "a \<notin> g ` set (y # ys)" for a using that e(3) by auto
  ultimately show ?case by blast
qed

section \<open>The initialised list\<close>

lemma fresh_doubled:
  fixes w :: "16 word"
  assumes "\<forall>n \<ge> 8. \<not> bit w n"
  shows "fresh (ucast (push_bit 8 (promote_u16 w) OR promote_u16 w))"
proof -
  let ?v = "ucast (push_bit 8 (promote_u16 w) OR promote_u16 w) :: 16 word"
  have b: "bit ?v n \<longleftrightarrow> bit w (n mod 8)" if "n < 16" for n
    using assms that by (drule_tac less16_cases, elim disjE) (simp_all add: bit_unsigned_iff bit_or_iff bit_push_bit_iff)
  have "regen ?v = ?v" by (rule bit_word_eqI) (simp add: bit_regen b)
  then show ?thesis by (simp add: fresh_def)
qed

lemma item_byte: "8 \<le> n \<Longrightarrow> \<not> bit (ucast (push_bit 3 (promote_u16 (v AND 0xf)) OR (i AND 0x7)) :: 16 word) n"
  by (cases "n < 16")
    (drule less16_cases, elim disjE, simp_all add: bit_unsigned_iff bit_or_iff bit_and_iff bit_push_bit_iff)

lemma fresh_start: "fresh (data16 (start_data sd i))"
proof -
  have "fresh (init_item sd i)" for i unfolding init_item_def Let_def using item_byte by (intro fresh_doubled) blast
  moreover have "fresh 0x8080" "fresh 0xffff" by (simp_all add: fresh_def regen_def)
  ultimately show ?thesis by (simp add: start_data_def)
qed

text \<open>The indices the nodes get: the header 0, the tail \<^verbatim>\<open>0x7fff\<close>, the others by the counter.\<close>

definition final_data :: "ee_u32 \<Rightarrow> ee_s16 \<Rightarrow> nat \<Rightarrow> nat \<Rightarrow> list_data" where
  "final_data sz sd N i = (if 2 \<le> i then (start_data sd i)\<lparr>idx := index_of sz sd (word_of_nat (N - 1 - i))\<rparr> else start_data sd i)"

definition init_indices :: "ee_u32 \<Rightarrow> ee_s16 \<Rightarrow> nat \<Rightarrow> int list" where
  "init_indices sz sd N = map (\<lambda>i. sint (idx (final_data sz sd N i))) [0..<N - 1]"

definition numbered :: "addr \<Rightarrow> nat \<Rightarrow> ee_u32 \<Rightarrow> ee_s16 \<Rightarrow> cmem \<Rightarrow> cmem \<Rightarrow> bool" where
  "numbered base N sz sd m0 m \<longleftrightarrow> is_list m base (cell_order base (N - 1))
     \<and> (\<forall>i < N - 1. node_data m (node_at base i) = Some (final_data sz sd N i))
     \<and> (\<exists>h e. m = m0\<lparr>heads := h, datas := e\<rparr>)"

lemma nth_rev_upt: "j < k - 2 \<Longrightarrow> rev [2..<k] ! j = k - 1 - j"
  by (simp add: rev_nth)

lemma numbering:
  assumes "built base N sd (N - 1) m0 m" "4 \<le> N"
  shows "\<exists>l m'. head_at m base = Some l \<and> index_loop sz sd (nxt l) 1 m = Some m' \<and> numbered base N sz sd m0 m'"
proof -
  from assms(1) have b: "region base N m" "is_list m base (cell_order base (N - 1))"
    "\<forall>i < N - 1. \<exists>n. heads m (node_at base i) = Some n \<and> info n = item_at base N i"
    "\<forall>i < N - 1. datas m (item_at base N i) = Some (start_data sd i)" "\<exists>h e. m = m0\<lparr>heads := h, datas := e\<rparr>"
    by (auto simp: built_def)
  have r: "base \<noteq> NULL" "unat base + 12 * N < 2 ^ 32" using b(1) by (auto simp: region_def)
  let ?ys = "map (node_at base) (rev [2..<N - 1])"
  have ord: "cell_order base (N - 1) = base # ?ys @ [node_at base 1]"
  proof -
    have "[1..<N - 1] = 1 # [2..<N - 1]" using assms(2) upt_conv_Cons [of 1 "N - 1"] by (simp add: numeral_2_eq_2)
    then show ?thesis unfolding cell_order_def by (simp only: list.map rev.simps rev_map)
  qed
  obtain l where l: "head_at m base = Some l" "is_list m (nxt l) (?ys @ [node_at base 1])"
    using b(2) unfolding ord by (auto simp: head_at_def split: option.splits)
  define g where "g x = item_at base N ((unat x - unat base) div 8)" for x :: addr
  have gn: "g (node_at base i) = item_at base N i" if "i \<le> N" for i
    using r(2) that by (simp add: g_def unat_node_at)
  have 1: "\<forall>x \<in> set ?ys. \<exists>n d. heads m x = Some n \<and> info n = g x \<and> g x \<noteq> NULL \<and> datas m (g x) = Some d"
    using b(3,4) gn cells_not_NULL(2) [OF r] by auto
  have "map g ?ys = map (item_at base N) (rev [2..<N - 1])" using gn by auto
  then have 2: "distinct (map g ?ys)"
    using item_at_eq(1) [OF r(2)] by (auto simp: distinct_map intro!: inj_onI)
  obtain e where e: "index_loop sz sd (nxt l) 1 m = Some (m\<lparr>datas := e\<rparr>)"
    "\<forall>j < length ?ys. e (g (?ys ! j)) = map_option (\<lambda>d. d\<lparr>idx := index_of sz sd (1 + word_of_nat j)\<rparr>) (datas m (g (?ys ! j)))"
    "\<forall>a. a \<notin> g ` set ?ys \<longrightarrow> e a = datas m a"
    using index_loop_numbers [OF l(2) 1 2] by blast
  have dat: "e (item_at base N i) = Some (final_data sz sd N i)" if i: "i < N - 1" for i
  proof (cases "2 \<le> i")
    case True
    define j where "j = N - 2 - i"
    have Sj: "N - 1 - i = Suc j" using i by (simp add: j_def)
    have ij: "N - 1 - 1 - j = i" using i by (simp add: j_def)
    have "j < N - 1 - 2" using True i by (simp add: j_def)
    then have j: "j < length ?ys" "?ys ! j = node_at base i"
      using nth_rev_upt [of j "N - 1"] ij by simp_all
    have gi: "g (?ys ! j) = item_at base N i" using gn [of i] i unfolding j(2) by simp
    have "datas m (item_at base N i) = Some (start_data sd i)" using b(4) i by simp
    moreover have "e (item_at base N i) = map_option (\<lambda>d. d\<lparr>idx := index_of sz sd (1 + word_of_nat j)\<rparr>) (datas m (item_at base N i))"
      using e(2) [rule_format, OF j(1)] unfolding gi .
    ultimately show ?thesis using True unfolding final_data_def Sj by simp
  next
    case False
    have "item_at base N i \<notin> g ` set ?ys"
    proof
      assume "item_at base N i \<in> g ` set ?ys"
      then obtain x where x: "2 \<le> x" "x < N - 1" "item_at base N i = g (node_at base x)" by auto
      then have "item_at base N i = item_at base N x" using gn [of x] by simp
      then show False using item_at_eq(1) [OF r(2), of i x] x(1,2) i False by simp
    qed
    with e(3) b(4) i False show ?thesis by (simp add: final_data_def)
  qed
  let ?m = "m\<lparr>datas := e\<rparr>"
  have "node_data ?m (node_at base i) = Some (final_data sz sd N i)" if i: "i < N - 1" for i
  proof -
    obtain n where "heads m (node_at base i) = Some n" "info n = item_at base N i" using b(3) i by blast
    then show ?thesis using dat [OF i] cells_not_NULL(2) [OF r, of i] i by (simp add: node_data_def data_at_def)
  qed
  moreover have "\<exists>h e. ?m = m0\<lparr>heads := h, datas := e\<rparr>" using cells_only [OF b(5), where a = "heads m" and b = e] by simp
  ultimately have "numbered base N sz sd m0 ?m" using b(2) by (simp add: numbered_def)
  with l(1) e(1) show ?thesis by blast
qed

text \<open>The header as \<^verbatim>\<open>core_list_init\<close> writes it, and the tail behind it.\<close>

lemma header_and_tail:
  assumes "region base N m" "4 \<le> N"
  shows "\<exists>m1 m2 d m3 m4. set_nxt base NULL m = Some m1 \<and> set_info base (node_at base N) m1 = Some m2
     \<and> data_at m2 (node_at base N) = Some d \<and> put_data (node_at base N) (d\<lparr>idx := 0, data16 := 0x8080\<rparr>) m2 = Some m3
     \<and> core_list_insert_new base \<lparr>data16 = 0xffff, idx = 0x7fff\<rparr> (node_at base 1) (item_at base N 1)
         (node_at base N) (item_at base N N) m3 = Some (node_at base 1, node_at base 2, item_at base N 2, m4)
     \<and> built base N sd 2 m m4"
proof -
  have r: "base \<noteq> NULL" "unat base + 12 * N < 2 ^ 32" using assms(1) by (auto simp: region_def)
  obtain n d where c: "heads m base = Some n" "datas m (item_at base N 0) = Some d"
    using region_cells [OF assms(1), of 0] assms(2) by auto
  let ?m = "m\<lparr>heads := (heads m)(base \<mapsto> n\<lparr>nxt := NULL, info := item_at base N 0\<rparr>),
      datas := (datas m)(item_at base N 0 \<mapsto> start_data sd 0)\<rparr>"
  let ?m1 = "m\<lparr>heads := (heads m)(base \<mapsto> n\<lparr>nxt := NULL\<rparr>)\<rparr>"
  let ?m2 = "m\<lparr>heads := (heads m)(base \<mapsto> n\<lparr>nxt := NULL, info := item_at base N 0\<rparr>)\<rparr>"
  have i0: "item_at base N 0 \<noteq> NULL" using cells_not_NULL(2) [OF r, of 0] by simp
  have s0: "d\<lparr>idx := 0, data16 := 0x8080\<rparr> = start_data sd 0" by (cases d) (simp add: start_data_def)
  have steps: "set_nxt base NULL m = Some ?m1" "set_info base (node_at base N) ?m1 = Some ?m2"
    "data_at ?m2 (node_at base N) = Some d" "put_data (node_at base N) (start_data sd 0) ?m2 = Some ?m"
    using c r(1) i0 by (simp_all add: set_nxt_def set_info_def head_at_def data_at_def put_data_def item_at_0)
  have "built base N sd 1 m ?m"
    using assms(1) c r(1) by (auto simp: built_def cell_order_def region_def list_all_iff)
  moreover have "\<lparr>data16 = 0xffff, idx = 0x7fff\<rparr> = start_data sd 1" by (simp add: start_data_def)
  ultimately obtain m4 where "core_list_insert_new base \<lparr>data16 = 0xffff, idx = 0x7fff\<rparr> (node_at base 1) (item_at base N 1)
      (node_at base N) (item_at base N N) ?m = Some (node_at base 1, node_at base 2, item_at base N 2, m4)"
    "built base N sd 2 m m4"
    using insert_built [of base N sd 1 m ?m "\<lparr>data16 = 0xffff, idx = 0x7fff\<rparr>"] assms(2) by (auto simp: numeral_2_eq_2)
  then show ?thesis using steps s0 by auto
qed

lemma cell_order_distinct:
  assumes "unat base + 12 * N < 2 ^ 32" "1 \<le> k" "k \<le> N"
  shows "set (cell_order base k) = node_at base ` {..<k}" "length (cell_order base k) = k"
proof -
  have "{..<k} = insert 0 {1..<k}" using assms(2) by auto
  then show "set (cell_order base k) = node_at base ` {..<k}" by (simp add: cell_order_def)
  show "length (cell_order base k) = k" using assms(2) by (simp add: cell_order_def)
qed

lemma core_list_init_steps:
  fixes blksize :: ee_u32
  defines "sz \<equiv> blksize div 20 - 2"
  assumes "region base (unat sz) m" "4 \<le> unat sz"
  shows "\<exists>m1. numbered base (unat sz) sz sd m m1 \<and> core_list_init blksize base sd m
      = do { (list, _, m') \<leftarrow> core_list_mergesort base cmp_idx None m1; Some (list, m') }"
proof -
  let ?N = "unat sz"
  have end1: "base + 8 * sz = node_at base ?N" by (simp add: node_at_def)
  have end2: "node_at base ?N + 4 * sz = item_at base ?N ?N" by (simp add: item_at_def node_at_def)
  have one: "base + 8 = node_at base 1" "node_at base ?N + 4 = item_at base ?N 1"
    by (simp_all add: node_at_def item_at_def)
  obtain ma mb d mc md where h: "set_nxt base NULL m = Some ma" "set_info base (node_at base ?N) ma = Some mb"
     "data_at mb (node_at base ?N) = Some d" "put_data (node_at base ?N) (d\<lparr>idx := 0, data16 := 0x8080\<rparr>) mb = Some mc"
     "core_list_insert_new base \<lparr>data16 = 0xffff, idx = 0x7fff\<rparr> (node_at base 1) (item_at base ?N 1)
         (node_at base ?N) (item_at base ?N ?N) mc = Some (node_at base 1, node_at base 2, item_at base ?N 2, md)"
     "built base ?N sd 2 m md" using header_and_tail [OF assms(2,3)] by blast
  obtain q r d' me where i: "insert_items sz base sd (node_at base ?N) (item_at base ?N ?N)
      (node_at base 2, item_at base ?N 2, \<lparr>data16 = 0xffff, idx = 0x7fff\<rparr>, md) = Some (q, r, d', me)"
     "built base ?N sd (?N - 1) m me" using insert_items_built [OF h(6) assms(3) refl] by blast
  obtain l m1 where l: "head_at me base = Some l" "index_loop sz sd (nxt l) 1 me = Some m1" "numbered base ?N sz sd m m1"
    using numbering [OF i(2) assms(3)] by blast
  have "core_list_init blksize base sd m
      = do { (list, _, m') \<leftarrow> core_list_mergesort base cmp_idx None m1; Some (list, m') }"
    unfolding core_list_init_def Let_def using h i l
    by (simp add: end1 end2 one flip: sz_def)
  then show ?thesis using l(3) by blast
qed

text \<open>The list after the initialisation.\<close>

lemma core_list_init_list:
  fixes blksize :: ee_u32
  defines "sz \<equiv> blksize div 20 - 2"
  defines "N \<equiv> unat sz"
  assumes "region base N m" "4 \<le> N"
  shows "\<exists>p m' ys. core_list_init blksize base sd m = Some (p, m') \<and> is_list m' p ys
     \<and> mset ys = mset (map (node_at base) [0..<N - 1])
     \<and> (\<forall>i < N - 1. node_data m' (node_at base i) = Some (final_data sz sd N i))
     \<and> sorted (map (node_idx m') ys) \<and> (\<exists>h e. m' = m\<lparr>heads := h, datas := e\<rparr>)"
proof -
  obtain m1 where m1: "numbered base N sz sd m m1" "core_list_init blksize base sd m
      = do { (list, _, m') \<leftarrow> core_list_mergesort base cmp_idx None m1; Some (list, m') }"
    using core_list_init_steps [of base blksize m sd] assms(3,4) unfolding N_def sz_def by blast
  have r: "unat base + 12 * N < 2 ^ 32" using assms(3) by (simp add: region_def)
  let ?xs = "cell_order base (N - 1)"
  have xs: "set ?xs = node_at base ` {..<N - 1}" "length ?xs = N - 1"
    using cell_order_distinct [OF r, of "N - 1"] assms(4) by simp_all
  have dat: "node_data m1 (node_at base i) = Some (final_data sz sd N i)" if "i < N - 1" for i
    using m1(1) that by (simp add: numbered_def)
  have "is_list m1 base ?xs" "2 \<le> length ?xs" "length ?xs < 2 ^ 29" "has_data m1 ?xs"
    using m1(1) xs r assms(4) dat by (auto simp: numbered_def has_data_def list_all_iff)
  from mergesort_idx_sorts [OF this] obtain ys p h e where
    s: "core_list_mergesort base cmp_idx None m1 = Some (p, None, m1\<lparr>heads := h, datas := e\<rparr>)"
      "path h p ys NULL" "mset ys = mset ?xs" "sorted (map (node_idx m1) ys)"
      "\<forall>x. map_option info (h x) = map_option info (heads m1 x)"
      "\<forall>a. e a = (if a \<in> info_set m1 ?xs then map_option regen_data (datas m1 a) else datas m1 a)" by blast
  let ?m = "m1\<lparr>heads := h, datas := e\<rparr>"
  have dat': "node_data ?m (node_at base i) = Some (final_data sz sd N i)" if i: "i < N - 1" for i
  proof -
    obtain n where n: "heads m1 (node_at base i) = Some n" "info n \<noteq> NULL" "datas m1 (info n) = Some (final_data sz sd N i)"
      using dat [OF i] by (auto simp: node_data_def data_at_def bind_eq_Some_conv split: if_splits)
    obtain n' where n': "h (node_at base i) = Some n'" "info n' = info n" using s(5) n(1) by (metis map_option_eq_Some)
    have "regen_data (final_data sz sd N i) = final_data sz sd N i"
      using fresh_start [of sd i] by (simp add: regen_data_def final_data_def fresh_def)
    then have "e (info n) = Some (final_data sz sd N i)" using s(6) n(3) by simp
    with n n' show ?thesis by (simp add: node_data_def data_at_def)
  qed
  have "node_idx ?m x = node_idx m1 x" if "x \<in> set ys" for x
    using that mset_eq_setD [OF s(3)] xs(1) dat dat' by (auto simp: node_idx_def)
  then have "sorted (map (node_idx ?m) ys)" using s(4) by (simp cong: map_cong)
  moreover have "mset ?xs = mset (map (node_at base) [0..<N - 1])"
    using assms(4) upt_conv_Cons [of 0 "N - 1"] by (simp add: cell_order_def)
  moreover obtain h0 e0 where "m1 = m\<lparr>heads := h0, datas := e0\<rparr>" using m1(1) by (auto simp: numbered_def)
  then have "\<exists>h e. ?m = m\<lparr>heads := h, datas := e\<rparr>" by auto
  moreover have "core_list_init blksize base sd m = Some (p, ?m)" using m1(2) s(1) by simp
  ultimately show ?thesis using s(2,3) dat'
    by (intro exI [of _ p] exI [of _ ?m] exI [of _ ys]) simp
qed

text \<open>The tail and, in a list that is long enough, the first node with a number of its own have indices
  greater than the header's, whatever the seed.\<close>

lemma final_idx:
  "sint (idx (final_data sz sd N 0)) = 0" "sint (idx (final_data sz sd N 1)) = 0x7fff"
  "10 \<le> unat sz \<Longrightarrow> N = unat sz \<Longrightarrow> sint (idx (final_data sz sd N (N - 2))) = 1"
proof -
  show "sint (idx (final_data sz sd N 0)) = 0" "sint (idx (final_data sz sd N 1)) = 0x7fff"
    by (simp_all add: final_data_def start_data_def)
  assume N: "10 \<le> unat sz" "N = unat sz"
  have "2 \<le> unat sz div 5" using div_le_mono [OF N(1), of 5] by simp
  then have "1 < sz div 5" by (simp add: word_less_nat_alt unat_div)
  moreover have "N - 1 - (N - 2) = 1" "2 \<le> N - 2" using N by simp_all
  ultimately show "sint (idx (final_data sz sd N (N - 2))) = 1" by (simp add: final_data_def index_of_def)
qed

lemma sorted_list_usable:
  assumes "list_fit p m ys" "sorted (map (node_idx m) ys)" "z \<in> set ys" "a \<in> set ys" "b \<in> set ys"
    "node_idx m z < node_idx m a" "node_idx m a < node_idx m b"
  shows "list_usable p m ys"
proof -
  obtain vs where ys: "ys = p # vs" using assms(1) by (cases ys) (auto simp: list_fit_def)
  have least: "\<forall>x \<in> set ys. node_idx m p \<le> node_idx m x" using assms(2) by (simp add: ys)
  then have "{a, b} \<subseteq> above p m ys" using assms(3-7) by (fastforce simp: above_def)
  then have "card {a, b} \<le> card (above p m ys)" by (intro card_mono) (simp_all add: above_def)
  moreover have "a \<noteq> b" using assms(7) by auto
  ultimately show ?thesis using assms(1) least by (simp add: list_usable_def)
qed

lemma core_list_init_list_ready:
  fixes blksize :: ee_u32
  defines "sz \<equiv> blksize div 20 - 2"
  assumes "region base (unat sz) m" "4 \<le> unat sz"
  shows "\<exists>p m' ys. core_list_init blksize base sd m = Some (p, m') \<and> is_list m' p ys \<and> length ys = unat sz - 1
     \<and> mset (map (node_data m') ys) = mset (map (\<lambda>i. Some (final_data sz sd (unat sz) i)) [0..<unat sz - 1])
     \<and> sorted (map (node_idx m') ys) \<and> (distinct (init_indices sz sd (unat sz)) \<longrightarrow> list_ready p m' ys)
     \<and> (10 \<le> unat sz \<longrightarrow> list_usable p m' ys) \<and> (arr8 m', arr16 m', arr32 m') = (arr8 m, arr16 m, arr32 m)"
proof -
  let ?N = "unat sz"
  let ?is = "[0..<?N - 1]"
  have r: "unat base + 12 * ?N < 2 ^ 32" using assms(2) by (simp add: region_def)
  obtain p m' ys where s: "core_list_init blksize base sd m = Some (p, m')" "is_list m' p ys"
     "mset ys = mset (map (node_at base) ?is)"
     "\<forall>i < ?N - 1. node_data m' (node_at base i) = Some (final_data sz sd ?N i)"
     "sorted (map (node_idx m') ys)" "\<exists>h e. m' = m\<lparr>heads := h, datas := e\<rparr>"
    using core_list_init_list [of base blksize m sd] assms(2,3) unfolding sz_def by blast
  have len: "length ys = ?N - 1" using mset_eq_length [OF s(3)] by simp
  have ys: "set ys = node_at base ` {..<?N - 1}" using mset_eq_setD [OF s(3)] by (simp add: atLeast0LessThan)
  have "mset (map (node_data m') ys) = mset (map (node_data m') (map (node_at base) ?is))" by (simp only: mset_map s(3))
  also have "map (node_data m') (map (node_at base) ?is) = map (\<lambda>i. Some (final_data sz sd ?N i)) ?is" using s(4) by simp
  finally have items: "mset (map (node_data m') ys) = mset (map (\<lambda>i. Some (final_data sz sd ?N i)) ?is)" .
  have "map (node_idx m') (map (node_at base) ?is) = init_indices sz sd ?N"
    using s(4) by (simp add: init_indices_def node_idx_def)
  then have "mset (map (node_idx m') ys) = mset (init_indices sz sd ?N)" by (metis mset_map s(3))
  then have strict: "distinct (init_indices sz sd ?N) \<Longrightarrow> sorted_wrt (<) (map (node_idx m') ys)"
    using s(5) by (metis mset_eq_imp_distinct_iff strict_sorted_iff)
  have "has_data m' ys" "list_all (\<lambda>x. case node_data m' x of None \<Rightarrow> False | Some d \<Rightarrow> fresh (data16 d)) ys"
    using s(4) fresh_start [of sd] by (auto simp: has_data_def list_all_iff ys final_data_def)
  moreover have "3 \<le> length ys" "length ys < 2 ^ 29" using len r assms(3) by simp_all
  ultimately have fit: "list_fit p m' ys" using s(2) unfolding list_fit_def by blast
  then have ready: "distinct (init_indices sz sd ?N) \<Longrightarrow> list_ready p m' ys" using strict by (simp add: list_ready_def)
  have usable: "list_usable p m' ys" if "10 \<le> ?N"
  proof (rule sorted_list_usable [OF fit s(5)])
    have i: "node_idx m' (node_at base i) = sint (idx (final_data sz sd ?N i))" if "i < ?N - 1" for i
      using s(4) that by (simp add: node_idx_def)
    have mem: "node_at base i \<in> set ys" if "i < ?N - 1" for i unfolding ys using that by (intro imageI) simp
    show "node_at base 0 \<in> set ys" "node_at base (?N - 2) \<in> set ys" "node_at base 1 \<in> set ys" using that by (intro mem, simp)+
    show "node_idx m' (node_at base 0) < node_idx m' (node_at base (?N - 2))"
      "node_idx m' (node_at base (?N - 2)) < node_idx m' (node_at base 1)"
      using that i [of 0] i [of 1] i [of "?N - 2"] final_idx(1,2) [of sz sd ?N] final_idx(3) [of sz ?N sd] by simp_all
  qed
  show ?thesis using s items len ready usable by auto
qed


text \<open>
  C8: \<^verbatim>\<open>core_list_init\<close> turns any block with room for four items into the list the benchmark expects. With
  \<^verbatim>\<open>size = blksize / 20 - 2\<close> it never touches memory outside the block, and returns a list of exactly
  \<^verbatim>\<open>size - 1\<close> nodes (the header, the tail and all the inserted items), each with the data computed from
  the seed, all data fresh, sorted by index. With room for ten items the benchmark can use the list,
  whatever the seed; and when the indices the nodes get are different, the list is ready, so that
  the benchmark restores it.
\<close>

theorem core_list_init_ready:
  fixes blksize :: ee_u32
  defines "sz \<equiv> blksize div 20 - 2"
  assumes "region base (unat sz) m" "4 \<le> unat sz"
  shows "\<exists>p m' ys. core_list_init blksize base sd m = Some (p, m') \<and> is_list m' p ys \<and> length ys = unat sz - 1
     \<and> mset (map (node_data m') ys) = mset (map (\<lambda>i. Some (final_data sz sd (unat sz) i)) [0..<unat sz - 1])
     \<and> sorted (map (node_idx m') ys) \<and> (distinct (init_indices sz sd (unat sz)) \<longrightarrow> list_ready p m' ys)
     \<and> (10 \<le> unat sz \<longrightarrow> list_usable p m' ys) \<and> (arr8 m', arr16 m', arr32 m') = (arr8 m, arr16 m, arr32 m)"
  unfolding sz_def using assms(2,3) unfolding sz_def by (rule core_list_init_list_ready)

text \<open>A small block: room for four heads and four items, none of them written yet.\<close>

definition blank_heads :: "addr \<Rightarrow> nat \<Rightarrow> addr \<rightharpoonup> list_head" where
  "blank_heads base N = map_of (map (\<lambda>i. (node_at base i, \<lparr>nxt = NULL, info = NULL\<rparr>)) [0..<N])"

definition blank_datas :: "addr \<Rightarrow> nat \<Rightarrow> addr \<rightharpoonup> list_data" where
  "blank_datas base N = map_of (map (\<lambda>i. (item_at base N i, \<lparr>data16 = 0, idx = 0\<rparr>)) [0..<N])"

definition blank_mem :: "addr \<Rightarrow> nat \<Rightarrow> cmem" where
  "blank_mem base N = empty_mem\<lparr>heads := blank_heads base N, datas := blank_datas base N\<rparr>"

lemma region_blank: "base \<noteq> NULL \<Longrightarrow> unat base + 12 * N < 2 ^ 32 \<Longrightarrow> heads m = blank_heads base N
  \<Longrightarrow> datas m = blank_datas base N \<Longrightarrow> region base N m"
  by (auto simp: region_def list_all_iff blank_heads_def blank_datas_def map_of_eq_None_iff image_iff)

theorem core_list_init_ready_witness:
  "\<exists>p m' ys. core_list_init 120 8 0 (blank_mem 8 4) = Some (p, m') \<and> is_list m' p ys \<and> length ys = 3
     \<and> sorted (map (node_idx m') ys) \<and> list_ready p m' ys"
proof -
  have "region 8 4 (blank_mem 8 4)" by (rule region_blank) (simp_all add: blank_mem_def)
  moreover have "distinct (init_indices 4 0 4)" by code_simp
  ultimately show ?thesis using core_list_init_ready [of 8 120 "blank_mem 8 4" 0] by auto
qed

lemma standard_indices:
  "distinct (init_indices 31 0 31)" "distinct (init_indices 31 0x3415 31)" "distinct (init_indices 18 8 18)"
  "\<not> distinct (init_indices 31 7 31)"
  by code_simp+

text \<open>
  The indices \<^verbatim>\<open>core_list_init\<close> gives to the nodes are different for the parameter sets
  \<^verbatim>\<open>core_main.c\<close> knows at this total size (seeds 0 and \<^verbatim>\<open>0x3415\<close> with 666 bytes per algorithm) and for its
  profile set (seed 8 with 400 bytes). They are not
  different for every seed: with seed 7 and 666 bytes some node shares its index with another.
\<close>

theorem standard_indices_distinct:
  "list_all (\<lambda>(sd, blksize). distinct (init_indices (blksize div 20 - 2) sd (unat (blksize div 20 - 2))))
     [(8, 400), (0, 666), (0x3415, 666)]
   \<and> \<not> distinct (init_indices (666 div 20 - 2) 7 (unat ((666 :: ee_u32) div 20 - 2)))"
  using standard_indices by simp

end
