(* ===== verification/CoreMain.thy ===== *)
theory CoreMain
  imports ListInit
begin

text \<open>
  The driver \<^verbatim>\<open>coremark/core_main.c\<close>, with \<^verbatim>\<open>check_data_types\<close> of \<^verbatim>\<open>core_util.c\<close>: seeds and their
  defaults, the split of the static block, the initialisations, the timed iterations, the
  automatic choice of their number, the validation against known check sums and the report.
  The lemmas show that the set-up makes every benchmark ready, and that iterations keep it so.
\<close>

section \<open>Configuration\<close>

text \<open>The configuration \<^verbatim>\<open>core_portme.h\<close> selects: one context, volatile seeds, a static memory
  block, no floating point.\<close>

definition ID_LIST :: ee_u32 where "ID_LIST = push_bit 0 1"
definition ID_MATRIX :: ee_u32 where "ID_MATRIX = push_bit 1 1"
definition ID_STATE :: ee_u32 where "ID_STATE = push_bit 2 1"
definition ALL_ALGORITHMS_MASK :: ee_u32 where "ALL_ALGORITHMS_MASK = ID_LIST OR ID_MATRIX OR ID_STATE"
definition NUM_ALGORITHMS :: nat where "NUM_ALGORITHMS = 3"
definition TOTAL_DATA_SIZE :: ee_u32 where "TOTAL_DATA_SIZE = 2 * 1000"
definition default_num_contexts :: ee_u32 where "default_num_contexts = 1"

definition COMPILER_FLAGS :: string where
  "COMPILER_FLAGS = ''rv32i_zicsr baremetal (UART printf, cycle CSR timing)''"

definition MEM_LOCATION :: string where
  "MEM_LOCATION = ''private DMEM per thread (hw remap)''"

text \<open>The check sums of the five known parameter sets.\<close>

definition list_known_crc :: "ee_u16 list" where
  "list_known_crc = [0xd4b0, 0x3340, 0x6a79, 0xe714, 0xe3c1]"

definition matrix_known_crc :: "ee_u16 list" where
  "matrix_known_crc = [0xbe52, 0x1199, 0x5608, 0x1fd7, 0x0747]"

definition state_known_crc :: "ee_u16 list" where
  "state_known_crc = [0x5e47, 0x39bf, 0xe5a4, 0x8e3a, 0x8d84]"

section \<open>Iterations\<close>

definition iterate_step :: "ee_u32 \<Rightarrow> core_results \<times> cmem \<Rightarrow> (core_results \<times> cmem) option" where
  "iterate_step i s = do {
     let (res, m) = s;
     (crc, res, m) \<leftarrow> core_bench_list res 1 m;
     let res = res\<lparr>r_crc := crcu16 crc (r_crc res)\<rparr>;
     (crc, res, m) \<leftarrow> core_bench_list res (- 1) m;
     let res = res\<lparr>r_crc := crcu16 crc (r_crc res)\<rparr>;
     Some (if i = 0 then res\<lparr>r_crclist := r_crc res\<rparr> else res, m) }"

definition iterate :: "core_results \<Rightarrow> cmem \<Rightarrow> (core_results \<times> cmem) option" where
  "iterate res m =
     for_u32 0 (r_iterations res) iterate_step
       (res\<lparr>r_crc := 0, r_crclist := 0, r_crcmatrix := 0, r_crcstate := 0\<rparr>, m)"

section \<open>Set-up\<close>

definition read_seeds :: "seed_vars \<Rightarrow> core_results \<Rightarrow> core_results" where
  "read_seeds sv res =
     res\<lparr>r_seed1 := ucast (get_seed_32 sv 1), r_seed2 := ucast (get_seed_32 sv 2),
         r_seed3 := ucast (get_seed_32 sv 3), r_iterations := get_seed_32 sv 4,
         r_execs := (if get_seed_32 sv 5 = 0 then ALL_ALGORITHMS_MASK else get_seed_32 sv 5)\<rparr>"

definition default_seeds :: "core_results \<Rightarrow> core_results" where
  "default_seeds res =
     (let res = (if r_seed1 res = 0 \<and> r_seed2 res = 0 \<and> r_seed3 res = 0
                 then res\<lparr>r_seed1 := 0, r_seed2 := 0, r_seed3 := 0x66\<rparr> else res)
      in if r_seed1 res = 1 \<and> r_seed2 res = 0 \<and> r_seed3 res = 0
         then res\<lparr>r_seed1 := 0x3415, r_seed2 := 0x3415, r_seed3 := 0x66\<rparr> else res)"

definition static_memory :: "addr \<Rightarrow> core_results \<Rightarrow> core_results" where
  "static_memory blk res = res\<lparr>r_memblock := (r_memblock res)[0 := blk], r_size := TOTAL_DATA_SIZE, r_err := 0\<rparr>"

definition selected :: "nat \<Rightarrow> ee_u32 \<Rightarrow> bool" where
  "selected i execs \<longleftrightarrow> push_bit i 1 AND execs \<noteq> 0"

definition num_algorithms :: "ee_u32 \<Rightarrow> ee_u16" where
  "num_algorithms execs = fold (\<lambda>i n. if selected i execs then n + 1 else n) [0..<NUM_ALGORITHMS] 0"

text \<open>A division by zero is undefined in C.\<close>

definition split_size :: "core_results \<Rightarrow> core_results option" where
  "split_size res =
     (let n = num_algorithms (r_execs res)
      in if n = 0 then None else Some (res\<lparr>r_size := r_size res div promote_u16 n\<rparr>))"

definition assign_pointers :: "core_results \<Rightarrow> core_results" where
  "assign_pointers res =
     snd (fold (\<lambda>i (j :: ee_u16, res).
         if selected i (r_execs res)
         then (j + 1, res\<lparr>r_memblock := (r_memblock res)[i + 1 := r_memblock res ! 0 + r_size res * promote_u16 j]\<rparr>)
         else (j, res)) [0..<NUM_ALGORITHMS] (0, res))"

definition call_inits :: "core_results \<Rightarrow> cmem \<Rightarrow> (core_results \<times> cmem) option" where
  "call_inits res m = do {
     (res, m) \<leftarrow> (if r_execs res AND ID_LIST \<noteq> 0 then do {
         b \<leftarrow> memblock_at res 1;
         (list, m) \<leftarrow> core_list_init (r_size res) b (r_seed1 res) m;
         Some (res\<lparr>r_list := list\<rparr>, m) }
       else Some (res, m));
     (res, m) \<leftarrow> (if r_execs res AND ID_MATRIX \<noteq> 0 then do {
         b \<leftarrow> memblock_at res 2;
         (mat, m) \<leftarrow> core_init_matrix (r_size res) b
           (promote_s16 (r_seed1 res) OR push_bit 16 (promote_s16 (r_seed2 res))) m;
         Some (res\<lparr>r_mat := mat\<rparr>, m) }
       else Some (res, m));
     (if r_execs res AND ID_STATE \<noteq> 0 then do {
         b \<leftarrow> memblock_at res 3;
         m \<leftarrow> core_init_state (r_size res) (r_seed1 res) b m;
         Some (res, m) }
       else Some (res, m)) }"

definition set_up :: "seed_vars \<Rightarrow> addr \<Rightarrow> core_results \<Rightarrow> cmem \<Rightarrow> (core_results \<times> cmem) option" where
  "set_up sv blk res m = do {
     res \<leftarrow> split_size (static_memory blk (default_seeds (read_seeds sv res)));
     call_inits (assign_pointers res) m }"

section \<open>Timed runs\<close>

text \<open>\<open>clk k\<close> is what the \<open>k\<close>-th reading of the counters \<^verbatim>\<open>cycle\<close> and \<^verbatim>\<open>instret\<close> returns.\<close>

type_synonym counters = "nat \<Rightarrow> ee_u32 \<times> ee_u32"

record run_state =
  rs_reads :: nat
  rs_timer :: timer
  rs_res :: core_results
  rs_mem :: cmem

definition start_state :: "core_results \<Rightarrow> cmem \<Rightarrow> run_state" where
  "start_state res m = \<lparr>rs_reads = 0, rs_timer = \<lparr>t0 = 0, t1 = 0, instret0 = 0, instret1 = 0\<rparr>, rs_res = res, rs_mem = m\<rparr>"

definition timed_iterate :: "counters \<Rightarrow> run_state \<Rightarrow> run_state option" where
  "timed_iterate clk s = do {
     let k = rs_reads s;
     let t = start_time (fst (clk k)) (snd (clk k)) (rs_timer s);
     (res, m) \<leftarrow> iterate (rs_res s) (rs_mem s);
     let t = stop_time (fst (clk (k + 1))) (snd (clk (k + 1))) t;
     Some \<lparr>rs_reads = k + 2, rs_timer = t, rs_res = res, rs_mem = m\<rparr> }"

definition scale_iterations :: "ee_u32 \<Rightarrow> run_state \<Rightarrow> run_state" where
  "scale_iterations n s = s\<lparr>rs_res := (rs_res s)\<lparr>r_iterations := r_iterations (rs_res s) * n\<rparr>\<rparr>"

partial_function (option) calibrate :: "counters \<Rightarrow> ee_u32 \<Rightarrow> run_state \<Rightarrow> (ee_u32 \<times> run_state) option" where
  "calibrate clk secs_passed s =
     (if secs_passed < 1 then do {
        s \<leftarrow> timed_iterate clk (scale_iterations 10 s);
        calibrate clk (time_in_secs (get_time (rs_timer s))) s }
      else Some (secs_passed, s))"

declare calibrate.simps [code]

definition set_iterations :: "counters \<Rightarrow> run_state \<Rightarrow> run_state option" where
  "set_iterations clk s =
     (if r_iterations (rs_res s) = 0 then do {
        let s = s\<lparr>rs_res := (rs_res s)\<lparr>r_iterations := 1\<rparr>\<rparr>;
        (secs_passed, s) \<leftarrow> calibrate clk 0 s;
        let divisor = (if secs_passed = 0 then 1 else secs_passed);
        Some (scale_iterations (1 + 10 div divisor) s) }
      else Some s)"

section \<open>Report\<close>

text \<open>A call of \<^verbatim>\<open>ee_printf\<close> is its format and its arguments.\<close>

type_synonym call = "string \<times> va list"

primrec prints :: "call list \<Rightarrow> mmio_trace option" where
  "prints [] = Some []"
| "prints (c # cs) = do {
     out \<leftarrow> ee_printf (fst c) (snd c);
     rest \<leftarrow> prints cs;
     Some (out @ rest) }"

text \<open>The sizes of the types of a port in bytes, which the check of the data types compares, and
  those of this port.\<close>

record type_sizes =
  size_u8 :: nat
  size_u16 :: nat
  size_s16 :: nat
  size_s32 :: nat
  size_u32 :: nat
  size_ptr_int :: nat
  size_int_pointer :: nat

definition sizeof :: "'a :: len word itself \<Rightarrow> nat" where
  "sizeof t = LENGTH('a) div 8"

definition port_sizes :: type_sizes where
  "port_sizes = \<lparr>size_u8 = sizeof TYPE(8 word), size_u16 = sizeof TYPE(16 word), size_s16 = sizeof TYPE(16 word),
     size_s32 = sizeof TYPE(32 word), size_u32 = sizeof TYPE(32 word),
     size_ptr_int = sizeof TYPE(32 word), size_int_pointer = sizeof TYPE(32 word)\<rparr>"

definition data_type_checks :: "type_sizes \<Rightarrow> (bool \<times> string) list" where
  "data_type_checks z =
     [(size_u8 z \<noteq> 1, ''ERROR: ee_u8 is not an 8b datatype!'' @ [LF]),
      (size_u16 z \<noteq> 2, ''ERROR: ee_u16 is not a 16b datatype!'' @ [LF]),
      (size_s16 z \<noteq> 2, ''ERROR: ee_s16 is not a 16b datatype!'' @ [LF]),
      (size_s32 z \<noteq> 4, ''ERROR: ee_s32 is not a 32b datatype!'' @ [LF]),
      (size_u32 z \<noteq> 4, ''ERROR: ee_u32 is not a 32b datatype!'' @ [LF]),
      (size_ptr_int z \<noteq> size_int_pointer z,
         ''ERROR: ee_ptr_int is not a datatype that holds an int pointer!'' @ [LF])]"

definition check_data_types :: "type_sizes \<Rightarrow> ee_u8 \<times> call list" where
  "check_data_types z =
     (let failed = filter fst (data_type_checks z);
          retval = word_of_nat (length failed)
      in (retval, map (\<lambda>c. (snd c, [])) failed @
           (if retval > 0 then [(''ERROR: Please modify the datatypes in core_portme.h!'' @ [LF], [])] else [])))"

definition seed_crc :: "core_results \<Rightarrow> ee_u16" where
  "seed_crc res =
     (let seedcrc = crc16 (r_seed1 res) 0;
          seedcrc = crc16 (r_seed2 res) seedcrc;
          seedcrc = crc16 (r_seed3 res) seedcrc
      in crc16 (ucast (r_size res)) seedcrc)"

definition known_run :: "ee_u16 \<Rightarrow> (nat \<times> string) option" where
  "known_run seedcrc =
     (if seedcrc = 0x8a02 then Some (0, ''6k performance run parameters for coremark.'' @ [LF])
      else if seedcrc = 0x7b05 then Some (1, ''6k validation run parameters for coremark.'' @ [LF])
      else if seedcrc = 0x4eaf then Some (2, ''Profile generation run parameters for coremark.'' @ [LF])
      else if seedcrc = 0xe9f5 then Some (3, ''2K performance run parameters for coremark.'' @ [LF])
      else if seedcrc = 0x18f2 then Some (4, ''2K validation run parameters for coremark.'' @ [LF])
      else None)"

definition check_crc :: "ee_u32 \<Rightarrow> string \<Rightarrow> ee_u16 \<Rightarrow> ee_u16 \<Rightarrow> core_results \<times> call list \<Rightarrow> core_results \<times> call list" where
  "check_crc which fmt crc known s =
     (if r_execs (fst s) AND which \<noteq> 0 \<and> crc \<noteq> known
      then ((fst s)\<lparr>r_err := r_err (fst s) + 1\<rparr>, snd s @ [(fmt, [VInt 0, VInt (promote_u16 crc), VInt (promote_u16 known)])])
      else s)"

definition check_results :: "nat \<Rightarrow> core_results \<Rightarrow> (core_results \<times> call list) option" where
  "check_results known_id res = do {
     l \<leftarrow> rd list_known_crc known_id;
     x \<leftarrow> rd matrix_known_crc known_id;
     st \<leftarrow> rd state_known_crc known_id;
     let s = (res\<lparr>r_err := 0\<rparr>, []);
     let s = check_crc ID_LIST (''[%u]ERROR! list crc 0x%04x - should be 0x%04x'' @ [LF]) (r_crclist res) l s;
     let s = check_crc ID_MATRIX (''[%u]ERROR! matrix crc 0x%04x - should be 0x%04x'' @ [LF]) (r_crcmatrix res) x s;
     Some (check_crc ID_STATE (''[%u]ERROR! state crc 0x%04x - should be 0x%04x'' @ [LF]) (r_crcstate res) st s) }"

text \<open>The validation: the errors counted so far, and the lines printed.\<close>

definition validate :: "core_results \<Rightarrow> (ee_s16 \<times> core_results \<times> call list) option" where
  "validate res =
     (case known_run (seed_crc res) of
        None \<Rightarrow> Some (- 1, res, [])
      | Some (known_id, msg) \<Rightarrow> do {
          (res, errs) \<leftarrow> check_results known_id res;
          Some (0 + r_err res, res, (msg, []) # errs) })"

definition time_lines :: "ee_u32 \<Rightarrow> core_results \<Rightarrow> call list" where
  "time_lines total_time res =
     [(''CoreMark Size    : %lu'' @ [LF], [VInt (r_size res)]),
      (''Total ticks      : %lu'' @ [LF], [VInt total_time]),
      (''Total time (secs): %d'' @ [LF], [VInt (time_in_secs total_time)])] @
     (if time_in_secs total_time > 0
      then [(''Iterations/Sec   : %d'' @ [LF],
             [VInt (default_num_contexts * r_iterations res div time_in_secs total_time)])] else []) @
     (if time_in_secs total_time < 10
      then [(''ERROR! Must execute for at least 10 secs for a valid result!'' @ [LF], [])] else [])"

definition result_lines :: "string \<Rightarrow> core_results \<Rightarrow> call list" where
  "result_lines version res =
     [(''Iterations       : %lu'' @ [LF], [VInt (default_num_contexts * r_iterations res)]),
      (''Compiler version : %s'' @ [LF], [VStr (Some version)]),
      (''Compiler flags   : %s'' @ [LF], [VStr (Some COMPILER_FLAGS)]),
      (''Memory location  : %s'' @ [LF], [VStr (Some MEM_LOCATION)]),
      (''seedcrc          : 0x%04x'' @ [LF], [VInt (promote_u16 (seed_crc res))])] @
     (if r_execs res AND ID_LIST \<noteq> 0
      then [(''[%d]crclist       : 0x%04x'' @ [LF], [VInt 0, VInt (promote_u16 (r_crclist res))])] else []) @
     (if r_execs res AND ID_MATRIX \<noteq> 0
      then [(''[%d]crcmatrix     : 0x%04x'' @ [LF], [VInt 0, VInt (promote_u16 (r_crcmatrix res))])] else []) @
     (if r_execs res AND ID_STATE \<noteq> 0
      then [(''[%d]crcstate      : 0x%04x'' @ [LF], [VInt 0, VInt (promote_u16 (r_crcstate res))])] else []) @
     [(''[%d]crcfinal      : 0x%04x'' @ [LF], [VInt 0, VInt (promote_u16 (r_crc res))])]"

definition verdict :: "ee_s16 \<Rightarrow> string" where
  "verdict total_errors =
     (if total_errors = 0 then ''Correct operation validated. See README.md for run and reporting rules.'' @ [LF]
      else if 0 < sint total_errors then ''Errors detected'' @ [LF]
      else ''Cannot validate operation for these seed values, please compare with results on a known platform.'' @ [LF])"

definition report :: "string \<Rightarrow> ee_u32 \<Rightarrow> core_results \<Rightarrow> (ee_s16 \<times> call list) option" where
  "report version total_time res = do {
     (total_errors, res, known) \<leftarrow> validate res;
     let (wrong_types, types) = check_data_types port_sizes;
     let total_errors = total_errors + ucast wrong_types;
     let total_errors = (if time_in_secs total_time < 10 then total_errors + 1 else total_errors);
     Some (total_errors, known @ types @ time_lines total_time res @ result_lines version res @ [(verdict total_errors, [])]) }"

text \<open>\<open>res\<close> and \<open>m\<close> are what the uninitialised results structure and the memory hold at the
  start, \<open>blk\<close> is where \<^verbatim>\<open>static_memblk\<close> is. \<^verbatim>\<open>portable_fini\<close> does not return, so that the trace
  is everything the program ever writes.\<close>

definition main :: "counters \<Rightarrow> string \<Rightarrow> seed_vars \<Rightarrow> addr \<Rightarrow> core_results \<Rightarrow> cmem \<Rightarrow> mmio_trace option" where
  "main clk version sv blk res m = do {
     (port, _, banner) \<leftarrow> portable_init (r_port res);
     if sizeof_list_head > 128 then do {
       out \<leftarrow> prints [(''list_head structure too big for comparable data!'' @ [LF], [])];
       Some (banner @ out) }
     else do {
       (res, m) \<leftarrow> set_up sv blk (res\<lparr>r_port := port\<rparr>) m;
       s \<leftarrow> set_iterations clk (start_state res m);
       s \<leftarrow> timed_iterate clk s;
       (_, calls) \<leftarrow> report version (get_time (rs_timer s)) (rs_res s);
       out \<leftarrow> prints calls;
       fin \<leftarrow> portable_fini (rs_timer s);
       Some (banner @ out @ fin) } }"

section \<open>Iterations keep the inputs\<close>

text \<open>What the iterations rely on: a contract of runs under which the list benchmark returns, and which
  does not look at the check sums.\<close>

locale bench_contract = run_contract ready keeps
  for ready :: "core_results \<times> cmem \<Rightarrow> bool" and keeps :: "core_results \<times> cmem \<Rightarrow> core_results \<times> cmem \<Rightarrow> bool" +
  assumes bench_returns: "ready (re, m) \<Longrightarrow> \<exists>crc re' m'. core_bench_list re finder_idx m = Some (crc, re', m') \<and> keeps (re, m) (re', m')"
    and keeps_crcs: "keeps s (re, m) \<Longrightarrow> same_inputs re re' \<Longrightarrow> keeps s (re', m)"
begin

lemma step_keeps:
  assumes "ready s"
  shows "\<exists>t. iterate_step i s = Some t \<and> keeps s t"
proof -
  obtain re m where s: "s = (re, m)" by (cases s)
  obtain c1 re1 m1 where 1: "core_bench_list re 1 m = Some (c1, re1, m1)" "keeps s (re1, m1)"
    using bench_returns assms unfolding s by blast
  let ?re = "re1\<lparr>r_crc := crcu16 c1 (r_crc re1)\<rparr>"
  have k: "keeps s (?re, m1)" using 1(2) by (rule keeps_crcs) (simp add: same_inputs_crc same_inputs_refl)
  from bench_returns [OF keeps_ready [OF k assms], of "- 1"] obtain c2 re2 m2 where
    2: "core_bench_list ?re (- 1) m1 = Some (c2, re2, m2)" "keeps (?re, m1) (re2, m2)" by blast
  have "keeps s (re2, m2)" using keeps_trans [OF k 2(2)] .
  then have "keeps s (re2\<lparr>r_crc := c\<rparr>, m2)" "keeps s (re2\<lparr>r_crc := c, r_crclist := d\<rparr>, m2)" for c d
    using keeps_crcs by (simp_all add: same_inputs_crc same_inputs_refl)
  then show ?thesis using 1(1) 2(1) by (simp add: iterate_step_def Let_def s)
qed

end

text \<open>The iterations are then a loop that can be repeated.\<close>

sublocale bench_contract \<subseteq> steps: repeatable ready keeps iterate_step
  by unfold_locales (rule step_keeps)

context bench_contract
begin

lemma iterate_keeps:
  assumes "ready (re, m)"
  shows "\<exists>re' m'. iterate re m = Some (re', m') \<and> keeps (re, m) (re', m')"
proof -
  let ?re = "re\<lparr>r_crc := 0, r_crclist := 0, r_crcmatrix := 0, r_crcstate := 0\<rparr>"
  have k: "keeps (re, m) (?re, m)"
    using keeps_refl [OF assms] by (rule keeps_crcs) (simp add: same_inputs_crc same_inputs_refl)
  from steps.loop_keeps [OF keeps_ready [OF k assms], of "r_iterations re"] keeps_trans [OF k] show ?thesis
    by (auto simp: iterate_def)
qed

end

text \<open>A list with different indices is restored by every run.\<close>

lemma list_ready_cong:
  assumes "heads m' = heads m" "datas m' = datas m"
  shows "list_ready p m' xs = list_ready p m xs" "list_usable p m' xs = list_usable p m xs"
proof -
  have n: "node_data m' = node_data m" using assms by (rule node_data_cong)
  then have "node_idx m' = node_idx m" by (simp add: node_idx_def fun_eq_iff)
  with n assms(1) show "list_ready p m' xs = list_ready p m xs" "list_usable p m' xs = list_usable p m xs"
    by (simp_all add: list_ready_def list_usable_def list_fit_def has_data_def above_def)
qed

definition ran :: "core_results \<Rightarrow> cmem \<Rightarrow> core_results \<Rightarrow> cmem \<Rightarrow> bool" where
  "ran re m re' m' \<longleftrightarrow> same_inputs re re' \<and> heads m' = heads m \<and> datas m' = datas m \<and> benches_rel re m m'"

definition iteration_ready :: "addr list \<Rightarrow> core_results \<times> cmem \<Rightarrow> bool" where
  "iteration_ready xs s \<longleftrightarrow> list_ready (r_list (fst s)) (snd s) xs \<and> benches_ready (fst s) (snd s)"

definition iteration_keeps :: "core_results \<times> cmem \<Rightarrow> core_results \<times> cmem \<Rightarrow> bool" where
  "iteration_keeps s t \<longleftrightarrow> ran (fst s) (snd s) (fst t) (snd t)"

lemma ran_refl: "benches_ready re m \<Longrightarrow> ran re m re m"
  by (simp add: ran_def same_inputs_refl benches_rel_refl)

lemma ran_trans: "ran a m b m' \<Longrightarrow> ran b m' c m'' \<Longrightarrow> ran a m c m''"
  unfolding ran_def using same_inputs_trans same_inputs_benches(1) benches_rel_trans by metis

lemma ran_ready:
  assumes "ran re m re' m'" "list_ready (r_list re) m xs" "benches_ready re m"
  shows "list_ready (r_list re') m' xs" "benches_ready re' m'"
  using assms list_ready_cong(1) [of m' m] same_inputs_fields(6) same_inputs_benches(2) benches_rel_ready
  unfolding ran_def by metis+

interpretation iterations: bench_contract "iteration_ready xs" iteration_keeps for xs
proof
  show "iteration_ready xs s \<Longrightarrow> iteration_keeps s s" for s by (simp add: iteration_ready_def iteration_keeps_def ran_refl)
  show "iteration_keeps s t \<Longrightarrow> iteration_keeps t u \<Longrightarrow> iteration_keeps s u" for s t u
    unfolding iteration_keeps_def by (rule ran_trans)
  show "iteration_keeps s t \<Longrightarrow> iteration_ready xs s \<Longrightarrow> iteration_ready xs t" for s t
    using ran_ready unfolding iteration_keeps_def iteration_ready_def by blast
  show "iteration_ready xs (re, m) \<Longrightarrow> \<exists>crc re' m'. core_bench_list re finder_idx m = Some (crc, re', m') \<and> iteration_keeps (re, m) (re', m')"
    for re m finder_idx
    using core_bench_list_runs [of re m xs finder_idx] by (auto simp: iteration_ready_def iteration_keeps_def ran_def)
  show "iteration_keeps s (re, m) \<Longrightarrow> same_inputs re re' \<Longrightarrow> iteration_keeps s (re', m)" for s re m re'
    unfolding iteration_keeps_def ran_def using same_inputs_trans by auto
qed

text \<open>Any usable list stays usable: it loses no node with an index greater than the header's.\<close>

definition list_carried :: "addr \<Rightarrow> cmem \<Rightarrow> cmem \<Rightarrow> bool" where
  "list_carried p m m' \<longleftrightarrow> datas m' = datas m \<and> (\<forall>xs. list_usable p m xs \<longrightarrow>
     (\<exists>ys. list_usable p m' ys \<and> set ys \<subseteq> set xs \<and> above p m' ys = above p m xs))"

definition usable :: "core_results \<times> cmem \<Rightarrow> bool" where
  "usable s \<longleftrightarrow> (\<exists>xs. list_usable (r_list (fst s)) (snd s) xs) \<and> benches_ready (fst s) (snd s)"

definition stays_usable :: "core_results \<times> cmem \<Rightarrow> core_results \<times> cmem \<Rightarrow> bool" where
  "stays_usable s t \<longleftrightarrow> same_inputs (fst s) (fst t) \<and> list_carried (r_list (fst s)) (snd s) (snd t) \<and> benches_rel (fst s) (snd s) (snd t)"

lemma list_carried_trans:
  assumes "list_carried p m m'" "list_carried p m' m''"
  shows "list_carried p m m''"
  unfolding list_carried_def
proof (intro conjI allI impI)
  show "datas m'' = datas m" using assms by (simp add: list_carried_def)
  fix xs
  assume "list_usable p m xs"
  with assms(1) obtain ys where ys: "list_usable p m' ys" "set ys \<subseteq> set xs" "above p m' ys = above p m xs"
    unfolding list_carried_def by blast
  with assms(2) obtain zs where zs: "list_usable p m'' zs" "set zs \<subseteq> set ys" "above p m'' zs = above p m' ys"
    unfolding list_carried_def by blast
  have "set zs \<subseteq> set xs" "above p m'' zs = above p m xs" using ys(2,3) zs(2,3) by simp_all
  with zs(1) show "\<exists>ys. list_usable p m'' ys \<and> set ys \<subseteq> set xs \<and> above p m'' ys = above p m xs" by blast
qed

lemma path_unique: "path h p xs NULL \<Longrightarrow> path h p ys NULL \<Longrightarrow> xs = ys"
proof (induction xs arbitrary: p ys)
  case Nil
  then show ?case by (cases ys) auto
next
  case (Cons x xs)
  then obtain y ys' where "ys = y # ys'" by (cases ys) auto
  with Cons show ?case by (auto split: option.splits)
qed

lemma stays_usable_trans:
  assumes "stays_usable s t" "stays_usable t u"
  shows "stays_usable s u"
proof -
  have i: "same_inputs (fst s) (fst t)" "same_inputs (fst t) (fst u)" using assms by (simp_all add: stays_usable_def)
  have "benches_rel (fst s) (snd t) (snd u)" "list_carried (r_list (fst s)) (snd t) (snd u)"
    using assms(2) same_inputs_benches(1) [OF i(1)] same_inputs_fields(6) [OF i(1)] by (simp_all add: stays_usable_def)
  with assms(1) show ?thesis
    using same_inputs_trans [OF i] list_carried_trans benches_rel_trans unfolding stays_usable_def by blast
qed

lemma stays_usable_usable:
  assumes "stays_usable s t" "usable s"
  shows "usable t"
proof -
  have i: "same_inputs (fst s) (fst t)" using assms(1) by (simp add: stays_usable_def)
  from assms obtain ys where "list_usable (r_list (fst s)) (snd t) ys"
    unfolding stays_usable_def usable_def list_carried_def by blast
  moreover have "benches_ready (fst s) (snd t)"
    using assms benches_rel_ready by (auto simp: stays_usable_def usable_def)
  ultimately show ?thesis
    unfolding usable_def same_inputs_fields(6) [OF i] same_inputs_benches(2) [OF i] by blast
qed

interpretation usable_runs: bench_contract usable stays_usable
proof
  show "usable s \<Longrightarrow> stays_usable s s" for s
    by (auto simp: usable_def stays_usable_def list_carried_def same_inputs_refl benches_rel_refl)
  show "stays_usable s t \<Longrightarrow> stays_usable t u \<Longrightarrow> stays_usable s u" for s t u
    by (rule stays_usable_trans)
  show "stays_usable s t \<Longrightarrow> usable s \<Longrightarrow> usable t" for s t
    by (rule stays_usable_usable)
  show "stays_usable s (re, m) \<Longrightarrow> same_inputs re re' \<Longrightarrow> stays_usable s (re', m)" for s re m re'
    unfolding stays_usable_def using same_inputs_trans by auto
  show "usable (re, m) \<Longrightarrow> \<exists>crc re' m'. core_bench_list re finder_idx m = Some (crc, re', m') \<and> stays_usable (re, m) (re', m')"
    for re m finder_idx
  proof -
    assume "usable (re, m)"
    then obtain xs where xs: "list_usable (r_list re) m xs" "benches_ready re m" by (auto simp: usable_def)
    from core_bench_list_usable [OF this, of finder_idx] obtain crc re' m' ys where
      b: "core_bench_list re finder_idx m = Some (crc, re', m')" "list_usable (r_list re') m' ys" "set ys \<subseteq> set xs"
        "above (r_list re') m' ys = above (r_list re) m xs" "datas m' = datas m" "same_inputs re re'" "benches_rel re m m'" by blast
    have one: "zs = xs" if "list_usable (r_list re) m zs" for zs
      using that xs(1) path_unique unfolding list_usable_def list_fit_def by blast
    have "list_carried (r_list re) m m'" unfolding list_carried_def
    proof (intro conjI allI impI)
      fix zs
      assume "list_usable (r_list re) m zs"
      then have "zs = xs" by (rule one)
      then show "\<exists>ys. list_usable (r_list re) m' ys \<and> set ys \<subseteq> set zs \<and> above (r_list re) m' ys = above (r_list re) m zs"
        using b(2-4) unfolding same_inputs_fields(6) [OF b(6)] by blast
    qed (rule b(5))
    with b show ?thesis by (auto simp: stays_usable_def)
  qed
qed

lemma iterate_ran:
  assumes "list_ready (r_list re) m xs" "benches_ready re m"
  obtains re' m' where "iterate re m = Some (re', m')" "ran re m re' m'" "list_ready (r_list re') m' xs" "benches_ready re' m'"
proof -
  have r: "iteration_ready xs (re, m)" using assms by (simp add: iteration_ready_def)
  obtain re' m' where i: "iterate re m = Some (re', m')" "iteration_keeps (re, m) (re', m')"
    using iterations.iterate_keeps [OF r] by blast
  with iterations.keeps_ready [OF i(2) r] that show thesis by (simp add: iteration_keeps_def iteration_ready_def)
qed

section \<open>Timed runs can be repeated\<close>

definition run_ok :: "run_state \<Rightarrow> bool" where
  "run_ok s \<longleftrightarrow> usable (rs_res s, rs_mem s)"

lemma timed_iterate_ok:
  assumes "run_ok s"
  obtains s' where "timed_iterate clk s = Some s'" "run_ok s'" "rs_reads s' = rs_reads s + 2"
    "get_time (rs_timer s') = fst (clk (rs_reads s + 1)) - fst (clk (rs_reads s))"
    "stays_usable (rs_res s, rs_mem s) (rs_res s', rs_mem s')"
proof -
  from assms have r: "usable (rs_res s, rs_mem s)" by (simp add: run_ok_def)
  obtain re m where i: "iterate (rs_res s) (rs_mem s) = Some (re, m)" "stays_usable (rs_res s, rs_mem s) (re, m)"
    using usable_runs.iterate_keeps [OF r] by blast
  show thesis
  proof (rule that)
    show "timed_iterate clk s = Some \<lparr>rs_reads = rs_reads s + 2,
        rs_timer = stop_time (fst (clk (rs_reads s + 1))) (snd (clk (rs_reads s + 1)))
           (start_time (fst (clk (rs_reads s))) (snd (clk (rs_reads s))) (rs_timer s)), rs_res = re, rs_mem = m\<rparr>"
      using i(1) by (simp add: timed_iterate_def Let_def)
  qed (use i(2) usable_runs.keeps_ready [OF i(2) r] in \<open>simp_all add: run_ok_def get_time_def stop_time_def start_time_def\<close>)
qed

lemma run_ok_iterations: "run_ok (s\<lparr>rs_res := (rs_res s)\<lparr>r_iterations := n\<rparr>\<rparr>) = run_ok s"
  by (simp add: run_ok_def usable_def benches_ready_def memblock_at_def cong: option.case_cong)

lemma calibrate_done: "\<not> secs < 1 \<Longrightarrow> calibrate clk secs s = Some (secs, s)"
  by (subst calibrate.simps) simp

text \<open>The seconds the \<open>k\<close>-th timed run shows.\<close>

definition run_secs :: "counters \<Rightarrow> nat \<Rightarrow> ee_u32" where
  "run_secs clk k = time_in_secs (fst (clk (2 * k + 1)) - fst (clk (2 * k)))"

lemma same_inputs_iterations: "same_inputs re re' \<Longrightarrow> r_iterations re' = r_iterations re"
  by (rule same_inputs_fields)

lemma calibrate_step:
  assumes "run_ok s" "rs_reads s = 2 * k"
  obtains s' where "calibrate clk 0 s = calibrate clk (run_secs clk k) s'" "run_ok s'" "rs_reads s' = 2 * (k + 1)"
    "r_iterations (rs_res s') = r_iterations (rs_res s) * 10"
proof -
  let ?s = "scale_iterations 10 s"
  have "run_ok ?s" using assms(1) by (simp add: scale_iterations_def run_ok_iterations)
  from timed_iterate_ok [OF this, of clk] obtain s' where
    s': "timed_iterate clk ?s = Some s'" "run_ok s'" "rs_reads s' = rs_reads ?s + 2"
    "get_time (rs_timer s') = fst (clk (rs_reads ?s + 1)) - fst (clk (rs_reads ?s))"
    "stays_usable (rs_res ?s, rs_mem ?s) (rs_res s', rs_mem s')" by blast
  have "time_in_secs (get_time (rs_timer s')) = run_secs clk k"
    using s'(4) assms(2) by (simp add: run_secs_def scale_iterations_def)
  then have "calibrate clk 0 s = calibrate clk (run_secs clk k) s'"
    using s'(1) by (subst calibrate.simps) simp
  then show thesis using that s' assms(2) same_inputs_fields(8) [of "rs_res ?s" "rs_res s'"] by (simp add: scale_iterations_def stays_usable_def)
qed

lemma calibrate_ok:
  assumes "run_ok s" "rs_reads s = 2 * k" "run_secs clk (k + n) \<noteq> 0" "\<forall>j < n. run_secs clk (k + j) = 0"
  shows "\<exists>s'. calibrate clk 0 s = Some (run_secs clk (k + n), s') \<and> run_ok s' \<and> rs_reads s' = 2 * (k + n + 1)
     \<and> r_iterations (rs_res s') = r_iterations (rs_res s) * 10 ^ Suc n"
  using assms
proof (induction n arbitrary: s k)
  case 0
  obtain s' where "calibrate clk 0 s = calibrate clk (run_secs clk k) s'" "run_ok s'" "rs_reads s' = 2 * (k + 1)"
    "r_iterations (rs_res s') = r_iterations (rs_res s) * 10" using calibrate_step [OF "0.prems"(1,2)] .
  with calibrate_done [of "run_secs clk k" clk s'] "0.prems"(3) show ?case by (simp add: word_less_1)
next
  case (Suc n)
  obtain s' where s': "calibrate clk 0 s = calibrate clk (run_secs clk k) s'" "run_ok s'" "rs_reads s' = 2 * (k + 1)"
    "r_iterations (rs_res s') = r_iterations (rs_res s) * 10" using calibrate_step [OF Suc.prems(1,2)] .
  have "run_secs clk (k + 1 + n) \<noteq> 0" "\<forall>j < n. run_secs clk (k + 1 + j) = 0" "run_secs clk k = 0"
    using Suc.prems(3,4) by (auto dest: spec [of _ "Suc _"] spec [of _ 0])
  with Suc.IH [OF s'(2,3)] s'(1,4) show ?case by auto
qed

text \<open>Without such a run the search for an iteration count does not end.\<close>

lemma calibrate_needs_second:
  assumes "calibrate clk secs s = Some y" "run_ok s" "rs_reads s = 2 * k"
  shows "secs \<noteq> 0 \<or> (\<exists>n. run_secs clk n \<noteq> 0)"
proof -
  define P where "P = (\<lambda>clk (secs :: ee_u32) s (y :: ee_u32 \<times> run_state).
    \<forall>k. run_ok s \<longrightarrow> rs_reads s = 2 * k \<longrightarrow> secs \<noteq> 0 \<or> (\<exists>n. run_secs clk n \<noteq> 0))"
  have "P clk secs s y" using _ assms(1)
  proof (rule calibrate.raw_induct)
    fix cal and clk and secs :: ee_u32 and s y
    assume IH: "\<And>clk secs s y. cal clk secs s = Some y \<Longrightarrow> P clk secs s y"
      and body: "(if secs < 1 then do { s \<leftarrow> timed_iterate clk (scale_iterations 10 s); cal clk (time_in_secs (get_time (rs_timer s))) s }
        else Some (secs, s)) = Some y"
    show "P clk secs s y" unfolding P_def
    proof (intro allI impI disjCI)
      fix k
      assume ok: "run_ok s" and k: "rs_reads s = 2 * k" and no: "\<nexists>n. run_secs clk n \<noteq> 0"
      show "secs \<noteq> 0"
      proof
        assume 0: "secs = 0"
        have "run_ok (scale_iterations 10 s)" using ok by (simp add: scale_iterations_def run_ok_iterations)
        from timed_iterate_ok [OF this, of clk] obtain t where
          t: "timed_iterate clk (scale_iterations 10 s) = Some t" "run_ok t" "rs_reads t = rs_reads (scale_iterations 10 s) + 2"
          "get_time (rs_timer t) = fst (clk (rs_reads (scale_iterations 10 s) + 1)) - fst (clk (rs_reads (scale_iterations 10 s)))" by blast
        have "time_in_secs (get_time (rs_timer t)) = run_secs clk k" and r: "rs_reads t = 2 * (k + 1)"
          using t(3,4) k by (simp_all add: run_secs_def scale_iterations_def)
        then have "cal clk (run_secs clk k) t = Some y" using body 0 t(1) by simp
        from IH [OF this] t(2) r have "run_secs clk k \<noteq> 0 \<or> (\<exists>n. run_secs clk n \<noteq> 0)" unfolding P_def by blast
        with no show False by blast
      qed
    qed
  qed
  then show ?thesis using assms(2,3) unfolding P_def by blast
qed

text \<open>
  Some timed run shows a whole second; with this, the iteration count is set.
\<close>

lemma set_iterations_ok:
  assumes "run_ok s" "rs_reads s = 0" "r_iterations (rs_res s) \<noteq> 0 \<or> (\<exists>n. run_secs clk n \<noteq> 0)"
  obtains s' where "set_iterations clk s = Some s'" "run_ok s'"
proof (cases "r_iterations (rs_res s) = 0")
  case False
  with assms(1) that show thesis by (simp add: set_iterations_def)
next
  case True
  with assms(3) have ex: "\<exists>n. run_secs clk n \<noteq> 0" by simp
  then obtain n where "run_secs clk n \<noteq> 0" "\<forall>j < n. \<not> run_secs clk j \<noteq> 0"
    using exists_least_iff [of "\<lambda>n. run_secs clk n \<noteq> 0"] by blast
  then have n: "run_secs clk (0 + n) \<noteq> 0" "\<forall>j < n. run_secs clk (0 + j) = 0" by simp_all
  let ?s = "s\<lparr>rs_res := (rs_res s)\<lparr>r_iterations := 1\<rparr>\<rparr>"
  have "run_ok ?s" "rs_reads ?s = 2 * 0" using assms(1,2) by (simp_all add: run_ok_iterations)
  from calibrate_ok [OF this n] obtain s' where "calibrate clk 0 ?s = Some (run_secs clk (0 + n), s')" "run_ok s'" by blast
  with True that show thesis by (simp add: set_iterations_def Let_def scale_iterations_def run_ok_iterations)
qed

section \<open>The set-up makes everything ready\<close>

text \<open>The benchmark block: room for the list cells at its start, and the bytes of the state
  machine in its last third.\<close>

definition static_block :: "addr \<Rightarrow> cmem \<Rightarrow> bool" where
  "static_block blk m \<longleftrightarrow> unat blk + 4096 < 2 ^ 32 \<and> region blk 31 m
     \<and> (case arr8 m (blk + 1332) of None \<Rightarrow> False | Some mem \<Rightarrow> 666 \<le> length mem \<and> length mem < 2 ^ 16)"

definition all_algorithms :: "ee_u32 \<Rightarrow> bool" where
  "all_algorithms execs \<longleftrightarrow> execs AND 7 = 7"

lemma all_selected:
  assumes "all_algorithms e"
  shows "selected 0 e" "selected (Suc 0) e" "selected 2 e"
    "e AND ID_LIST \<noteq> 0" "e AND ID_MATRIX \<noteq> 0" "e AND ID_STATE \<noteq> 0"
proof -
  have b: "bit e i" if "i < 3" for i
  proof -
    have "bit (7 :: 32 word) i" using that by (auto simp: less_Suc_eq numeral_3_eq_3)
    then have "bit (e AND 7) i" using assms by (simp add: all_algorithms_def)
    then show ?thesis by (simp add: bit_and_iff)
  qed
  have s: "push_bit i 1 AND e \<noteq> 0" if "i < 3" for i
    using b [OF that] by (simp add: and_exp_eq_0_iff_not_bit and.commute [of _ e])
  show "selected 0 e" "selected (Suc 0) e" "selected 2 e"
    using s [of 0] s [of 1] s [of 2] by (simp_all add: selected_def)
  show "e AND ID_LIST \<noteq> 0" "e AND ID_MATRIX \<noteq> 0" "e AND ID_STATE \<noteq> 0"
    unfolding ID_LIST_def ID_MATRIX_def ID_STATE_def and.commute [of e] using s [of 0] s [of 1] s [of 2] by simp_all
qed

lemma upt_algorithms: "[0..<NUM_ALGORITHMS] = [0, Suc 0, 2]"
  by (simp add: NUM_ALGORITHMS_def upt_rec)

lemma split_size_all:
  assumes "all_algorithms (r_execs re)" "r_size re = TOTAL_DATA_SIZE"
  shows "split_size re = Some (re\<lparr>r_size := 666\<rparr>)"
proof -
  have "num_algorithms (r_execs re) = 3"
    unfolding num_algorithms_def upt_algorithms using all_selected [OF assms(1)] by simp
  then show ?thesis using assms(2) by (simp add: split_size_def TOTAL_DATA_SIZE_def)
qed

lemma assign_pointers_all:
  assumes "all_algorithms (r_execs re)" "r_size re = 666" "r_memblock re = [b, x, y, z]"
  shows "assign_pointers re = re\<lparr>r_memblock := [b, b, b + 666, b + 1332]\<rparr>"
  unfolding assign_pointers_def upt_algorithms
  using all_selected [OF assms(1)] assms(2,3) by simp

lemma dim_666: "8 * n * n < (666 :: nat) \<Longrightarrow> 666 \<le> 8 * Suc n * Suc n \<Longrightarrow> n = 9"
proof -
  assume a: "8 * n * n < 666" "666 \<le> 8 * Suc n * Suc n"
  have "n < 10"
  proof (rule ccontr)
    assume "\<not> n < 10"
    then have "10 * 10 \<le> n * n" by (intro mult_le_mono) simp_all
    with a(1) show False by simp
  qed
  moreover have "9 \<le> n"
  proof (rule ccontr)
    assume "\<not> 9 \<le> n"
    then have "Suc n * Suc n \<le> 9 * 9" by (intro mult_le_mono) simp_all
    with a(2) show False by (simp only: mult.assoc)
  qed
  ultimately show ?thesis by simp
qed

text \<open>Three matrices of dimension 9 lie one behind the other inside 666 bytes.\<close>

definition matrices_inside :: "addr \<Rightarrow> mat_params \<Rightarrow> bool" where
  "matrices_inside b mat \<longleftrightarrow> mat_N mat = 9 \<and> unat b \<le> unat (mat_A mat) \<and> unat (mat_A mat) + 2 * 81 = unat (mat_B mat)
     \<and> unat (mat_B mat) + 2 * 81 \<le> unat (mat_C mat) \<and> unat (mat_C mat) + 4 * 81 \<le> unat b + 666"

lemma init_matrix_666:
  assumes "unat b + 1000 < 2 ^ 32"
  obtains mat m' where "core_init_matrix 666 b sd m = Some (mat, m')" "mat_ok (mat_N mat) (mat_C mat) (mat_A mat) (mat_B mat) m'"
    "heads m' = heads m" "datas m' = datas m" "arr8 m' = arr8 m" "matrices_inside b mat"
proof -
  obtain n where n: "8 * n * n < 666" "666 \<le> 8 * Suc n * Suc n"
    "core_init_matrix 666 b sd m =
      (let A = align_mem b; B = A + 2 * word_of_nat (n * n); C = align_mem (B + 2 * word_of_nat (n * n));
           sd' = (if sd = 0 then 1 else sd)
       in Some (\<lparr>mat_N = word_of_nat n, mat_A = A, mat_B = B, mat_C = C\<rparr>,
          upd_arr32 C (replicate (n * n) 0)
            (upd_arr16 B (map (B_cell sd') [0..<n * n]) (upd_arr16 A (map (A_cell sd') [0..<n * n]) m))))"
    using core_init_matrix_eq [of 666 b sd m] by auto
  have 9: "n = 9" using dim_666 [OF n(1,2)] .
  show thesis using n(3) unfolding 9 Let_def
    by (rule that) (use matrix_layout_nat [of b 81] assms in
        \<open>simp_all add: mat_ok_def dim_ok_def matrices_inside_def Let_def\<close>)
qed

lemma init_state_666:
  assumes "arr8 m b = Some mem" "666 \<le> length mem" "length mem < 2 ^ 16"
  obtains mem' where "core_init_state 666 sd b m = Some (upd_arr8 b mem' m)" "666 \<le> length mem'" "ends_safely 17 mem'"
proof -
  obtain j where j: "init_state_block 666 sd mem = Some (state_block 666 sd j @ drop 666 mem)" "length (patterns sd j) + 2 \<le> 666"
    using init_state_block_eq [of mem 666 sd] assms(2,3) by auto
  show thesis using assms(1) j length_state_block [OF j(2)] state_block_ends [OF j(2), of 17 "drop 666 mem"]
    by (intro that [of "state_block 666 sd j @ drop 666 mem"]) (simp_all add: core_init_state_def)
qed

text \<open>After the initialisations the benchmark can run.\<close>

lemma call_inits_all:
  assumes "all_algorithms (r_execs re)" "r_size re = 666" "r_memblock re = [blk, blk, blk + 666, blk + 1332]"
    "static_block blk m"
  obtains p mat m' xs where "call_inits re m = Some (re\<lparr>r_list := p, r_mat := mat\<rparr>, m')"
    "list_usable p m' xs" "distinct (init_indices 31 (r_seed1 re) 31) \<longrightarrow> list_ready p m' xs" "benches_ready (re\<lparr>r_list := p, r_mat := mat\<rparr>) m'" "length xs = 30" "matrices_inside (blk + 666) mat"
proof -
  from assms(4) obtain mem where sb: "region blk 31 m" "arr8 m (blk + 1332) = Some mem" "666 \<le> length mem" "length mem < 2 ^ 16"
    by (auto simp: static_block_def split: option.splits)
  obtain p m1 xs where 1: "core_list_init 666 blk (r_seed1 re) m = Some (p, m1)" "list_usable p m1 xs"
    "(arr8 m1, arr16 m1, arr32 m1) = (arr8 m, arr16 m, arr32 m)" "length xs = 30"
    "distinct (init_indices 31 (r_seed1 re) 31) \<longrightarrow> list_ready p m1 xs"
    using core_list_init_list_ready [of blk 666 m "r_seed1 re"] sb(1) by auto
  have "unat blk + 666 + 1000 < 2 ^ 32" using assms(4) by (simp add: static_block_def)
  then have "unat (blk + 666) + 1000 < 2 ^ 32" by (simp add: unat_word_ariths)
  then obtain mat m2 where 2: "core_init_matrix 666 (blk + 666) (promote_s16 (r_seed1 re) OR push_bit 16 (promote_s16 (r_seed2 re))) m1 = Some (mat, m2)"
    "mat_ok (mat_N mat) (mat_C mat) (mat_A mat) (mat_B mat) m2" "heads m2 = heads m1" "datas m2 = datas m1" "arr8 m2 = arr8 m1"
    "matrices_inside (blk + 666) mat" by (rule init_matrix_666)
  have "arr8 m2 (blk + 1332) = Some mem" using 1(3) 2(5) sb(2) by simp
  from init_state_666 [OF this sb(3,4)] obtain mem' where
    3: "core_init_state 666 (r_seed1 re) (blk + 1332) m2 = Some (upd_arr8 (blk + 1332) mem' m2)" "666 \<le> length mem'"
      "ends_safely 17 mem'" by blast
  show thesis
  proof (rule that)
    show "call_inits re m = Some (re\<lparr>r_list := p, r_mat := mat\<rparr>, upd_arr8 (blk + 1332) mem' m2)"
      using 1(1) 2(1) 3(1) all_selected(4-6) [OF assms(1)] assms(2,3)
      by (simp add: call_inits_def memblock_at_def numeral_3_eq_3)
    show "list_usable p (upd_arr8 (blk + 1332) mem' m2) xs"
      "distinct (init_indices 31 (r_seed1 re) 31) \<longrightarrow> list_ready p (upd_arr8 (blk + 1332) mem' m2) xs"
      using 1(2,5) list_ready_cong [of "upd_arr8 (blk + 1332) mem' m2" m1 p xs] 2(3,4) by simp_all
    show "benches_ready (re\<lparr>r_list := p, r_mat := mat\<rparr>) (upd_arr8 (blk + 1332) mem' m2)"
      using assms(2,3) 2(2) 3(2,3) by (simp add: benches_ready_def memblock_at_def mat_ok_def numeral_3_eq_3)
  qed (use 1(4) 2(6) in simp_all)
qed

text \<open>The seeds the run uses.\<close>

definition run_seeds :: "seed_vars \<Rightarrow> core_results \<Rightarrow> core_results" where
  "run_seeds sv re = default_seeds (read_seeds sv re)"

definition run_execs :: "seed_vars \<Rightarrow> ee_u32" where
  "run_execs sv = (if seed5_volatile sv = 0 then ALL_ALGORITHMS_MASK else seed5_volatile sv)"

lemma run_seeds_fields [simp]:
  "r_execs (run_seeds sv re) = run_execs sv" "r_memblock (run_seeds sv re) = r_memblock re"
  "r_iterations (run_seeds sv re) = seed4_volatile sv"
  by (simp_all add: run_seeds_def default_seeds_def read_seeds_def run_execs_def get_seed_32_def Let_def)

lemma set_up_ok:
  assumes "static_block blk m" "length (r_memblock re) = 4" "all_algorithms (run_execs sv)"
  obtains p mat m' xs where "set_up sv blk re m = Some ((run_seeds sv re)\<lparr>r_memblock := [blk, blk, blk + 666, blk + 1332],
      r_size := 666, r_err := 0, r_list := p, r_mat := mat\<rparr>, m')"
    "list_usable p m' xs" "distinct (init_indices 31 (r_seed1 (run_seeds sv re)) 31) \<longrightarrow> list_ready p m' xs"
    "benches_ready ((run_seeds sv re)\<lparr>r_memblock := [blk, blk, blk + 666, blk + 1332],
      r_size := 666, r_err := 0, r_list := p, r_mat := mat\<rparr>) m'" "length xs = 30" "matrices_inside (blk + 666) mat"
proof -
  let ?a = "static_memory blk (run_seeds sv re)"
  let ?b = "(run_seeds sv re)\<lparr>r_memblock := [blk, blk, blk + 666, blk + 1332], r_size := 666, r_err := 0\<rparr>"
  obtain w x y z where mb: "r_memblock re = [w, x, y, z]"
    using assms(2) by (auto simp: eval_nat_numeral length_Suc_conv)
  have "split_size ?a = Some (?a\<lparr>r_size := 666\<rparr>)" using assms(3) by (intro split_size_all) (simp_all add: static_memory_def)
  moreover have "assign_pointers (?a\<lparr>r_size := 666\<rparr>) = ?b"
    using assign_pointers_all [of "?a\<lparr>r_size := 666\<rparr>" blk x y z] assms(3) by (simp add: static_memory_def mb)
  ultimately have eq: "set_up sv blk re m = call_inits ?b m" by (simp add: set_up_def flip: run_seeds_def)
  have "all_algorithms (r_execs ?b)" "r_size ?b = 666" "r_memblock ?b = [blk, blk, blk + 666, blk + 1332]" using assms(3) by simp_all
  from call_inits_all [OF this assms(1)] obtain p mat m' xs where
    "call_inits ?b m = Some (?b\<lparr>r_list := p, r_mat := mat\<rparr>, m')" "list_usable p m' xs"
    "distinct (init_indices 31 (r_seed1 ?b) 31) \<longrightarrow> list_ready p m' xs"
    "benches_ready (?b\<lparr>r_list := p, r_mat := mat\<rparr>) m'" "length xs = 30" "matrices_inside (blk + 666) mat" .
  with eq that show thesis by simp
qed

end
