(* ===== verification/MainReport.thy ===== *)
theory MainReport
  imports CoreMain
begin

text \<open>
  What the driver \<^verbatim>\<open>coremark/core_main.c\<close> does as a whole: every line of its report prints, the
  verdict follows from the number of errors, and for suitable seeds the program always comes to
  its last write. The model itself is in \<^verbatim>\<open>CoreMain\<close>.
\<close>

section \<open>Printing\<close>

text \<open>The arguments of a call match its directives.\<close>

definition arg_ok :: "char \<Rightarrow> va list \<Rightarrow> va list option" where
  "arg_ok d ap =
     (if d = CHR ''d'' \<or> d = CHR ''u'' \<or> d = CHR ''x'' then map_option snd (va_int ap)
      else if d = CHR ''s'' then map_option snd (va_str ap) else None)"

function args_match :: "string \<Rightarrow> va list \<Rightarrow> bool" where
  "args_match [] ap = True"
| "args_match (c # p) ap =
     (if c \<noteq> CHR ''%'' then args_match p ap
      else (case read_flags p of (pad, width, q) \<Rightarrow>
        (case q of [] \<Rightarrow> False
         | d # r \<Rightarrow> (case arg_ok d ap of None \<Rightarrow> False | Some ap \<Rightarrow> args_match r ap))))"
  by pat_completeness auto
termination
proof (relation "measure (\<lambda>(fmt, ap). length fmt)", goal_cases)
  case 3
  then show ?case by (auto dest!: read_flags_length [OF sym])
qed auto

lemma arg_ok_put:
  assumes "arg_ok d ap = Some ap'"
  shows "\<exists>out. put_directive d width pad ap = Some (out, ap') \<and> only_uart out"
proof -
  consider v where "d = CHR ''d''" "ap = VInt v # ap'" | v where "d = CHR ''u''" "ap = VInt v # ap'"
    | v where "d = CHR ''x''" "ap = VInt v # ap'" | s where "d = CHR ''s''" "ap = VStr s # ap'"
    using assms by (auto simp: arg_ok_def elim!: va_int.elims va_str.elims split: if_splits)
  then show ?thesis
    by cases (simp_all add: put_directive_def put_signed_text put_unsigned_text)
qed

lemma args_match_printf: "args_match fmt ap \<Longrightarrow> \<exists>out. ee_printf fmt ap = Some out \<and> only_uart out"
proof (induction fmt ap rule: args_match.induct)
  case (2 c p ap)
  show ?case
  proof (cases "c = CHR ''%''")
    case False
    with 2 show ?thesis by auto
  next
    case True
    obtain pad width q where rf: "read_flags p = (pad, width, q)" by (metis prod_cases3)
    with True "2.prems" obtain d r ap' where d: "q = d # r" "arg_ok d ap = Some ap'" "args_match r ap'"
      by (auto split: list.splits option.splits)
    from "2.IH"(2) [OF _ rf [symmetric] refl d(1) d(2) d(3)] True obtain rest where
      rest: "ee_printf r ap' = Some rest" "only_uart rest" by auto
    obtain out where out: "put_directive d width pad ap = Some (out, ap')" "only_uart out"
      using arg_ok_put [OF d(2)] by blast
    have "\<not> (case p of e # _ \<Rightarrow> e = CHR ''%'' | [] \<Rightarrow> False)"
    proof
      assume "case p of e # _ \<Rightarrow> e = CHR ''%'' | [] \<Rightarrow> False"
      then obtain p' where "p = CHR ''%'' # p'" by (auto split: list.splits)
      with rf d(1,2) show False by (auto simp: read_flags_def arg_ok_def)
    qed
    with True rf d(1) out rest show ?thesis by simp
  qed
qed simp

definition printable :: "call list \<Rightarrow> bool" where
  "printable cs \<longleftrightarrow> list_all (\<lambda>c. args_match (fst c) (snd c)) cs"

lemma printable_simps [simp]:
  "printable []" "printable (c # cs) \<longleftrightarrow> args_match (fst c) (snd c) \<and> printable cs"
  "printable (cs @ ds) \<longleftrightarrow> printable cs \<and> printable ds"
  by (simp_all add: printable_def)

lemma printable_prints: "printable cs \<Longrightarrow> \<exists>out. prints cs = Some out \<and> only_uart out"
proof (induction cs)
  case (Cons c cs)
  then obtain a b where "ee_printf (fst c) (snd c) = Some a" "only_uart a" "prints cs = Some b" "only_uart b"
    using args_match_printf by fastforce
  then show ?case by simp
qed simp

lemma prints_append: "prints (cs @ ds) = do { a \<leftarrow> prints cs; b \<leftarrow> prints ds; Some (a @ b) }"
proof (induction cs)
  case (Cons c cs)
  then show ?case by (cases "ee_printf (fst c) (snd c)"; cases "prints cs"; cases "prints ds") simp_all
qed (cases "prints ds"; simp)

lemma args_match_text: "CHR ''%'' \<notin> set s \<Longrightarrow> args_match s ap"
  by (induction s) auto

lemma read_flags_simps [simp]:
  "read_flags (CHR ''d'' # p) = (CHR '' '', 0, CHR ''d'' # p)" "read_flags (CHR ''u'' # p) = (CHR '' '', 0, CHR ''u'' # p)"
  "read_flags (CHR ''s'' # p) = (CHR '' '', 0, CHR ''s'' # p)" "read_flags (CHR ''l'' # CHR ''u'' # p) = (CHR '' '', 0, CHR ''u'' # p)"
  "read_flags (CHR ''0'' # CHR ''4'' # CHR ''x'' # p) = (CHR ''0'', 4, CHR ''x'' # p)"
  by (simp_all add: read_flags_def)

lemma time_lines_printable: "printable (time_lines t re)"
  by (simp add: time_lines_def arg_ok_def)

lemma result_lines_printable: "printable (result_lines version re)"
  by (simp add: result_lines_def arg_ok_def)

text \<open>How many of the check sums differ from the known ones.\<close>

definition mismatches :: "nat \<Rightarrow> core_results \<Rightarrow> nat" where
  "mismatches known_id re =
     of_bool (r_execs re AND ID_LIST \<noteq> 0 \<and> r_crclist re \<noteq> list_known_crc ! known_id) +
     of_bool (r_execs re AND ID_MATRIX \<noteq> 0 \<and> r_crcmatrix re \<noteq> matrix_known_crc ! known_id) +
     of_bool (r_execs re AND ID_STATE \<noteq> 0 \<and> r_crcstate re \<noteq> state_known_crc ! known_id)"

lemma check_crc_printable:
  "(\<And>a b c. args_match fmt [VInt a, VInt b, VInt c]) \<Longrightarrow> printable (snd s) \<Longrightarrow> printable (snd (check_crc w fmt c k s))"
  by (simp add: check_crc_def)

lemma check_crc_result:
  "fst (check_crc w fmt c k (re\<lparr>r_err := e\<rparr>, cs))
    = re\<lparr>r_err := e + of_bool (r_execs re AND w \<noteq> 0 \<and> c \<noteq> k)\<rparr>"
  by (simp add: check_crc_def)

lemma error_formats:
  "args_match (''[%u]ERROR! list crc 0x%04x - should be 0x%04x'' @ [LF]) [VInt a, VInt b, VInt c]"
  "args_match (''[%u]ERROR! matrix crc 0x%04x - should be 0x%04x'' @ [LF]) [VInt a, VInt b, VInt c]"
  "args_match (''[%u]ERROR! state crc 0x%04x - should be 0x%04x'' @ [LF]) [VInt a, VInt b, VInt c]"
  by (simp_all add: arg_ok_def)

lemma check_results_eq:
  assumes "known_id < 5"
  shows "\<exists>cs. check_results known_id re = Some (re\<lparr>r_err := word_of_nat (mismatches known_id re)\<rparr>, cs) \<and> printable cs"
proof -
  have rds: "rd list_known_crc known_id = Some (list_known_crc ! known_id)" "rd matrix_known_crc known_id = Some (matrix_known_crc ! known_id)"
    "rd state_known_crc known_id = Some (state_known_crc ! known_id)"
    using assms by (simp_all add: list_known_crc_def matrix_known_crc_def state_known_crc_def)
  let ?s1 = "check_crc ID_LIST (''[%u]ERROR! list crc 0x%04x - should be 0x%04x'' @ [LF]) (r_crclist re) (list_known_crc ! known_id) (re\<lparr>r_err := 0\<rparr>, [])"
  let ?s2 = "check_crc ID_MATRIX (''[%u]ERROR! matrix crc 0x%04x - should be 0x%04x'' @ [LF]) (r_crcmatrix re) (matrix_known_crc ! known_id) ?s1"
  let ?s3 = "check_crc ID_STATE (''[%u]ERROR! state crc 0x%04x - should be 0x%04x'' @ [LF]) (r_crcstate re) (state_known_crc ! known_id) ?s2"
  have "check_results known_id re = Some ?s3" unfolding check_results_def rds Let_def by simp
  moreover have "printable (snd ?s3)" by (intro check_crc_printable error_formats) simp
  moreover have "fst ?s3 = re\<lparr>r_err := word_of_nat (mismatches known_id re)\<rparr>"
    by (simp add: check_crc_def mismatches_def del: append.simps)
  ultimately show ?thesis by (metis prod.collapse)
qed

lemma known_run_id: "known_run c = Some (i, msg) \<Longrightarrow> i < 5 \<and> CHR ''%'' \<notin> set msg"
  by (auto simp: known_run_def split: if_splits)

definition right_sizes :: "type_sizes \<Rightarrow> bool" where
  "right_sizes z \<longleftrightarrow> size_u8 z = 1 \<and> size_u16 z = 2 \<and> size_s16 z = 2 \<and> size_s32 z = 4 \<and> size_u32 z = 4
     \<and> size_ptr_int z = size_int_pointer z"

lemma right_sizes_port: "right_sizes port_sizes"
  by (simp add: right_sizes_def port_sizes_def sizeof_def)

lemma no_type_checks: "filter fst (data_type_checks z) = [] \<longleftrightarrow> right_sizes z"
  by (auto simp: data_type_checks_def right_sizes_def)

lemma check_data_types_eq: "check_data_types port_sizes = (0, [])"
  using no_type_checks [of port_sizes] right_sizes_port by (simp add: check_data_types_def)

text \<open>The number of errors the report counts: the mismatches for known parameters, -1 for others, and
  one more when the run was short.\<close>

definition error_count :: "ee_u32 \<Rightarrow> core_results \<Rightarrow> int" where
  "error_count total_time re =
     (case known_run (seed_crc re) of None \<Rightarrow> - 1 | Some (known_id, _) \<Rightarrow> int (mismatches known_id re)) +
     of_bool (time_in_secs total_time < 10)"

lemma verdict_text: "CHR ''%'' \<notin> set (verdict e)"
  by (simp add: verdict_def)

lemma report_eq:
  "\<exists>e cs. report version total_time re = Some (e, cs @ [(verdict e, [])]) \<and> printable cs \<and> sint e = error_count total_time re"
proof -
  obtain e re' known where v: "validate re = Some (e, re', known)" "printable known"
    "e \<in> {- 1, 0, 1, 2, 3}" "sint e + of_bool (time_in_secs total_time < 10) = error_count total_time re"
  proof (cases "known_run (seed_crc re)")
    case None
    with that [of "- 1" re "[]"] show thesis by (simp add: validate_def error_count_def)
  next
    case (Some k)
    then obtain i msg where k: "known_run (seed_crc re) = Some (i, msg)" "i < 5" "CHR ''%'' \<notin> set msg"
      using known_run_id by (cases k) auto
    obtain cs where cs: "check_results i re = Some (re\<lparr>r_err := word_of_nat (mismatches i re)\<rparr>, cs)" "printable cs"
      using check_results_eq [OF k(2)] by blast
    have "mismatches i re \<le> 3" by (simp add: mismatches_def)
    then have "mismatches i re \<in> {0, 1, 2, 3}" by auto
    then show thesis
      using that [of "word_of_nat (mismatches i re)"] cs by (auto simp: validate_def error_count_def k args_match_text)
  qed
  let ?e = "if time_in_secs total_time < 10 then e + 1 else e"
  let ?cs = "known @ time_lines total_time re' @ result_lines version re'"
  have "report version total_time re = Some (?e, ?cs @ [(verdict ?e, [])])"
    by (simp add: report_def v(1) check_data_types_eq Let_def)
  moreover have "printable ?cs" using v(2) time_lines_printable result_lines_printable by simp
  moreover have "sint ?e = error_count total_time re" using v(3,4) by auto
  ultimately show ?thesis by blast
qed

section \<open>Properties\<close>



text \<open>
  C9: what \<^verbatim>\<open>main\<close> sets up. With all algorithms selected and a static block of 2000 bytes that lies
  inside the address space, the set-up returns for all seeds; every algorithm gets 666 bytes, one
  behind the other; the list, of 30 nodes, is usable, and ready when the seed gives the nodes
  different indices; the other benchmarks can run; and the three matrices, of dimension 9, lie
  inside the second piece, one behind the other.
\<close>

theorem set_up_layout:
  assumes "static_block blk m" "length (r_memblock re) = 4" "all_algorithms (run_execs sv)"
  shows "\<exists>re' m' xs. set_up sv blk re m = Some (re', m')
     \<and> r_size re' = 666 \<and> r_memblock re' = [blk, blk, blk + 666, blk + 2 * 666]
     \<and> list_usable (r_list re') m' xs \<and> length xs = 30
     \<and> (distinct (init_indices 31 (r_seed1 (run_seeds sv re)) 31) \<longrightarrow> list_ready (r_list re') m' xs)
     \<and> benches_ready re' m' \<and> matrices_inside (blk + 666) (r_mat re')"
proof -
  obtain p mat m' xs where "set_up sv blk re m = Some ((run_seeds sv re)\<lparr>r_memblock := [blk, blk, blk + 666, blk + 1332],
      r_size := 666, r_err := 0, r_list := p, r_mat := mat\<rparr>, m')"
    "list_usable p m' xs" "distinct (init_indices 31 (r_seed1 (run_seeds sv re)) 31) \<longrightarrow> list_ready p m' xs"
    "benches_ready ((run_seeds sv re)\<lparr>r_memblock := [blk, blk, blk + 666, blk + 1332],
      r_size := 666, r_err := 0, r_list := p, r_mat := mat\<rparr>) m'" "length xs = 30" "matrices_inside (blk + 666) mat"
    using set_up_ok [OF assms] .
  then show ?thesis by auto
qed

text \<open>The port: its seeds, and a blank block for it.\<close>

definition port_seeds :: seed_vars where
  "port_seeds = \<lparr>seed1_volatile = 0x3415, seed2_volatile = 0x3415, seed3_volatile = 0x66, seed4_volatile = 1, seed5_volatile = 0\<rparr>"

definition port_mem :: cmem where
  "port_mem = upd_arr8 (0x1000 + 1332) (replicate 668 0) (blank_mem 0x1000 31)"

definition port_results :: core_results where
  "port_results = small_results\<lparr>r_memblock := [0, 0, 0, 0]\<rparr>"

lemma port_ready:
  "static_block 0x1000 port_mem" "length (r_memblock port_results) = 4" "all_algorithms (run_execs port_seeds)"
  and port_distinct: "distinct (init_indices 31 (r_seed1 (run_seeds port_seeds port_results)) 31)"
proof -
  have "region 0x1000 31 port_mem" by (rule region_blank) (simp_all add: port_mem_def blank_mem_def)
  then show "static_block 0x1000 port_mem" by (simp add: static_block_def port_mem_def)
  show "length (r_memblock port_results) = 4" by (simp add: port_results_def)
  show "all_algorithms (run_execs port_seeds)"
    by (simp add: all_algorithms_def run_execs_def port_seeds_def ALL_ALGORITHMS_MASK_def ID_LIST_def ID_MATRIX_def ID_STATE_def)
  have "r_seed1 (run_seeds port_seeds port_results) = 0x3415"
    by (simp add: run_seeds_def default_seeds_def read_seeds_def get_seed_32_def port_seeds_def Let_def)
  then show "distinct (init_indices 31 (r_seed1 (run_seeds port_seeds port_results)) 31)" using standard_indices(2) by simp
qed

theorem set_up_layout_witness:
  "\<exists>re' m' xs. set_up port_seeds 0x1000 port_results port_mem = Some (re', m')
     \<and> r_size re' = 666 \<and> list_ready (r_list re') m' xs \<and> length xs = 30 \<and> matrices_inside (0x1000 + 666) (r_mat re')"
  using set_up_layout [OF port_ready] port_distinct by blast

lemma portable_init_prints: "\<exists>h tr. portable_init p = Some (\<lparr>portable_id = 1\<rparr>, h, tr) \<and> only_uart tr"
  by (cases p) (simp add: portable_init_def put_unsigned_text CORE_CLOCK_HZ_def del: uart_puts.simps append.simps)

lemma portable_fini_trace: "\<exists>tr. portable_fini t = Some (tr @ [(TOHOST_ADDR, 1)]) \<and> only_uart tr"
  unfolding portable_fini_def Let_def
  by (simp add: put_unsigned_text mmio_write32_def del: uart_puts.simps)

lemma prints_verdict: "prints (cs @ [(verdict e, [])]) = map_option (\<lambda>out. out @ uart_puts (verdict e)) (prints cs)"
proof -
  have "ee_printf (verdict e) [] = Some (uart_puts (verdict e))" using ee_printf_text [OF verdict_text, of e "[]" "[]"] by simp
  then show ?thesis unfolding prints_append by (cases "prints cs") simp_all
qed

lemma main_run:
  assumes "static_block blk m" "length (r_memblock re) = 4" "all_algorithms (run_execs sv)"
    "seed4_volatile sv \<noteq> 0 \<or> (\<exists>n. run_secs clk n \<noteq> 0)"
  shows "\<exists>trace e summary re1 m1 s2 s3. main clk version sv blk re m = Some (trace @ uart_puts (verdict e) @ summary @ [(TOHOST_ADDR, 1)])
     \<and> only_uart trace \<and> only_uart summary
     \<and> set_up sv blk (re\<lparr>r_port := \<lparr>portable_id = 1\<rparr>\<rparr>) m = Some (re1, m1) \<and> set_iterations clk (start_state re1 m1) = Some s2
     \<and> timed_iterate clk s2 = Some s3 \<and> sint e = error_count (get_time (rs_timer s3)) (rs_res s3)"
proof -
  let ?re = "re\<lparr>r_port := \<lparr>portable_id = 1\<rparr>\<rparr>"
  obtain h banner where b: "portable_init (r_port re) = Some (\<lparr>portable_id = 1\<rparr>, h, banner)" "only_uart banner"
    using portable_init_prints [of "r_port re"] by blast
  have d: "length (r_memblock ?re) = 4" using assms(2) by simp
  obtain p mat m1 xs where s: "set_up sv blk ?re m = Some ((run_seeds sv ?re)\<lparr>r_memblock := [blk, blk, blk + 666, blk + 1332],
      r_size := 666, r_err := 0, r_list := p, r_mat := mat\<rparr>, m1)"
    "list_usable p m1 xs" "benches_ready ((run_seeds sv ?re)\<lparr>r_memblock := [blk, blk, blk + 666, blk + 1332],
      r_size := 666, r_err := 0, r_list := p, r_mat := mat\<rparr>) m1"
    by (rule set_up_ok [OF assms(1) d assms(3)])
  define r1 where "r1 = (run_seeds sv ?re)\<lparr>r_memblock := [blk, blk, blk + 666, blk + 1332],
      r_size := 666, r_err := 0, r_list := p, r_mat := mat\<rparr>"
  have r1: "r_list r1 = p" "r_iterations r1 = seed4_volatile sv" by (simp_all add: r1_def)
  have "run_ok (start_state r1 m1)" using s(2,3) r1(1) by (auto simp: run_ok_def usable_def start_state_def simp flip: r1_def)
  then obtain s2 where s2: "set_iterations clk (start_state r1 m1) = Some s2" "run_ok s2"
    by (rule set_iterations_ok) (use assms(4) r1(2) in \<open>simp_all add: start_state_def\<close>)
  obtain s3 where s3: "timed_iterate clk s2 = Some s3" using timed_iterate_ok [OF s2(2)] by blast
  obtain e cs where r: "report version (get_time (rs_timer s3)) (rs_res s3) = Some (e, cs @ [(verdict e, [])])" "printable cs"
    "sint e = error_count (get_time (rs_timer s3)) (rs_res s3)" using report_eq by blast
  obtain out where o: "prints cs = Some out" "only_uart out" using printable_prints [OF r(2)] by blast
  obtain fin where f: "portable_fini (rs_timer s3) = Some (fin @ [(TOHOST_ADDR, 1)])" "only_uart fin"
    using portable_fini_trace by blast
  have "main clk version sv blk re m = Some ((banner @ out) @ uart_puts (verdict e) @ fin @ [(TOHOST_ADDR, 1)])"
    unfolding main_def using b s(1) [folded r1_def] s2(1) s3 r(1) o(1) f(1) by (simp add: prints_verdict)
  then show ?thesis using b(2) o(2) f(2) s(1) [folded r1_def] s2(1) s3 r(3) by (metis only_uart_simps(2))
qed

text \<open>
  C1: the whole program ends its work. Whatever the results structure and the memory hold at the
  start, for all seeds that select all algorithms, and an iteration count that is given or, if it is
  zero, counters that at some point show a whole second, \<^verbatim>\<open>main\<close> sets up, runs, validates and prints its whole report, and the only write that
  does not go to the UART is the last one, which signals success on \<^verbatim>\<open>tohost\<close>. The report ends with
  the verdict on the number of errors counted in the final results and measured time.
\<close>

theorem main_completes:
  assumes "static_block blk m" "length (r_memblock re) = 4" "all_algorithms (run_execs sv)"
    "seed4_volatile sv \<noteq> 0 \<or> (\<exists>n. run_secs clk n \<noteq> 0)"
  shows "\<exists>trace e summary re1 m1 s2 s3. main clk version sv blk re m = Some (trace @ uart_puts (verdict e) @ summary @ [(TOHOST_ADDR, 1)])
     \<and> only_uart trace \<and> only_uart summary
     \<and> set_up sv blk (re\<lparr>r_port := \<lparr>portable_id = 1\<rparr>\<rparr>) m = Some (re1, m1) \<and> set_iterations clk (start_state re1 m1) = Some s2
     \<and> timed_iterate clk s2 = Some s3 \<and> sint e = error_count (get_time (rs_timer s3)) (rs_res s3)"
  by (rule main_run [OF assms])

theorem main_completes_witness:
  "\<exists>trace e summary. main (\<lambda>k. (word_of_nat (1000 * k), word_of_nat (900 * k))) ''GCC'' port_seeds 0x1000 port_results port_mem
       = Some (trace @ uart_puts (verdict e) @ summary @ [(TOHOST_ADDR, 1)]) \<and> only_uart trace \<and> only_uart summary"
proof -
  let ?clk = "\<lambda>k. (word_of_nat (1000 * k), word_of_nat (900 * k)) :: 32 word \<times> 32 word"
  have "seed4_volatile port_seeds \<noteq> 0 \<or> (\<exists>n. run_secs ?clk n \<noteq> 0)" by (simp add: port_seeds_def)
  from main_completes [OF port_ready this, of "''GCC''"] show ?thesis by blast
qed

lemma type_checks_printable: "printable (map (\<lambda>c. (snd c, [])) (filter fst (data_type_checks z)))"
  by (auto simp: data_type_checks_def printable_def)


text \<open>
  C10: the report. It always comes to an end; its last line is the verdict on the number of errors
  it counted, and that is the number of check sums that differ from the known ones when the seed
  check sum is a known one, -1 otherwise, and in both cases one more when the run took less than
  ten seconds.
\<close>

theorem report_counts_errors:
  "\<exists>e lines out. report version total_time re = Some (e, lines @ [(verdict e, [])])
     \<and> prints (lines @ [(verdict e, [])]) = Some (out @ uart_puts (verdict e)) \<and> only_uart out
     \<and> sint e = error_count total_time re"
proof -
  obtain e cs where r: "report version total_time re = Some (e, cs @ [(verdict e, [])])" "printable cs"
    "sint e = error_count total_time re" using report_eq by blast
  obtain out where "prints cs = Some out" "only_uart out" using printable_prints [OF r(2)] by blast
  with r show ?thesis by (auto simp: prints_verdict)
qed

text \<open>
  C38: for parameters that are not known the report claims a correct run when the run was too short:
  the -1 that marks unknown parameters and the error for a run of less than ten seconds cancel
  out, and the last line is \<^verbatim>\<open>Correct operation validated\<close>.
\<close>

theorem short_unknown_run_is_validated:
  assumes "known_run (seed_crc re) = None" "time_in_secs total_time < 10"
  shows "\<exists>lines. report version total_time re
     = Some (0, lines @ [(''Correct operation validated. See README.md for run and reporting rules.'' @ [LF], [])])"
proof -
  obtain e cs where r: "report version total_time re = Some (e, cs @ [(verdict e, [])])"
    "sint e = error_count total_time re" using report_eq by blast
  have "sint e = 0" using r(2) assms by (simp add: error_count_def)
  moreover have "e = word_of_int (sint e)" by simp
  ultimately have "e = 0" by (simp only: of_int_0)
  with r(1) show ?thesis by (simp add: verdict_def)
qed

theorem short_unknown_run_is_validated_witness:
  "\<exists>lines. report ''GCC'' 1000 (small_results\<lparr>r_seed1 := 5, r_crclist := 0xbad\<rparr>)
     = Some (0, lines @ [(''Correct operation validated. See README.md for run and reporting rules.'' @ [LF], [])])"
proof (rule short_unknown_run_is_validated)
  show "known_run (seed_crc (small_results\<lparr>r_seed1 := 5, r_crclist := 0xbad\<rparr>)) = None" by code_simp
  show "time_in_secs 1000 < 10" by code_simp
qed

lemma seed_crc_values:
  "fold crc16 [0, 0, 0x66, 2000] 0 = 0x8a02" "fold crc16 [0x3415, 0x3415, 0x66, 2000] 0 = 0x7b05"
  "fold crc16 [8, 8, 8, 400] 0 = 0x4eaf" "fold crc16 [0, 0, 0x66, 666] 0 = 0xe9f5"
  "fold crc16 [0x3415, 0x3415, 0x66, 666] 0 = 0x18f2"
  by code_simp+

text \<open>
  the seed check sums in the switch of \<^verbatim>\<open>main\<close> are those of the parameters its comments name,
  and the seeds this port uses with 666 bytes per algorithm are those of the 2K validation run.
\<close>

theorem known_seed_crcs:
  "list_all (\<lambda>(sd1, sd2, sd3, sz, known_id).
      map_option fst (known_run (seed_crc (small_results\<lparr>r_seed1 := sd1, r_seed2 := sd2, r_seed3 := sd3, r_size := sz\<rparr>))) = Some known_id)
    [(0, 0, 0x66, 2000, 0), (0x3415, 0x3415, 0x66, 2000, 1), (8, 8, 8, 400, 2), (0, 0, 0x66, 666, 3), (0x3415, 0x3415, 0x66, 666, 4)]"
  using seed_crc_values by (simp add: seed_crc_def known_run_def)

text \<open>
  C39: when the automatic choice of the number of iterations ends. On a usable list, it
  returns if and only if a number of iterations was given or some timed run shows a whole number
  of seconds different from zero; with counters that never show one, it multiplies the number by ten
  for ever.
\<close>

theorem set_iterations_terminates:
  assumes "list_usable (r_list re) m xs" "benches_ready re m"
  shows "(\<exists>s. set_iterations clk (start_state re m) = Some s) \<longleftrightarrow> r_iterations re \<noteq> 0 \<or> (\<exists>n. run_secs clk n \<noteq> 0)"
proof -
  have ok: "run_ok (start_state re m)" using assms by (auto simp: run_ok_def usable_def start_state_def)
  show ?thesis
  proof
    assume "r_iterations re \<noteq> 0 \<or> (\<exists>n. run_secs clk n \<noteq> 0)"
    with set_iterations_ok [OF ok, of clk] show "\<exists>s. set_iterations clk (start_state re m) = Some s" by (auto simp: start_state_def)
  next
    assume "\<exists>s. set_iterations clk (start_state re m) = Some s"
    then obtain s where s: "set_iterations clk (start_state re m) = Some s" ..
    show "r_iterations re \<noteq> 0 \<or> (\<exists>n. run_secs clk n \<noteq> 0)"
    proof (cases "r_iterations re = 0")
      case True
      let ?s = "(start_state re m)\<lparr>rs_res := re\<lparr>r_iterations := 1\<rparr>\<rparr>"
      from s True obtain secs s' where "calibrate clk 0 ?s = Some (secs, s')"
        by (auto simp: set_iterations_def start_state_def Let_def bind_eq_Some_conv)
      moreover have "run_ok ?s" using run_ok_iterations [where s = "start_state re m" and n = 1] ok by (simp add: start_state_def)
      ultimately show ?thesis using calibrate_needs_second [of clk 0 ?s "(secs, s')" 0] by (simp add: start_state_def)
    qed simp
  qed
qed

theorem set_iterations_terminates_witness:
  "set_iterations (\<lambda>k. (0, 0)) (start_state (small_results\<lparr>r_iterations := 0\<rparr>) small_mem) = None"
proof -
  let ?re = "small_results\<lparr>r_iterations := 0\<rparr>"
  have l: "list_usable (r_list ?re) small_mem [8, 16, 24]" using list_ready_usable [OF small_list_ready] by (simp add: small_results_def)
  have b: "benches_ready ?re small_mem"
    using small_ready by (simp add: benches_ready_def memblock_at_def cong: option.case_cong)
  have "run_secs (\<lambda>k. (0, 0)) n = 0" for n by (simp add: run_secs_def time_in_secs_def)
  with set_iterations_terminates [OF l b, of "\<lambda>k. (0, 0)"] show ?thesis by (cases "set_iterations (\<lambda>k. (0, 0)) (start_state ?re small_mem)") auto
qed

text \<open>
  The automatic choice of the number of iterations. When the run that first shows a whole
  number of seconds different from zero is the one with index \<open>n\<close>, the count becomes
  \<open>10^(n+1)\<close> times one plus ten divided by these seconds, in 32-bit arithmetic.
\<close>

theorem set_iterations_count:
  assumes "list_usable (r_list re) m xs" "benches_ready re m" "r_iterations re = 0"
    "run_secs clk n \<noteq> 0" "\<forall>j < n. run_secs clk j = 0"
  shows "\<exists>s. set_iterations clk (start_state re m) = Some s \<and> rs_reads s = 2 * (n + 1)
     \<and> r_iterations (rs_res s) = 10 ^ Suc n * (1 + 10 div run_secs clk n)"
proof -
  let ?s = "(start_state re m)\<lparr>rs_res := re\<lparr>r_iterations := 1\<rparr>\<rparr>"
  have "run_ok (start_state re m)" using assms(1,2) by (auto simp: run_ok_def usable_def start_state_def)
  then have "run_ok ?s" using run_ok_iterations [where s = "start_state re m" and n = 1] by (simp add: start_state_def)
  from calibrate_ok [OF this, of 0 clk n] assms(4,5) obtain s where
    s: "calibrate clk 0 ?s = Some (run_secs clk n, s)" "rs_reads s = 2 * (n + 1)" "r_iterations (rs_res s) = 10 ^ Suc n"
    by (auto simp: start_state_def)
  then show ?thesis
    using assms(3,4) by (simp add: set_iterations_def start_state_def scale_iterations_def Let_def)
qed

text \<open>In particular, a first run of any time between one tick and one second settles the count.\<close>

theorem set_iterations_count_witness:
  "\<exists>s. set_iterations (\<lambda>k. (word_of_nat (1000 * k), 0)) (start_state (small_results\<lparr>r_iterations := 0\<rparr>) small_mem) = Some s
     \<and> r_iterations (rs_res s) = 110"
proof -
  let ?re = "small_results\<lparr>r_iterations := 0\<rparr>" and ?clk = "\<lambda>k. (word_of_nat (1000 * k), 0) :: 32 word \<times> 32 word"
  have "list_usable (r_list ?re) small_mem [8, 16, 24]" using list_ready_usable [OF small_list_ready] by (simp add: small_results_def)
  moreover have "benches_ready ?re small_mem"
    using small_ready by (simp add: benches_ready_def memblock_at_def cong: option.case_cong)
  moreover have "run_secs ?clk 0 = 1" by code_simp
  ultimately show ?thesis using set_iterations_count [of ?re small_mem "[8, 16, 24]" ?clk 0] by auto
qed

text \<open>
  a selection of algorithms that includes none of the three makes \<^verbatim>\<open>main\<close> divide by zero before it
  sets anything up.
\<close>

theorem main_without_algorithm:
  assumes "seed5_volatile sv \<noteq> 0" "seed5_volatile sv AND 7 = 0"
  shows "main clk version sv blk re m = None"
proof -
  have b: "\<not> bit (seed5_volatile sv) i" if "i < 3" for i
  proof
    assume "bit (seed5_volatile sv) i"
    moreover have "bit (7 :: 32 word) i" using that by (auto simp: less_Suc_eq numeral_3_eq_3)
    ultimately have "bit (seed5_volatile sv AND 7) i" by (simp add: bit_and_iff)
    then show False by (simp add: assms(2))
  qed
  have "\<not> selected i (seed5_volatile sv)" if "i < 3" for i
    using b [OF that] by (simp add: selected_def and_exp_eq_0_iff_not_bit and.commute [of _ "seed5_volatile sv"])
  then have "num_algorithms (seed5_volatile sv) = 0" by (simp add: num_algorithms_def upt_algorithms)
  then have "set_up sv blk re' m' = None" for re' m'
    using assms(1) by (simp add: set_up_def split_size_def static_memory_def run_execs_def flip: run_seeds_def)
  then show ?thesis using portable_init_prints [of "r_port re"] by (auto simp: main_def)
qed

theorem main_without_algorithm_witness:
  "main (\<lambda>k. (0, 0)) ''GCC'' (port_seeds\<lparr>seed5_volatile := 8\<rparr>) 0x1000 port_results port_mem = None"
  by (rule main_without_algorithm) (simp_all add: port_seeds_def)


lemma core_bench_list_NULL:
  assumes "r_list re = NULL"
  shows "core_bench_list re f m = None"
proof -
  have n: "head_at m NULL = None" for m by (simp add: head_at_def)
  have find: "core_list_find NULL d m = Some NULL" for d m
    unfolding core_list_find_def by (subst (1 2) find_loop.simps) simp
  have rev: "core_list_reverse NULL m = Some (NULL, m)" for m
    unfolding core_list_reverse_def by (subst reverse_loop.simps) simp
  have step: "v_list v = NULL \<Longrightarrow> find_step i v m = None" for i v m
    by (simp add: find_step_def find rev n Let_def)
  have steps: "v_list v = NULL \<Longrightarrow> find_steps k 0 v m = (if 0 < sint k then None else Some (v, m))" for k v m
    by (subst find_steps.simps) (simp add: step)
  show ?thesis
    unfolding core_bench_list_def using assms
    by (simp add: steps mergesort_empty n)
qed

text \<open>
  C40: \<^verbatim>\<open>iterate\<close> runs the list benchmark whether or not it was selected. When the list was not
  initialised and its pointer is NULL, the first iteration dereferences it.
\<close>

theorem iterate_without_list:
  assumes "r_list re = NULL" "r_iterations re \<noteq> 0"
  shows "iterate re m = None"
proof -
  have "0 < r_iterations re" using assms(2) by (simp add: word_neq_0_conv)
  then show ?thesis
    using assms(1) by (simp add: iterate_def for_u32_step iterate_step_def core_bench_list_NULL)
qed

theorem iterate_without_list_witness: "iterate (small_results\<lparr>r_execs := ID_MATRIX, r_list := NULL\<rparr>) small_mem = None"
  by (rule iterate_without_list) (simp_all add: small_results_def)

end
