(* ===== verification/SeedArgs.thy ===== *)
theory SeedArgs
  imports Uart
begin

text \<open>
  The numbers on the command line in the configuration \<^verbatim>\<open>SEED_ARG\<close>: what \<^verbatim>\<open>parseval\<close> of \<^verbatim>\<open>core_util.c\<close> reads is
  what was written, in decimal and hexadecimal, with sign and qualifier.
\<close>

section \<open>Digits\<close>

definition digit_text :: "nat list \<Rightarrow> string" where
  "digit_text ds = map (\<lambda>d. digit_char (word_of_nat d)) ds"

lemma digit_text_simps [simp]: "digit_text [] = []" "digit_text (d # ds) = digit_char (word_of_nat d) # digit_text ds"
  by (simp_all add: digit_text_def)

lemma render_digit_text:
  assumes "2 \<le> b"
  shows "\<exists>ds. render b n = digit_text ds \<and> ds \<noteq> [] \<and> list_all (\<lambda>d. d < b) ds"
proof (cases "n = 0")
  case True
  have "''0'' = digit_text [0]" by code_simp
  with True assms show ?thesis by (intro exI [of _ "[0]"]) (simp add: render_def)
next
  case False
  then have "digits b n \<noteq> []" using assms by (simp add: digits_rec)
  with False show ?thesis using digits_less
    by (intro exI [of _ "rev (digits b n)"]) (auto simp: render_def digit_text_def rev_map list_all_iff)
qed

text \<open>The digits and their values.\<close>

definition digit_table :: "(char \<times> nat) list" where
  "digit_table = zip ''0123456789abcdef'' [0, 1, 2, 3, 4, 5, 6, 7, 8, 9, 10, 11, 12, 13, 14, 15]"

lemma digit_chars: "map (\<lambda>d. (digit_char (word_of_nat d), d)) [0..<16] = digit_table"
  by (simp add: digit_table_def digit_char_def upt_rec char_of_def bit_0)

lemma in_digit_table: "d < 16 \<Longrightarrow> (digit_char (word_of_nat d), d) \<in> set digit_table"
  unfolding digit_chars [symmetric] by simp

lemma hex_digit:
  "list_all (\<lambda>(c, d). let c = of_char c; v = c - of_char (CHR ''0'')
     in (is_dec c \<or> is_hex_letter c) \<and> (if 9 <s v then 10 + c - of_char (CHR ''a'') else v) = word_of_nat d) digit_table"
  by (simp add: digit_table_def is_dec_def is_hex_letter_def Let_def word_sless_alt)

lemma dec_digit:
  "list_all (\<lambda>(c, d). let c = of_char c in d < 10 \<longrightarrow> is_dec c \<and> c - of_char (CHR ''0'') = word_of_nat d
     \<and> c \<noteq> of_char (CHR ''-'') \<and> c \<noteq> of_char (CHR ''x'')) digit_table"
  by (simp add: digit_table_def is_dec_def Let_def)

lemma parse_hex_digits:
  "list_all (\<lambda>d. d < 16) ds \<Longrightarrow> \<not> is_dec (cur_char t) \<Longrightarrow> \<not> is_hex_letter (cur_char t)
    \<Longrightarrow> parse_hex (digit_text ds @ t) r = (t, foldl (\<lambda>a d. a * 16 + word_of_nat d) r ds)"
proof (induction ds arbitrary: r)
  case Nil
  then show ?case by (cases t) (simp_all add: cur_char_def)
next
  case (Cons d ds)
  then have "(digit_char (word_of_nat d), d) \<in> set digit_table" by (simp add: in_digit_table)
  with hex_digit Cons show ?case by (fastforce simp: list_all_iff Let_def)
qed

lemma parse_dec_digits:
  "list_all (\<lambda>d. d < 10) ds \<Longrightarrow> \<not> is_dec (cur_char t)
    \<Longrightarrow> parse_dec (digit_text ds @ t) r = (t, foldl (\<lambda>a d. a * 10 + word_of_nat d) r ds)"
proof (induction ds arbitrary: r)
  case Nil
  then show ?case by (cases t) (simp_all add: cur_char_def)
next
  case (Cons d ds)
  then have "(digit_char (word_of_nat d), d) \<in> set digit_table" by (simp add: in_digit_table)
  with dec_digit Cons show ?case by (fastforce simp: list_all_iff Let_def)
qed

lemma value_digit_text:
  assumes "list_all (\<lambda>d. d < b) ds" "b \<le> 36"
  shows "foldl (\<lambda>a d. a * of_nat b + word_of_nat d) 0 ds = (word_of_nat (value_of b (digit_text ds)) :: 32 word)"
  using assms(1)
proof (induction ds rule: rev_induct)
  case (snoc d ds)
  have "digit_val (digit_char (word_of_nat d)) = d" using snoc.prems assms(2) by simp
  with snoc show ?case by (simp add: value_of_def digit_text_def)
qed (simp add: value_of_def)

section \<open>Numbers\<close>

lemma digit_no_mark:
  assumes "d < 10"
  shows "of_char (digit_char (word_of_nat d)) \<noteq> (of_char (CHR ''-'') :: 32 word)"
    "of_char (digit_char (word_of_nat d)) \<noteq> (of_char (CHR ''x'') :: 32 word)"
  using dec_digit in_digit_table [of d] assms unfolding list_all_iff Let_def by fastforce+

lemma decimal_start:
  assumes "ds \<noteq> []" "list_all (\<lambda>d. d < 10) ds" "cur_char t \<noteq> of_char (CHR ''x'')"
  shows "cur_char (digit_text ds @ t) \<noteq> of_char (CHR ''-'')" "cur_char (tl (digit_text ds @ t)) \<noteq> of_char (CHR ''x'')"
proof -
  obtain d es where ds: "ds = d # es" using assms(1) by (cases ds) auto
  have d: "d < 10" using assms(2) by (simp add: ds)
  show "cur_char (digit_text ds @ t) \<noteq> of_char (CHR ''-'')"
    using digit_no_mark(1) [OF d] by (simp add: ds cur_char_def)
  show "cur_char (tl (digit_text ds @ t)) \<noteq> of_char (CHR ''x'')"
  proof (cases es)
    case Nil
    then show ?thesis using assms(3) by (simp add: ds)
  next
    case (Cons e fs)
    then have "e < 10" using assms(2) by (simp add: ds)
    then show ?thesis using digit_no_mark(2) Cons by (simp add: ds cur_char_def)
  qed
qed

text \<open>The text of a number, and its qualifiers with their factors.\<close>

definition number_text :: "bool \<Rightarrow> bool \<Rightarrow> nat \<Rightarrow> string" where
  "number_text neg hexa n = (if neg then ''-'' else []) @ (if hexa then ''0x'' @ render 16 n else render 10 n)"

definition qualifiers :: "(string \<times> nat) list" where
  "qualifiers = [([], 1), (''K'', 1024), (''M'', 1024 * 1024)]"

lemma qualifier_marks:
  assumes "(k, f) \<in> set qualifiers"
  shows "\<not> is_dec (cur_char k)" "\<not> is_hex_letter (cur_char k)" "cur_char k \<noteq> of_char (CHR ''x'')"
    "(if cur_char k = of_char (CHR ''M'') then (if cur_char k = of_char (CHR ''K'') then v * 1024 else v) * (1024 * 1024)
      else if cur_char k = of_char (CHR ''K'') then v * 1024 else v) = (v * of_nat f :: 32 word)"
  using assms by (auto simp: qualifiers_def cur_char_def is_dec_def is_hex_letter_def)

text \<open>After the sign: a number in either base is read, up to the qualifier.\<close>

lemma unsigned_read:
  fixes hexa :: bool and n :: nat
  assumes "(k, f) \<in> set qualifiers"
  defines "s \<equiv> (if hexa then ''0x'' @ render 16 n else render 10 n) @ k"
  shows "cur_char s \<noteq> of_char (CHR ''-'')"
    "(cur_char s = of_char (CHR ''0'') \<and> cur_char (tl s) = of_char (CHR ''x'')) = hexa"
    "(if hexa then parse_hex (if hexa then tl (tl s) else s) 0 else parse_dec (if hexa then tl (tl s) else s) 0) = (k, word_of_nat n)"
proof -
  note q = qualifier_marks [OF assms(1)]
  obtain ds where ds: "render 10 n = digit_text ds" "ds \<noteq> []" "list_all (\<lambda>d. d < 10) ds" using render_digit_text [of 10 n] by auto
  obtain es where es: "render 16 n = digit_text es" "list_all (\<lambda>d. d < 16) es" using render_digit_text [of 16 n] by auto
  show "cur_char s \<noteq> of_char (CHR ''-'')" "(cur_char s = of_char (CHR ''0'') \<and> cur_char (tl s) = of_char (CHR ''x'')) = hexa"
    using decimal_start [OF ds(2,3) q(3)] by (auto simp: s_def ds(1) cur_char_def)
  have "value_of 10 (digit_text ds) = n" "value_of 16 (digit_text es) = n"
    using value_of_render [of 10 n] value_of_render [of 16 n] by (simp_all add: ds(1) es(1))
  then show "(if hexa then parse_hex (if hexa then tl (tl s) else s) 0 else parse_dec (if hexa then tl (tl s) else s) 0) = (k, word_of_nat n)"
    using parse_hex_digits [OF es(2) q(1,2), of 0] parse_dec_digits [OF ds(3) q(1), of 0]
      value_digit_text [OF es(2)] value_digit_text [OF ds(3)] by (simp add: s_def ds(1) es(1))
qed

text \<open>
  C32: the numbers on the command line. Every number written in decimal, or in hexadecimal behind \<^verbatim>\<open>0x\<close>,
  with or without a minus sign, and with or without one of the qualifiers \<^verbatim>\<open>K\<close> and \<^verbatim>\<open>M\<close>, is read as that
  number times 1024 or 1024 * 1024, modulo \<open>2^32\<close>.
\<close>

theorem parseval_roundtrip:
  assumes "(k, f) \<in> set qualifiers"
  shows "parseval (number_text neg hexa n @ k) = word_of_int ((if neg then - 1 else 1) * int (n * f))"
proof -
  let ?s = "(if hexa then ''0x'' @ render 16 n else render 10 n) @ k"
  note r = unsigned_read [OF assms, where hexa = hexa and n = n]
  have sign: "(if cur_char (number_text neg hexa n @ k) = of_char (CHR ''-'') then (- 1, tl (number_text neg hexa n @ k))
      else (1, number_text neg hexa n @ k)) = (if neg then - 1 else 1 :: 32 word, ?s)"
    using r(1) by (auto simp: number_text_def cur_char_def)
  have "parseval (number_text neg hexa n @ k) = word_of_nat n * of_nat f * (if neg then - 1 else 1)"
    unfolding parseval_def Let_def sign prod.case r(2) r(3) qualifier_marks(4) [OF assms] ..
  then show ?thesis by (cases neg) simp_all
qed

theorem parseval_roundtrip_witness:
  "parseval ''-0x7fK'' = word_of_int (- 130048) \<and> parseval ''3M'' = 3145728"
proof -
  have eqs: "''-0x7fK'' = number_text True True 127 @ ''K''" "''3M'' = number_text False False 3 @ ''M''" by code_simp+
  have "parseval (number_text True True 127 @ ''K'') = word_of_int (- 130048)"
    using parseval_roundtrip [of "''K''" 1024 True True 127] by (simp add: qualifiers_def)
  moreover have "parseval (number_text False False 3 @ ''M'') = 3145728"
    using parseval_roundtrip [of "''M''" "1024 * 1024" False False 3] by (simp add: qualifiers_def)
  ultimately show ?thesis unfolding eqs by (rule conjI)
qed

section \<open>The three ways to supply seeds\<close>

text \<open>Whatever the configuration, the seeds are five numbers: command line and port functions give the
  same ones as volatile variables that hold them.\<close>

definition seed_values :: "(nat \<Rightarrow> ee_s32) \<Rightarrow> seed_vars" where
  "seed_values f = \<lparr>seed1_volatile = f 1, seed2_volatile = f 2, seed3_volatile = f 3, seed4_volatile = f 4, seed5_volatile = f 5\<rparr>"

lemma seed_methods_agree:
  assumes "i \<in> {1, 2, 3, 4, 5}"
  shows "get_seed_32 (seed_values (\<lambda>k. get_seed_args k argv)) (word_of_nat i) = get_seed_args i argv"
    "get_seed_32 (seed_values sys) = get_seed_func sys"
  using assms by (auto simp: get_seed_32_def get_seed_func_def seed_values_def fun_eq_iff)

end
