(* ===== verification/Verilated.thy ===== *)
theory Verilated
  imports Uart
begin

text \<open>
  The interface of the C++ classes that Verilator generates from the hardware description. The
  generated code is not part of the sources; the simulation driver and the branch-predictor
  harness take it as a parameter.
\<close>

section \<open>Generated classes\<close>

text \<open>The class Verilator generates from the hardware description is a parameter: its inputs are
  set and its signals read by name, \<^verbatim>\<open>eval\<close> computes the new state, and \<^verbatim>\<open>gotFinish\<close> tells whether
  the design has executed \<^verbatim>\<open>$finish\<close>.\<close>

type_synonym signals = "string \<Rightarrow> 64 word"

record 'd verilated =
  set_input :: "string \<Rightarrow> 64 word \<Rightarrow> 'd \<Rightarrow> 'd"
  eval_model :: "'d \<Rightarrow> 'd"
  signal_of :: "'d \<Rightarrow> signals"
  got_finish :: "'d \<Rightarrow> bool"

end
