(* ===== verification/SimOptions.thy ===== *)
theory SimOptions
  imports Uart
begin

text \<open>
  The options of the simulation driver \<^verbatim>\<open>sim/verilator/sim_main.cpp\<close>, from its environment and its
  command line, with the number parser of the C library they use. The lemmas show that the parser
  reads every decimal 64-bit number back.
\<close>

section \<open>Command line\<close>

text \<open>\<^verbatim>\<open>strtoull\<close> with base 0, as the C library documents it: the value and the number of
  characters consumed, which is 0 when there is no number.\<close>

definition is_space :: "char \<Rightarrow> bool" where
  "is_space c \<longleftrightarrow> List.member [CHR '' '', CHR 0x09, CHR 0x0A, CHR 0x0B, CHR 0x0C, CHR 0x0D] c"

definition digit_in :: "nat \<Rightarrow> char \<Rightarrow> nat option" where
  "digit_in b c =
     (let x = of_char c;
          v = (if 48 \<le> x \<and> x \<le> 57 then x - 48 else if 97 \<le> x \<and> x \<le> 122 then x - 87
               else if 65 \<le> x \<and> x \<le> 90 then x - 55 else 36)
      in if v < b then Some v else None)"

definition number_of :: "nat \<Rightarrow> string \<Rightarrow> int" where
  "number_of b s = foldl (\<lambda>a c. a * int b + (case digit_in b c of Some d \<Rightarrow> int d | None \<Rightarrow> 0)) 0 s"

definition read_sign :: "string \<Rightarrow> bool \<times> string" where
  "read_sign s = (case s of [] \<Rightarrow> (False, []) | c # r \<Rightarrow>
     if c = CHR ''-'' then (True, r) else if c = CHR ''+'' then (False, r) else (False, s))"

definition read_base :: "string \<Rightarrow> nat \<times> string" where
  "read_base s = (case s of
       z # x # d # r \<Rightarrow> if z = CHR ''0'' \<and> (x = CHR ''x'' \<or> x = CHR ''X'') \<and> digit_in 16 d \<noteq> None then (16, d # r)
                       else if z = CHR ''0'' then (8, s) else (10, s)
     | z # _ \<Rightarrow> if z = CHR ''0'' then (8, s) else (10, s)
     | [] \<Rightarrow> (10, s))"

definition strtoull :: "string \<Rightarrow> 64 word \<times> nat" where
  "strtoull text =
     (let (neg, s) = read_sign (dropWhile is_space text);
          (b, s) = read_base s;
          ds = takeWhile (\<lambda>c. digit_in b c \<noteq> None) s;
          v = number_of b ds
      in if ds = [] then (0, 0)
         else (if 2 ^ 64 \<le> v then - 1 else if neg then - word_of_int v else word_of_int v,
               length text - (length s - length ds)))"

definition parse_u64 :: "string \<Rightarrow> 64 word \<Rightarrow> 64 word" where
  "parse_u64 text fallback = (case strtoull text of (v, n) \<Rightarrow> if n \<noteq> 0 then v else fallback)"

definition kDefaultMaxCycles :: "64 word" where "kDefaultMaxCycles = 10000000"

type_synonym environment = "string \<Rightarrow> string option"

definition max_cycles_arg :: "64 word \<Rightarrow> string \<Rightarrow> 64 word" where
  "max_cycles_arg max_cycles arg =
     (if take 12 arg = ''+max-cycles='' then parse_u64 (drop 12 arg) max_cycles
      else if take 13 arg = ''--max-cycles='' then parse_u64 (drop 13 arg) max_cycles
      else max_cycles)"

text \<open>\<open>args\<close> are the arguments after the program name.\<close>

definition get_max_cycles :: "environment \<Rightarrow> string list \<Rightarrow> 64 word" where
  "get_max_cycles getenv args =
     foldl max_cycles_arg
       (case getenv ''SIM_MAX_CYCLES'' of Some e \<Rightarrow> parse_u64 e kDefaultMaxCycles | None \<Rightarrow> kDefaultMaxCycles) args"

definition trace_enabled :: "environment \<Rightarrow> string list \<Rightarrow> bool" where
  "trace_enabled getenv args \<longleftrightarrow>
     (case getenv ''SIM_TRACE'' of Some e \<Rightarrow> e \<noteq> ''0'' | None \<Rightarrow> False) \<or>
     list_ex (\<lambda>a. a = ''+trace'' \<or> a = ''--trace'') args"

definition pipe_dump_enabled :: "environment \<Rightarrow> string list \<Rightarrow> bool" where
  "pipe_dump_enabled getenv args =
     foldl (\<lambda>on a. if a = ''+pipe-dump'' \<or> a = ''--pipe-dump'' then True
                   else if a = ''+no-pipe-dump'' \<or> a = ''--no-pipe-dump'' then False else on)
       (case getenv ''SIM_PIPE_DUMP'' of Some e \<Rightarrow> e \<noteq> ''0'' | None \<Rightarrow> True) args"

section \<open>Numbers on the command line\<close>

lemma of_digit_char: "d < 16 \<Longrightarrow> (of_char (digit_char (word_of_nat d)) :: nat) = (if d < 10 then 48 + d else 87 + d)"
  by (simp add: digit_char_def word_less_nat_alt unat_of_nat take_bit_nat_eq_self of_char_of)

lemma digit_in_char: "d < b \<Longrightarrow> b \<le> 16 \<Longrightarrow> digit_in b (digit_char (word_of_nat d)) = Some d"
  by (simp add: digit_in_def of_digit_char Let_def)

lemma zero_digit: "CHR ''0'' = digit_char (word_of_nat 0)"
  by (simp add: digit_char_def char_of_def bit_0)

lemma digit_in_render:
  assumes "2 \<le> b" "c \<in> set (render b n)"
  obtains d where "d < b" "c = digit_char (word_of_nat d)"
proof (cases "n = 0")
  case True
  with assms that [of 0] show thesis by (simp add: render_def zero_digit)
next
  case False
  with assms(2) obtain d where "d \<in> set (digits b n)" "c = digit_char (word_of_nat d)" by (auto simp: render_def)
  with digits_less that show thesis by blast
qed

lemma render_digits_in:
  assumes "2 \<le> b" "b \<le> 16"
  shows "takeWhile (\<lambda>c. digit_in b c \<noteq> None) (render b n) = render b n" "number_of b (render b n) = int n"
proof -
  have d: "digit_in b c = Some (digit_val c)" if c: "c \<in> set (render b n)" for c
  proof -
    obtain d where "d < b" "c = digit_char (word_of_nat d)" using digit_in_render [OF assms(1) c] .
    then show ?thesis using assms(2) digit_in_char [of d b] digit_val_char [of d] by simp
  qed
  then show "takeWhile (\<lambda>c. digit_in b c \<noteq> None) (render b n) = render b n" by (simp add: takeWhile_eq_all_conv)
  have "foldl (\<lambda>a c. a * int b + (case digit_in b c of Some d \<Rightarrow> int d | None \<Rightarrow> 0)) (int a) s
      = int (foldl (\<lambda>a c. a * b + digit_val c) a s)" if "set s \<subseteq> set (render b n)" for a s
    using that
  proof (induction s arbitrary: a)
    case (Cons c s)
    from Cons.IH [of "a * b + digit_val c"] Cons.prems d show ?case by simp
  qed simp
  from this [of "render b n" 0] show "number_of b (render b n) = int n"
    using value_of_render [OF assms(1), of n] assms(2) by (simp add: number_of_def value_of_def)
qed

lemma not_space: "is_digit_char c \<Longrightarrow> \<not> is_space c \<and> c \<noteq> CHR ''-'' \<and> c \<noteq> CHR ''+''"
  by (auto simp: is_space_def is_digit_char_def)

lemma parse_decimal:
  assumes "n < 2 ^ 64"
  shows "parse_u64 (render 10 n) fallback = word_of_nat n"
proof -
  let ?s = "render 10 n"
  have ne: "?s \<noteq> []" by (auto simp: render_def digits_rec)
  then obtain c s where cs: "?s = c # s" by (cases ?s) auto
  have dg: "is_digit_char c" using render_dec_digits [of c n] by (simp add: cs)
  have pre: "read_sign (dropWhile is_space ?s) = (False, ?s)" using not_space [OF dg] by (simp add: cs read_sign_def)
  show ?thesis
  proof (cases "n = 0")
    case True
    then have z: "?s = ''0''" by (simp add: render_def)
    then show ?thesis unfolding parse_u64_def strtoull_def Let_def pre unfolding z
      by (simp add: read_base_def True digit_in_def number_of_def)
  next
    case False
    then obtain c' s' where "?s = c' # s'" "c' \<noteq> CHR ''0''" using render_hd_nonzero by blast
    then have "c \<noteq> CHR ''0''" by (simp add: cs)
    then have b: "read_base ?s = (10, ?s)" by (auto simp: read_base_def cs split: list.splits)
    have v: "\<not> 2 ^ 64 \<le> int n" using assms by simp
    have tw: "takeWhile (\<lambda>c. digit_in 10 c \<noteq> None) ?s = ?s" "number_of 10 ?s = int n"
      using render_digits_in [of 10 n] by simp_all
    show ?thesis unfolding parse_u64_def strtoull_def Let_def pre prod.case b tw
      using v ne by simp
  qed
qed

text \<open>
  The limit of cycles on the command line. Whatever the environment and the other arguments, a
  last argument \<^verbatim>\<open>+max-cycles=\<close> or \<^verbatim>\<open>--max-cycles=\<close> followed by the decimal digits of a 64-bit number sets
  the limit to this number; and with no such argument and no environment variable it is ten million.
\<close>

theorem max_cycles_option:
  assumes "n < 2 ^ 64"
  shows "get_max_cycles getenv (args @ [''+max-cycles='' @ render 10 n]) = word_of_nat n
     \<and> get_max_cycles getenv (args @ [''--max-cycles='' @ render 10 n]) = word_of_nat n
     \<and> get_max_cycles (\<lambda>_. None) [] = 10000000"
  using parse_decimal [OF assms] by (simp add: get_max_cycles_def max_cycles_arg_def kDefaultMaxCycles_def)

theorem max_cycles_option_witness:
  "get_max_cycles (\<lambda>_. Some ''7'') ([''+trace'', ''+max-cycles=9''] @ [''--max-cycles='' @ render 10 2500]) = 2500"
  using max_cycles_option [of 2500 "\<lambda>_. Some ''7''" "[''+trace'', ''+max-cycles=9'']"] by simp

end
