(* ===== verification/Doubles.thy ===== *)
theory Doubles
  imports Uart "HOL-Library.Log_Nat"
begin

text \<open>
  The floating point numbers of the statistics \<^verbatim>\<open>sim_main.cpp\<close> prints. A \<^verbatim>\<open>double\<close> is the rational
  number it stands for; a conversion from an integer, a product and a quotient are the exact
  results rounded to 53 binary digits, ties to even, as IEEE 754 prescribes. The numbers that occur
  are zero or lie between \<open>2^-65\<close> and \<open>2^75\<close>, so that there is no overflow, no subnormal number and no
  negative one. \<^verbatim>\<open>%.3f\<close> and \<^verbatim>\<open>%.4f\<close> round the exact value once more, to decimal digits.

  The lemmas bound the error of a printed ratio.
\<close>

section \<open>Rounding\<close>

type_synonym double = rat

text \<open>To the nearest integer, ties to even.\<close>

definition round_even :: "rat \<Rightarrow> int" where
  "round_even x =
     (let f = \<lfloor>x\<rfloor>; r = x - of_int f
      in if r < 1 / 2 then f else if 1 / 2 < r then f + 1 else if even f then f else f + 1)"

text \<open>The binary exponent of a positive number.\<close>

definition ilog2 :: "rat \<Rightarrow> int" where
  "ilog2 x =
     (let (p, q) = quotient_of x; e = bitlen p - bitlen q
      in if 2 powi e \<le> x then e else e - 1)"

definition to_double :: "rat \<Rightarrow> double" where
  "to_double x =
     (if x = 0 then 0
      else let ulp = 2 powi (ilog2 x - 52) in of_int (round_even (x / ulp)) * ulp)"

definition dbl :: "nat \<Rightarrow> double" where
  "dbl n = to_double (of_nat n)"

definition dmul :: "double \<Rightarrow> double \<Rightarrow> double" where
  "dmul a b = to_double (a * b)"

definition ddiv :: "double \<Rightarrow> double \<Rightarrow> double" where
  "ddiv a b = to_double (a / b)"

text \<open>\<^verbatim>\<open>%.<k>f\<close> for a number that is not negative.\<close>

definition fixed :: "nat \<Rightarrow> double \<Rightarrow> string" where
  "fixed k x =
     (let n = nat (round_even (x * 10 ^ k))
      in render 10 (n div 10 ^ k) @ ''.'' @ pad_to True k (render 10 (n mod 10 ^ k)))"

section \<open>Errors of rounding\<close>

lemma round_even_error: "\<bar>of_int (round_even x) - x\<bar> \<le> 1 / 2"
proof -
  have "0 \<le> x - of_int \<lfloor>x\<rfloor>" "x - of_int \<lfloor>x\<rfloor> < 1" by linarith+
  then show ?thesis by (auto simp: round_even_def Let_def)
qed

lemma round_even_of_int [simp]: "round_even (of_int n) = n"
  by (simp add: round_even_def)

lemma round_even_eq:
  assumes "\<bar>x - of_int n\<bar> < 1 / 2"
  shows "round_even x = n"
proof -
  have "\<bar>of_int (round_even x) - of_int n\<bar> < (1 :: rat)" using round_even_error [of x] assms by linarith
  then have "(of_int \<bar>round_even x - n\<bar> :: rat) < of_int 1" by simp
  then show ?thesis by (simp only: of_int_less_iff)
qed

lemma round_even_nonneg: "0 \<le> x \<Longrightarrow> 0 \<le> round_even x"
  by (auto simp: round_even_def Let_def)

lemma bitlen_rat:
  assumes "0 < n"
  shows "2 powi (bitlen n - 1) \<le> (of_int n :: rat)" "(of_int n :: rat) < 2 powi bitlen n"
proof -
  from bitlen_bounds [OF assms] have b: "2 ^ nat (bitlen n - 1) \<le> n" "n < 2 ^ nat (bitlen n)" by simp_all
  have l: "0 \<le> bitlen n - 1" using assms by (simp add: bitlen_eq_zero_iff Log_Nat.bitlen_nonneg order_le_neq_trans)
  have "(of_int (2 ^ nat (bitlen n - 1)) :: rat) \<le> of_int n" "(of_int n :: rat) < of_int (2 ^ nat (bitlen n))"
    using b by (simp_all only: of_int_le_iff of_int_less_iff)
  then show "2 powi (bitlen n - 1) \<le> (of_int n :: rat)" "(of_int n :: rat) < 2 powi bitlen n"
    using l by (simp_all add: power_int_def)
qed

lemma ilog2_bounds:
  assumes "0 < x"
  shows "2 powi ilog2 x \<le> x" "x < 2 powi (ilog2 x + 1)"
proof -
  obtain p q where pq: "quotient_of x = (p, q)" by fastforce
  have q: "0 < q" using quotient_of_denom_pos [OF pq] .
  have x: "x = of_int p / of_int q" using quotient_of_div [OF pq] .
  then have p: "0 < p" using assms q by (simp add: zero_less_divide_iff)
  let ?e = "bitlen p - bitlen q"
  have lo: "2 powi (?e - 1) \<le> x"
  proof -
    have "2 powi (?e - 1) = (2 powi (bitlen p - 1) / 2 powi bitlen q :: rat)"
      by (simp add: power_int_diff power_int_add algebra_simps)
    also have "\<dots> \<le> of_int p / of_int q" using bitlen_rat [OF p] bitlen_rat [OF q] p q by (intro frac_le) auto
    finally show ?thesis by (simp add: x)
  qed
  have hi: "x < 2 powi (?e + 1)"
  proof -
    have "of_int p / of_int q < (2 powi bitlen p / 2 powi (bitlen q - 1) :: rat)"
      using bitlen_rat [OF p] bitlen_rat [OF q] q p by (intro frac_less) auto
    also have "\<dots> = 2 powi (?e + 1)" by (simp add: power_int_diff power_int_add algebra_simps)
    finally show ?thesis by (simp add: x)
  qed
  show "2 powi ilog2 x \<le> x" "x < 2 powi (ilog2 x + 1)"
    using lo hi by (simp_all add: ilog2_def pq Let_def)
qed

text \<open>The relative error of one rounding.\<close>

definition unit_roundoff :: rat where "unit_roundoff = 1 / 2 ^ 53"

lemma to_double_error:
  assumes "0 \<le> x"
  shows "\<bar>to_double x - x\<bar> \<le> x * unit_roundoff"
proof (cases "x = 0")
  case False
  define u :: rat where "u = 2 powi (ilog2 x - 52)"
  have u: "0 < u" by (simp add: u_def)
  have x: "0 < x" using assms False by simp
  have "to_double x - x = (of_int (round_even (x / u)) - x / u) * u"
    using False u by (simp add: to_double_def u_def [symmetric] Let_def left_diff_distrib)
  then have "\<bar>to_double x - x\<bar> = \<bar>of_int (round_even (x / u)) - x / u\<bar> * u" using u by (simp add: abs_mult)
  also have "\<dots> \<le> 1 / 2 * u" using round_even_error u by (intro mult_right_mono) auto
  also have "\<dots> = 2 powi ilog2 x * unit_roundoff" by (simp add: u_def power_int_diff unit_roundoff_def)
  also have "\<dots> \<le> x * unit_roundoff" using ilog2_bounds(1) [OF x] by (simp add: unit_roundoff_def)
  finally show ?thesis .
qed (simp add: to_double_def)

lemma to_double_range:
  assumes "0 \<le> x"
  shows "x * (1 - unit_roundoff) \<le> to_double x" "to_double x \<le> x * (1 + unit_roundoff)"
  using to_double_error [OF assms] by (auto simp: abs_le_iff algebra_simps)

lemma to_double_nonneg: "0 \<le> x \<Longrightarrow> 0 \<le> to_double x"
proof -
  assume "0 \<le> x"
  then have "0 \<le> x * (1 - unit_roundoff)" by (simp add: unit_roundoff_def)
  also have "\<dots> \<le> to_double x" using to_double_range(1) \<open>0 \<le> x\<close> .
  finally show ?thesis .
qed

text \<open>Numbers of at most 53 binary digits are exact.\<close>

lemma to_double_exact:
  assumes "n < 2 ^ 53"
  shows "to_double (of_nat n) = of_nat n"
proof (cases "n = 0")
  case False
  let ?x = "of_nat n :: rat"
  have x: "0 < ?x" using False by simp
  have "ilog2 ?x < 53"
  proof (rule ccontr)
    assume "\<not> ilog2 ?x < 53"
    then have "2 powi 53 \<le> (2 :: rat) powi ilog2 ?x" by (intro power_int_increasing) simp_all
    also have "\<dots> \<le> ?x" using ilog2_bounds(1) [OF x] .
    finally have "of_nat (2 ^ 53) \<le> ?x" by simp
    then show False using assms by (simp only: of_nat_le_iff)
  qed
  then obtain k where k: "ilog2 ?x - 52 = - int k" by (intro that [of "nat (52 - ilog2 ?x)"]) simp
  have "?x / 2 powi (ilog2 ?x - 52) = of_int (int n * 2 ^ k)" by (simp add: k power_int_minus field_simps)
  then have "round_even (?x / 2 powi (ilog2 ?x - 52)) = int n * 2 ^ k" by (simp only: round_even_of_int)
  then show ?thesis using False by (simp add: to_double_def k power_int_minus Let_def)
qed (simp add: to_double_def)

text \<open>A quotient of two counters, and one with a factor in front.\<close>

lemma unit_roundoff_small: "0 < unit_roundoff" "unit_roundoff \<le> 1 / 1000"
  by (simp_all add: unit_roundoff_def)

lemma rounded_quotient:
  fixes x y lo hi lo' hi' :: rat
  assumes "x \<in> {a * lo..a * hi}" "y \<in> {b * lo'..b * hi'}" "0 \<le> a" "0 < b" "0 < lo" "0 < lo'"
  shows "ddiv x y \<in> {a / b * (lo / hi' * (1 - unit_roundoff))..a / b * (hi / lo' * (1 + unit_roundoff))}"
proof -
  have y: "0 < y" "b * lo' \<le> y" "y \<le> b * hi'" using assms by (auto intro: order_less_le_trans [of 0 "b * lo'"])
  then have hi': "0 < b * hi'" by linarith
  have x: "0 \<le> x" "a * lo \<le> x" "x \<le> a * hi" using assms by (auto intro: order_trans [of 0 "a * lo"])
  have q: "a * lo / (b * hi') \<le> x / y" "x / y \<le> a * hi / (b * lo')"
    using x y assms(3-6) by (auto intro!: frac_le)
  have r: "0 \<le> x / y" using x(1) y(1) by simp
  note d = to_double_range [OF r] and u = unit_roundoff_small
  have "a * lo / (b * hi') * (1 - unit_roundoff) \<le> x / y * (1 - unit_roundoff)" using q(1) u by (intro mult_right_mono) auto
  moreover have "x / y * (1 + unit_roundoff) \<le> a * hi / (b * lo') * (1 + unit_roundoff)" using q(2) u by (intro mult_right_mono) auto
  ultimately show ?thesis using d by (simp add: ddiv_def)
qed

lemma dbl_range: "dbl a \<in> {of_nat a * (1 - unit_roundoff)..of_nat a * (1 + unit_roundoff)}"
  unfolding dbl_def atLeastAtMost_iff using to_double_range [OF of_nat_0_le_iff] by blast

lemma relative_error:
  fixes r x d :: rat
  assumes "x \<in> {r * lo..r * hi}" "r * hi \<le> r * (1 + d)" "r * (1 - d) \<le> r * lo"
  shows "\<bar>x - r\<bar> \<le> r * d"
proof -
  have "r * (1 - d) \<le> x" "x \<le> r * (1 + d)" using assms by auto
  then show ?thesis by (auto simp: abs_le_iff algebra_simps)
qed

lemma ratio_error:
  assumes "b \<noteq> 0"
  shows "\<bar>ddiv (dbl a) (dbl b) - of_nat a / of_nat b\<bar> \<le> of_nat a / of_nat b * (4 * unit_roundoff)"
proof -
  let ?r = "of_nat a / of_nat b :: rat" and ?u = unit_roundoff
  have b: "0 < (of_nat b :: rat)" using assms by simp
  have u: "0 < ?u" "?u \<le> 1 / 1000" by (rule unit_roundoff_small)+
  have "ddiv (dbl a) (dbl b) \<in> {?r * ((1 - ?u) / (1 + ?u) * (1 - ?u))..?r * ((1 + ?u) / (1 - ?u) * (1 + ?u))}"
    using u by (intro rounded_quotient dbl_range b) auto
  moreover have "?r * ((1 + ?u) / (1 - ?u) * (1 + ?u)) \<le> ?r * (1 + 4 * ?u)"
    by (intro mult_left_mono) (simp_all add: unit_roundoff_def)
  moreover have "?r * (1 - 4 * ?u) \<le> ?r * ((1 - ?u) / (1 + ?u) * (1 - ?u))"
    by (intro mult_left_mono) (simp_all add: unit_roundoff_def)
  ultimately show ?thesis by (rule relative_error)
qed

lemma scaled_ratio_error:
  assumes "b \<noteq> 0" "dbl c = of_nat c"
  shows "\<bar>ddiv (dmul (dbl c) (dbl a)) (dbl b) - of_nat (c * a) / of_nat b\<bar>
     \<le> of_nat (c * a) / of_nat b * (5 * unit_roundoff)"
proof -
  let ?ca = "of_nat (c * a) :: rat" and ?u = unit_roundoff
  let ?r = "?ca / of_nat b"
  have b: "0 < (of_nat b :: rat)" using assms(1) by simp
  have u: "0 < ?u" "?u \<le> 1 / 1000" by (rule unit_roundoff_small)+
  let ?p = "dbl c * dbl a"
  have p: "?p \<in> {?ca * (1 - ?u)..?ca * (1 + ?u)}"
    using dbl_range [of a] by (auto simp: assms(2) mult.assoc intro!: mult_left_mono)
  then have p0: "0 \<le> ?p" using u by (auto intro: order_trans [of 0 "?ca * (1 - ?u)"])
  have m: "dmul (dbl c) (dbl a) \<in> {?p * (1 - ?u)..?p * (1 + ?u)}" using to_double_range [OF p0] by (simp add: dmul_def)
  have "?ca * (1 - ?u) * (1 - ?u) \<le> ?p * (1 - ?u)" "?p * (1 + ?u) \<le> ?ca * (1 + ?u) * (1 + ?u)"
    using p u by (auto intro!: mult_right_mono)
  with m have m': "dmul (dbl c) (dbl a) \<in> {?ca * ((1 - ?u) * (1 - ?u))..?ca * ((1 + ?u) * (1 + ?u))}" by (simp add: mult.assoc)
  have "ddiv (dmul (dbl c) (dbl a)) (dbl b) \<in> {?r * ((1 - ?u) * (1 - ?u) / (1 + ?u) * (1 - ?u))..?r * ((1 + ?u) * (1 + ?u) / (1 - ?u) * (1 + ?u))}"
    using u by (intro rounded_quotient m' dbl_range b) auto
  moreover have "?r * ((1 + ?u) * (1 + ?u) / (1 - ?u) * (1 + ?u)) \<le> ?r * (1 + 5 * ?u)"
    by (intro mult_left_mono) (simp_all add: unit_roundoff_def)
  moreover have "?r * (1 - 5 * ?u) \<le> ?r * ((1 - ?u) * (1 - ?u) / (1 + ?u) * (1 - ?u))"
    by (intro mult_left_mono) (simp_all add: unit_roundoff_def)
  ultimately show ?thesis by (rule relative_error)
qed

section \<open>Printed decimals\<close>

text \<open>The number a decimal with a point stands for.\<close>

definition decimal :: "string \<Rightarrow> rat" where
  "decimal s = of_nat (value_of 10 (filter (\<lambda>c. c \<noteq> CHR ''.'') s)) / 10 ^ (length (tl (dropWhile (\<lambda>c. c \<noteq> CHR ''.'') s)))"

lemma value_of_append: "value_of b (s @ t) = value_of b s * b ^ length t + value_of b t"
proof -
  have "foldl (\<lambda>a c. a * b + digit_val c) x t = x * b ^ length t + foldl (\<lambda>a c. a * b + digit_val c) 0 t" for x
  proof (induction t arbitrary: x)
    case (Cons c t)
    have "foldl (\<lambda>a c. a * b + digit_val c) x (c # t) = (x * b + digit_val c) * b ^ length t + foldl (\<lambda>a c. a * b + digit_val c) 0 t"
      using Cons.IH [of "x * b + digit_val c"] by simp
    also have "\<dots> = x * b ^ length (c # t) + foldl (\<lambda>a c. a * b + digit_val c) 0 (c # t)"
      using Cons.IH [of "digit_val c"] by (simp add: add_mult_distrib mult.assoc)
    finally show ?case .
  qed simp
  from this [of "foldl (\<lambda>a c. a * b + digit_val c) 0 s"] show ?thesis by (simp only: value_of_def foldl_append)
qed

lemma value_of_zeros: "value_of b (replicate n CHR ''0'') = 0"
  by (induction n) (simp_all add: value_of_def digit_val_def)

lemma value_of_pad: "value_of b (pad_to True w s) = value_of b s"
  by (simp add: pad_to_def value_of_append value_of_zeros)

lemma length_pad_render: "n < 10 ^ k \<Longrightarrow> 0 < k \<Longrightarrow> length (pad_to True k (render 10 n)) = k"
  using length_digits [of n 10 k] by (auto simp: pad_to_def render_def)

lemma no_point: "c \<in> set (render 10 n) \<Longrightarrow> c \<noteq> CHR ''.''"
  by (auto dest: render_dec_digits simp: is_digit_char_def)

lemma no_point_padded: "c \<in> set (pad_to True k (render 10 n)) \<Longrightarrow> c \<noteq> CHR ''.''"
  by (auto simp: pad_to_def dest: no_point)

lemma decimal_fixed:
  assumes "0 < k"
  shows "decimal (fixed k x) = of_nat (nat (round_even (x * 10 ^ k))) / 10 ^ k"
proof -
  let ?n = "nat (round_even (x * 10 ^ k))"
  let ?ip = "render 10 (?n div 10 ^ k)" and ?fr = "pad_to True k (render 10 (?n mod 10 ^ k))"
  have fr: "length ?fr = k" using assms by (intro length_pad_render) simp_all
  have np: "filter (\<lambda>c. c \<noteq> CHR ''.'') ?ip = ?ip" "filter (\<lambda>c. c \<noteq> CHR ''.'') ?fr = ?fr"
    using no_point no_point_padded by (auto simp: filter_id_conv)
  have "dropWhile (\<lambda>c. c \<noteq> CHR ''.'') (?ip @ ''.'' @ ?fr) = ''.'' @ ?fr"
    using no_point by (subst dropWhile_append2) auto
  then have "decimal (fixed k x) = of_nat (value_of 10 (?ip @ ?fr)) / 10 ^ k"
    using np by (simp add: decimal_def fixed_def Let_def fr)
  moreover have "value_of 10 (?ip @ ?fr) = ?n div 10 ^ k * 10 ^ k + ?n mod 10 ^ k"
    by (simp add: value_of_append value_of_pad value_of_render fr)
  moreover have "?n div 10 ^ k * 10 ^ k + ?n mod 10 ^ k = ?n" by (rule div_mult_mod_eq)
  ultimately show ?thesis by (simp only:)
qed

lemma fixed_error:
  assumes "0 \<le> x" "0 < k"
  shows "\<bar>decimal (fixed k x) - x\<bar> \<le> 1 / (2 * 10 ^ k)"
proof -
  let ?y = "x * 10 ^ k"
  have "of_nat (nat (round_even ?y)) = (of_int (round_even ?y) :: rat)"
    using round_even_nonneg [of ?y] assms(1) by (simp add: of_nat_nat)
  then have "decimal (fixed k x) - x = (of_int (round_even ?y) - ?y) / 10 ^ k"
    using decimal_fixed [OF assms(2), of x] by (simp add: field_simps)
  then have "\<bar>decimal (fixed k x) - x\<bar> = \<bar>of_int (round_even ?y) - ?y\<bar> / 10 ^ k" by (simp add: abs_divide)
  also have "\<dots> \<le> 1 / 2 / 10 ^ k" using round_even_error by (intro divide_right_mono) simp_all
  finally show ?thesis by simp
qed

end
