(* ===== verification/ReportLines.thy ===== *)
theory ReportLines
  imports Doubles
begin

text \<open>
  The lines of the reports that \<^verbatim>\<open>sim/verilator/sim_main.cpp\<close> and \<^verbatim>\<open>verification/perf/cbp/cbp_rtl_interface.cc\<close>
  print: a keyword and named numbers, and the text \<^verbatim>\<open>printf\<close> makes of them.
\<close>

text \<open>A line is its keyword and its fields; a number prints as \<^verbatim>\<open>%llu\<close>, \<^verbatim>\<open>%lld\<close>, \<^verbatim>\<open>0x%08x\<close>,
  \<^verbatim>\<open>0x%02x\<close>, \<^verbatim>\<open>%.<k>f\<close> or \<^verbatim>\<open>%.<k>f%%\<close>.\<close>

datatype field =
    U string nat
  | I string int
  | X8 string "32 word"
  | X2 string "32 word"
  | F string nat double
  | Percent string nat double

datatype line = Line string "field list"

fun show_field :: "field \<Rightarrow> string" where
  "show_field (U k v) = k @ ''='' @ render 10 v"
| "show_field (I k v) = k @ ''='' @ (if v < 0 then ''-'' else []) @ render 10 (nat \<bar>v\<bar>)"
| "show_field (X8 k v) = k @ ''=0x'' @ pad_to True 8 (render 16 (unat v))"
| "show_field (X2 k v) = k @ ''=0x'' @ pad_to True 2 (render 16 (unat v))"
| "show_field (F k d v) = k @ ''='' @ fixed d v"
| "show_field (Percent k d v) = k @ ''='' @ fixed d v @ ''%''"

fun join :: "string list \<Rightarrow> string" where
  "join [] = []"
| "join [w] = w"
| "join (w # ws) = w @ '' '' @ join ws"

fun show_line :: "line \<Rightarrow> string" where
  "show_line (Line w fs) = join ((if w = [] then [] else [w]) @ map show_field fs) @ [LF]"

text \<open>The difference of two counters read as signed 64-bit numbers; where it overflows, which C++
  leaves undefined, the model wraps.\<close>

definition net :: "64 word \<Rightarrow> 64 word \<Rightarrow> int" where
  "net corrections harms = sint (corrections - harms)"

end
