(* ===== verification/SimLoop.thy ===== *)
theory SimLoop
  imports Verilated SimOptions ReportLines
begin

text \<open>
  The simulation loop of \<^verbatim>\<open>sim/verilator/sim_main.cpp\<close>: the clocking of the processor with the wave
  form samples, the pipeline dump, the branch trace, the event counters, console and log.

  The lemmas describe a run as the sequence of what the processor shows after each cycle.
\<close>

section \<open>Clocking the processor\<close>

definition u32 :: "64 word \<Rightarrow> 32 word" where "u32 v = ucast v"

text \<open>The model, the time of the context, and the samples in the wave form file: the time and the
  model of each call of \<^verbatim>\<open>dump\<close>.\<close>

type_synonym 'd clocked = "'d \<times> 64 word \<times> (64 word \<times> 'd) list"

definition dump_trace :: "bool \<Rightarrow> 'd clocked \<Rightarrow> 'd clocked" where
  "dump_trace trace s = (case s of (model, t, w) \<Rightarrow> (model, t + 1, if trace then w @ [(t, model)] else w))"

definition eval_half_cycle :: "'d verilated \<Rightarrow> bool \<Rightarrow> 64 word \<Rightarrow> 'd clocked \<Rightarrow> 'd clocked" where
  "eval_half_cycle cpu trace clk s =
     dump_trace trace (eval_model cpu (set_input cpu ''clk'' clk (fst s)), snd s)"

definition eval_cycle :: "'d verilated \<Rightarrow> bool \<Rightarrow> 'd clocked \<Rightarrow> 'd clocked" where
  "eval_cycle cpu trace s = eval_half_cycle cpu trace 1 (eval_half_cycle cpu trace 0 s)"

section \<open>The pipeline dump\<close>

definition su :: "signals \<Rightarrow> string \<Rightarrow> string \<Rightarrow> field" where
  "su s k n = U k (unat (u32 (s n)))"

definition sx :: "signals \<Rightarrow> string \<Rightarrow> string \<Rightarrow> field" where
  "sx s k n = X8 k (u32 (s n))"

definition snapshot_line :: "signals \<Rightarrow> 64 word \<Rightarrow> 64 word \<Rightarrow> line" where
  "snapshot_line s cycle_count sim_time = Line ''SNAPSHOT''
     [U ''cycle'' (unat cycle_count), U ''time'' (unat sim_time), su s ''rst'' ''rst'', su s ''stall'' ''dbg_stall'',
      su s ''frontendFlush'' ''dbg_flush'', su s ''globalFlush'' ''dbg_globalFlush'', su s ''recover'' ''dbg_recoverValid'',
      su s ''recoverTag'' ''dbg_recoverRobTag'', su s ''robCount'' ''dbg_robCount'', su s ''iqCount'' ''dbg_issueCount'',
      su s ''lsqCount'' ''dbg_lsqCount'', sx s ''toHost'' ''toHost_o'', su s ''uartValid'' ''uartValid_o'',
      X2 ''uartData'' (u32 (s ''uartData_o'')), sx s ''checkPC'' ''checkPC'', sx s ''check'' ''check'', sx s ''checkData'' ''checkData'']"

definition fetch_lines :: "signals \<Rightarrow> line list" where
  "fetch_lines s =
     [Line ''IF0'' [su s ''valid'' ''dbg_if_valid'', sx s ''pc'' ''dbg_if_pc'', sx s ''insn'' ''dbg_if_insn''],
      Line ''IF1'' [su s ''valid'' ''dbg_if1_valid'', sx s ''pc'' ''dbg_if1_pc'', sx s ''insn'' ''dbg_if1_insn'']]"

definition decode_line :: "signals \<Rightarrow> string \<Rightarrow> string \<Rightarrow> line" where
  "decode_line s w p = Line w
     [su s ''valid'' (p @ ''valid''), sx s ''pc'' (p @ ''pc''), sx s ''insn'' (p @ ''insn''), su s ''rd'' (p @ ''rd''),
      su s ''regWrite'' (p @ ''regWrite''), su s ''memWrite'' (p @ ''memWrite''), su s ''branchCtr'' (p @ ''branchCtr''),
      su s ''aluCtr'' (p @ ''aluCtr''), su s ''memCtr'' (p @ ''memCtr''), su s ''regA'' (p @ ''regA''),
      su s ''regB'' (p @ ''regB''), sx s ''imm'' (p @ ''imm'')]"

definition dispatch_line :: "signals \<Rightarrow> string \<Rightarrow> string \<Rightarrow> line" where
  "dispatch_line s w p = Line w
     [su s ''valid'' (p @ ''Valid''), su s ''tag'' (p @ ''RobTag''), sx s ''pc'' (p @ ''Pc''), sx s ''insn'' (p @ ''Insn''), su s ''fu'' (p @ ''Fu'')]"

definition issue_line :: "signals \<Rightarrow> string \<Rightarrow> string \<Rightarrow> line" where
  "issue_line s w p = Line w
     [su s ''valid'' (p @ ''Valid''), su s ''tag'' (p @ ''RobTag''), sx s ''pc'' (p @ ''Pc''), su s ''fu'' (p @ ''Fu'')]"

definition complete_line :: "signals \<Rightarrow> string \<Rightarrow> string \<Rightarrow> line" where
  "complete_line s w p = Line w
     [su s ''valid'' (p @ ''Valid''), su s ''tag'' (p @ ''RobTag''), su s ''exception'' (p @ ''Exception''), sx s ''value'' (p @ ''Value'')]"

definition commit_line :: "signals \<Rightarrow> string \<Rightarrow> string \<Rightarrow> line" where
  "commit_line s w p = Line w
     [su s ''valid'' (p @ ''Valid''), su s ''tag'' (p @ ''RobTag''), sx s ''pc'' (p @ ''Pc''), su s ''rd'' (p @ ''Rd''), sx s ''data'' (p @ ''Data'')]"

text \<open>A byte the processor sends to the UART in this cycle, carriage returns left out.\<close>

definition uart_byte :: "signals \<Rightarrow> ee_u8 list" where
  "uart_byte s = (if s ''uartValid_o'' \<noteq> 0 \<and> s ''uartData_o'' \<noteq> of_char CR then [ucast (s ''uartData_o'')] else [])"

definition event_lines :: "signals \<Rightarrow> 64 word \<Rightarrow> line list" where
  "event_lines s cycle_count =
     (if s ''uartValid_o'' \<noteq> 0 \<and> s ''uartData_o'' \<noteq> of_char CR
      then [Line ''EVENT kind=uart'' [U ''cycle'' (unat cycle_count), X2 ''data'' (u32 (s ''uartData_o''))]] else []) @
     (if u32 (s ''toHost_o'') \<noteq> 0
      then [Line ''EVENT kind=tohost'' [U ''cycle'' (unat cycle_count), sx s ''data'' ''toHost_o'']] else [])"

definition dump_pipeline_snapshot :: "signals \<Rightarrow> 64 word \<Rightarrow> 64 word \<Rightarrow> line list" where
  "dump_pipeline_snapshot s cycle_count sim_time =
     [snapshot_line s cycle_count sim_time] @ fetch_lines s @
     [decode_line s ''ID0'' ''dbg_id_'', decode_line s ''ID1'' ''dbg_id1_'',
      dispatch_line s ''DISPATCH0'' ''dbg_dispatch0'', dispatch_line s ''DISPATCH1'' ''dbg_dispatch1'',
      issue_line s ''ISSUE0'' ''dbg_oooIssue0'', issue_line s ''ISSUE1'' ''dbg_oooIssue1'', issue_line s ''ISSUEF'' ''dbg_oooIssueFallback'',
      complete_line s ''COMPLETE0'' ''dbg_complete0'', complete_line s ''COMPLETE1'' ''dbg_complete1'',
      commit_line s ''COMMIT0'' ''dbg_commit0'', commit_line s ''COMMIT1'' ''dbg_commit1''] @
     event_lines s cycle_count @ [Line ''ENDSNAPSHOT'' []]"

definition pipe_dump_header :: "64 word \<Rightarrow> line list" where
  "pipe_dump_header max_cycles =
     [Line ''TB_PIPE_DUMP_V2'' [], Line ''META clk_period_ns=10'' [X8 ''reset_vector'' 0],
      Line ''META'' [U ''max_cycles'' (unat max_cycles)],
      Line ''META dump_path=build/traces/topCPU_tb_output.txt'' [],
      Line ''META notes=Use tb_dump_to_konata.py to convert this dump to Konata format'' []]"

section \<open>The simulation loop\<close>

record event_counts =
  retired_instructions :: "64 word"
  sc_overrides :: "64 word"
  sc_corrections :: "64 word"
  sc_harms :: "64 word"
  sc_family_correct_support :: "64 word list"
  sc_family_harm_support :: "64 word list"
  loop_hits :: "64 word"
  loop_confident :: "64 word"
  loop_overrides :: "64 word"
  loop_corrections :: "64 word"
  loop_harms :: "64 word"
  loop_trip_mismatches :: "64 word"

definition no_events :: event_counts where
  "no_events = \<lparr>retired_instructions = 0, sc_overrides = 0, sc_corrections = 0, sc_harms = 0,
     sc_family_correct_support = [0, 0, 0, 0, 0], sc_family_harm_support = [0, 0, 0, 0, 0], loop_hits = 0, loop_confident = 0,
     loop_overrides = 0, loop_corrections = 0, loop_harms = 0, loop_trip_mismatches = 0\<rparr>"

definition add_family :: "64 word \<Rightarrow> 64 word list \<Rightarrow> 64 word list" where
  "add_family bits cs = map2 (\<lambda>f c. c + (drop_bit f bits AND 1)) [0..<5] cs"

definition count_events :: "signals \<Rightarrow> event_counts \<Rightarrow> event_counts" where
  "count_events s c =
     \<lparr>retired_instructions = retired_instructions c + s ''dbg_retireCount'',
      sc_overrides = sc_overrides c + s ''dbg_scOverrideEvent'',
      sc_corrections = sc_corrections c + s ''dbg_scCorrectEvent'',
      sc_harms = sc_harms c + s ''dbg_scHarmEvent'',
      sc_family_correct_support = add_family (s ''dbg_scFamilyCorrectSupport'') (sc_family_correct_support c),
      sc_family_harm_support = add_family (s ''dbg_scFamilyHarmSupport'') (sc_family_harm_support c),
      loop_hits = loop_hits c + s ''dbg_loopHitEvent'',
      loop_confident = loop_confident c + s ''dbg_loopConfidentEvent'',
      loop_overrides = loop_overrides c + s ''dbg_loopOverrideEvent'',
      loop_corrections = loop_corrections c + s ''dbg_loopCorrectEvent'',
      loop_harms = loop_harms c + s ''dbg_loopHarmEvent'',
      loop_trip_mismatches = loop_trip_mismatches c + s ''dbg_loopTripMismatchEvent''\<rparr>"

text \<open>The branch trace, a table of comma separated values.\<close>

definition hex :: "nat \<Rightarrow> nat \<Rightarrow> string" where
  "hex width v = pad_to True width (render 16 v)"

definition branch_header :: string where
  "branch_header = ''pc,history,path,tage,final,taken,strong,sc_low'' @ [LF]"

definition branch_row :: "signals \<Rightarrow> string" where
  "branch_row s =
     hex 8 (unat (u32 (s ''dbg_branchTrainPc''))) @ '','' @ hex 16 (unat (s ''dbg_branchTrainHistory'')) @ '','' @
     hex 4 (unat (u32 (s ''dbg_branchTrainPathHistory''))) @
     concat (map (\<lambda>n. CHR '','' # render 10 (unat (u32 (s n))))
       [''dbg_branchTrainTagePrediction'', ''dbg_branchTrainFinalPrediction'', ''dbg_branchTrainTaken'',
        ''dbg_branchTrainStrong'', ''dbg_branchTrainScLowConfidence'']) @ [LF]"

text \<open>The model and its time, the files, and the variables of \<^verbatim>\<open>main\<close>.\<close>

record 'd sim_state =
  sim_top :: 'd
  sim_time :: "64 word"
  wave :: "(64 word \<times> 'd) list"
  cycle_count :: "64 word"
  events :: event_counts
  branches :: string
  dump :: "line list"
  console :: "ee_u8 list"
  log_file :: "ee_u8 list"
  tohost :: "32 word"
  timed_out :: bool

record sim_options =
  max_cycles :: "64 word"
  trace_on :: bool
  pipe_dump :: bool
  branch_trace :: bool

definition log_both :: "string \<Rightarrow> 'd sim_state \<Rightarrow> 'd sim_state" where
  "log_both text st = st\<lparr>console := console st @ map of_char text, log_file := log_file st @ map of_char text\<rparr>"

lemma log_both_fields [simp]:
  "sim_top (log_both text st) = sim_top st" "sim_time (log_both text st) = sim_time st" "wave (log_both text st) = wave st"
  "cycle_count (log_both text st) = cycle_count st" "events (log_both text st) = events st" "branches (log_both text st) = branches st"
  "dump (log_both text st) = dump st" "tohost (log_both text st) = tohost st" "timed_out (log_both text st) = timed_out st"
  "console (log_both text st) = console st @ map of_char text" "log_file (log_both text st) = log_file st @ map of_char text"
  by (simp_all add: log_both_def)

definition sim_step :: "'d verilated \<Rightarrow> sim_options \<Rightarrow> 'd sim_state \<Rightarrow> 'd sim_state" where
  "sim_step cpu opts st =
     (let n = cycle_count st + 1;
          (model, t, w) = eval_cycle cpu (trace_on opts) (sim_top st, sim_time st, wave st);
          s = signal_of cpu model
      in \<lparr>sim_top = model, sim_time = t, wave = w, cycle_count = n, events = count_events s (events st),
          branches = branches st @ (if branch_trace opts \<and> s ''dbg_branchTrainValid'' \<noteq> 0 then branch_row s else []),
          dump = dump st @ (if pipe_dump opts then dump_pipeline_snapshot s n t else []),
          console = console st @ uart_byte s,
          log_file = log_file st @ uart_byte s,
          tohost = u32 (s ''toHost_o''),
          timed_out = (if u32 (s ''toHost_o'') \<noteq> 0 then False else timed_out st)\<rparr>)"

lemma sim_step_count: "cycle_count (sim_step cpu opts st) = cycle_count st + 1"
  by (simp add: sim_step_def Let_def split: prod.splits)

function sim_loop :: "'d verilated \<Rightarrow> sim_options \<Rightarrow> 'd sim_state \<Rightarrow> 'd sim_state" where
  "sim_loop cpu opts st =
     (if \<not> got_finish cpu (sim_top st) \<and> cycle_count st < max_cycles opts
      then let st = sim_step cpu opts st in if tohost st \<noteq> 0 then st else sim_loop cpu opts st
      else st)"
  by pat_completeness auto
termination
proof (relation "measure (\<lambda>(cpu, opts, st). unat (max_cycles opts) - unat (cycle_count st))", goal_cases)
  case (2 cpu opts st st')
  then have "cycle_count st < max_cycles opts" by simp
  then show ?case using 2 unat_Suc_less [of "cycle_count st" "max_cycles opts"]
    by (simp add: sim_step_count word_less_nat_alt)
qed simp

declare sim_loop.simps [simp del]

definition reset_cpu :: "'d verilated \<Rightarrow> bool \<Rightarrow> 'd \<Rightarrow> 'd clocked" where
  "reset_cpu cpu trace model =
     (let model = eval_model cpu (set_input cpu ''fromHost_i'' 0 (set_input cpu ''rst'' 0 (set_input cpu ''clk'' 0 model)));
          s = eval_cycle cpu trace (eval_cycle cpu trace (model, 0, []))
      in dump_trace trace (eval_model cpu (set_input cpu ''rst'' 1 (fst s)), snd s))"

definition kPipeDumpFileName :: string where "kPipeDumpFileName = ''build/traces/topCPU_tb_output.txt''"

definition start_banner :: "sim_options \<Rightarrow> string" where
  "start_banner opts = ''***** Verilator simulation started *****'' @ [LF] @
     ''max_cycles='' @ render 10 (unat (max_cycles opts)) @ '' trace='' @ (if trace_on opts then ''on'' else ''off'') @
     '' pipe_dump='' @ (if pipe_dump opts then kPipeDumpFileName else ''off'') @ [LF]"

definition start_sim :: "'d verilated \<Rightarrow> sim_options \<Rightarrow> 'd \<Rightarrow> 'd sim_state" where
  "start_sim cpu opts model =
     (let (model, t, w) = reset_cpu cpu (trace_on opts) model
      in log_both (start_banner opts)
         \<lparr>sim_top = model, sim_time = t, wave = w, cycle_count = 0, events = no_events,
          branches = (if branch_trace opts then branch_header else []),
          dump = (if pipe_dump opts then pipe_dump_header (max_cycles opts) @ dump_pipeline_snapshot (signal_of cpu model) 0 t else []),
          console = [], log_file = [], tohost = 0, timed_out = True\<rparr>)"

definition timeout_event :: "'d verilated \<Rightarrow> sim_options \<Rightarrow> 'd sim_state \<Rightarrow> 'd sim_state" where
  "timeout_event cpu opts st =
     (if timed_out st \<and> pipe_dump opts
      then let s = signal_of cpu (sim_top st) in st\<lparr>dump := dump st @ [Line ''EVENT kind=timeout''
             [U ''cycle'' (unat (cycle_count st)), U ''limit'' (unat (max_cycles opts)), sx s ''checkPC'' ''checkPC'',
              sx s ''check'' ''check'', sx s ''toHost'' ''toHost_o'']]\<rparr>
      else st)"

section \<open>The run of the simulation\<close>

text \<open>The processor after \<open>k\<close> cycles, and what it shows then.\<close>

definition at_cycle :: "'d verilated \<Rightarrow> 'd \<Rightarrow> nat \<Rightarrow> 'd \<times> 64 word" where
  "at_cycle cpu model k = (case (eval_cycle cpu False ^^ k) (reset_cpu cpu False model) of (m, t, w) \<Rightarrow> (m, t))"

definition shows_at :: "'d verilated \<Rightarrow> 'd \<Rightarrow> nat \<Rightarrow> signals" where
  "shows_at cpu model k = signal_of cpu (fst (at_cycle cpu model k))"

definition tohost_at :: "'d verilated \<Rightarrow> 'd \<Rightarrow> nat \<Rightarrow> 32 word" where
  "tohost_at cpu model k = u32 (shows_at cpu model k ''toHost_o'')"

definition finished_at :: "'d verilated \<Rightarrow> 'd \<Rightarrow> nat \<Rightarrow> bool" where
  "finished_at cpu model k = got_finish cpu (fst (at_cycle cpu model k))"

text \<open>Taking wave form samples changes neither the model nor the time; the samples have consecutive
  times.\<close>

definition clocked :: "'d clocked \<Rightarrow> 'd \<times> 64 word" where
  "clocked s = (fst s, fst (snd s))"

lemma eval_cycle_clocked: "clocked s = clocked s' \<Longrightarrow> clocked (eval_cycle cpu trace s) = clocked (eval_cycle cpu trace' s')"
  by (auto simp: clocked_def eval_cycle_def eval_half_cycle_def dump_trace_def split: prod.splits)

lemma reset_cpu_clocked: "clocked (reset_cpu cpu trace model) = clocked (reset_cpu cpu trace' model)"
proof -
  let ?m = "eval_model cpu (set_input cpu ''fromHost_i'' 0 (set_input cpu ''rst'' 0 (set_input cpu ''clk'' 0 model)))"
  have "clocked (eval_cycle cpu trace (eval_cycle cpu trace (?m, 0, []))) = clocked (eval_cycle cpu trace' (eval_cycle cpu trace' (?m, 0, [])))"
    by (intro eval_cycle_clocked refl)
  then show ?thesis by (auto simp: reset_cpu_def Let_def dump_trace_def clocked_def split: prod.splits)
qed

lemma at_cycle_clocked:
  "at_cycle cpu model 0 = clocked (reset_cpu cpu trace model)"
  "clocked s = at_cycle cpu model k \<Longrightarrow> clocked (eval_cycle cpu trace s) = at_cycle cpu model (Suc k)"
proof -
  have c: "at_cycle cpu model j = clocked ((eval_cycle cpu False ^^ j) (reset_cpu cpu False model))" for j
    by (simp add: at_cycle_def clocked_def split: prod.splits)
  show "at_cycle cpu model 0 = clocked (reset_cpu cpu trace model)" using reset_cpu_clocked c [of 0] by simp
  show "clocked (eval_cycle cpu trace s) = at_cycle cpu model (Suc k)" if "clocked s = at_cycle cpu model k"
    using that eval_cycle_clocked [of s] by (simp add: c)
qed

definition sampled :: "bool \<Rightarrow> nat \<Rightarrow> 'd clocked \<Rightarrow> bool" where
  "sampled trace k s \<longleftrightarrow> fst (snd s) = word_of_nat k
     \<and> map fst (snd (snd s)) = (if trace then map word_of_nat [0..<k] else [])"

lemma dump_trace_sampled: "sampled trace k (m, s) \<Longrightarrow> sampled trace (Suc k) (dump_trace trace (m', s))"
  by (auto simp: sampled_def dump_trace_def split: prod.splits)

lemma eval_cycle_sampled: "sampled trace k s \<Longrightarrow> sampled trace (Suc (Suc k)) (eval_cycle cpu trace s)"
  unfolding eval_cycle_def eval_half_cycle_def
  by (metis dump_trace_sampled prod.collapse)

lemma reset_cpu_sampled: "sampled trace 5 (reset_cpu cpu trace model)"
proof -
  have 4: "sampled trace 4 (eval_cycle cpu trace (eval_cycle cpu trace (m, 0, [])))" for m
  proof -
    have "sampled trace 0 (m, 0, [])" by (simp add: sampled_def)
    from eval_cycle_sampled [OF eval_cycle_sampled [OF this]] show ?thesis by (simp add: eval_nat_numeral)
  qed
  have 5: "sampled trace 5 (dump_trace trace (m, snd s))" if "sampled trace 4 s" for s :: "'a clocked" and m
    using dump_trace_sampled [of trace 4 "fst s" "snd s" m] that by simp
  show ?thesis unfolding reset_cpu_def Let_def by (rule 5 [OF 4])
qed

lemma at_cycle_time: "snd (at_cycle cpu model k) = 5 + 2 * word_of_nat k"
proof -
  have "sampled False (5 + 2 * k) ((eval_cycle cpu False ^^ k) (reset_cpu cpu False model))"
  proof (induction k)
    case 0
    show ?case using reset_cpu_sampled [of False] by simp
  next
    case (Suc k)
    then show ?case using eval_cycle_sampled by fastforce
  qed
  then show ?thesis by (auto simp: at_cycle_def sampled_def split: prod.splits)
qed

text \<open>The state of the simulation after \<open>k\<close> passes of the loop.\<close>

definition tracks :: "'d verilated \<Rightarrow> sim_options \<Rightarrow> 'd \<Rightarrow> nat \<Rightarrow> 'd sim_state \<Rightarrow> bool" where
  "tracks cpu opts model k st \<longleftrightarrow> (sim_top st, sim_time st) = at_cycle cpu model k \<and> unat (cycle_count st) = k
     \<and> sampled (trace_on opts) (5 + 2 * k) (sim_top st, sim_time st, wave st)
     \<and> console st = map of_char (start_banner opts) @ concat (map (\<lambda>i. uart_byte (shows_at cpu model i)) [1..<Suc k])
     \<and> log_file st = console st
     \<and> events st = fold (\<lambda>i. count_events (shows_at cpu model i)) [1..<Suc k] no_events
     \<and> branches st = (if branch_trace opts
          then branch_header @ concat (map (\<lambda>i. branch_row (shows_at cpu model i))
             (filter (\<lambda>i. shows_at cpu model i ''dbg_branchTrainValid'' \<noteq> 0) [1..<Suc k]))
          else [])
     \<and> dump st = (if pipe_dump opts then pipe_dump_header (max_cycles opts) @
          concat (map (\<lambda>i. dump_pipeline_snapshot (shows_at cpu model i) (word_of_nat i) (snd (at_cycle cpu model i))) [0..<Suc k]) else [])"

lemma start_tracks: "tracks cpu opts model 0 (start_sim cpu opts model)"
proof -
  obtain m t w where r: "reset_cpu cpu (trace_on opts) model = (m, t, w)" using prod_cases3 by blast
  have a: "at_cycle cpu model 0 = (m, t)" unfolding at_cycle_clocked(1) [of _ _ "trace_on opts"] r by (simp add: clocked_def)
  then have "shows_at cpu model 0 = signal_of cpu m" by (simp add: shows_at_def)
  then show ?thesis using reset_cpu_sampled [of "trace_on opts" cpu model] a
    unfolding tracks_def start_sim_def r log_both_def by (simp add: Let_def)
qed

lemma step_tracks:
  assumes "tracks cpu opts model k st" "cycle_count st < max_cycles opts"
  shows "tracks cpu opts model (Suc k) (sim_step cpu opts st)"
    "tohost (sim_step cpu opts st) = tohost_at cpu model (Suc k)"
    "timed_out (sim_step cpu opts st) = (if tohost_at cpu model (Suc k) \<noteq> 0 then False else timed_out st)"
proof -
  have n: "unat (cycle_count st + 1) = Suc k" using assms unat_Suc_less by (auto simp: tracks_def)
  have "cycle_count st + 1 = word_of_nat (unat (cycle_count st + 1))" by simp
  then have c: "cycle_count st + 1 = word_of_nat (Suc k)" unfolding n .
  let ?s = "(sim_top st, sim_time st, wave st)"
  obtain m t w where e: "eval_cycle cpu (trace_on opts) ?s = (m, t, w)" using prod_cases3 by blast
  have "clocked ?s = at_cycle cpu model k" using assms(1) by (simp add: tracks_def clocked_def)
  from at_cycle_clocked(2) [OF this, of "trace_on opts"] have a: "at_cycle cpu model (Suc k) = (m, t)" by (simp add: e clocked_def)
  then have s: "signal_of cpu m = shows_at cpu model (Suc k)" by (simp add: shows_at_def)
  have w: "sampled (trace_on opts) (5 + 2 * Suc k) (m, t, w)"
    using eval_cycle_sampled [of "trace_on opts" "5 + 2 * k" ?s cpu] assms(1) by (simp add: tracks_def e)
  show "tracks cpu opts model (Suc k) (sim_step cpu opts st)"
    using assms(1) n w a unfolding tracks_def sim_step_def e s c by (simp add: s Let_def)
  show "tohost (sim_step cpu opts st) = tohost_at cpu model (Suc k)"
    "timed_out (sim_step cpu opts st) = (if tohost_at cpu model (Suc k) \<noteq> 0 then False else timed_out st)"
    unfolding sim_step_def e by (simp_all add: tohost_at_def s Let_def)
qed

text \<open>How the loop ends after \<open>n\<close> cycles.\<close>

definition ends_at :: "'d verilated \<Rightarrow> sim_options \<Rightarrow> 'd \<Rightarrow> nat \<Rightarrow> 'd sim_state \<Rightarrow> bool" where
  "ends_at cpu opts model n st \<longleftrightarrow> tracks cpu opts model n st \<and> n \<le> unat (max_cycles opts)
     \<and> (\<forall>j. 0 < j \<and> j < n \<longrightarrow> tohost_at cpu model j = 0) \<and> (\<forall>j < n. \<not> finished_at cpu model j)
     \<and> (if 0 < n \<and> tohost_at cpu model n \<noteq> 0 then \<not> timed_out st \<and> tohost st = tohost_at cpu model n
        else timed_out st \<and> (n = unat (max_cycles opts) \<or> finished_at cpu model n))"

lemma sim_loop_ends:
  assumes "tracks cpu opts model k st" "timed_out st" "k \<le> unat (max_cycles opts)"
    "\<forall>j. 0 < j \<and> j \<le> k \<longrightarrow> tohost_at cpu model j = 0" "\<forall>j < k. \<not> finished_at cpu model j"
  shows "\<exists>n. ends_at cpu opts model n (sim_loop cpu opts st)"
  using assms
proof (induction "unat (max_cycles opts) - k" arbitrary: k st rule: less_induct)
  case less
  have "fst (at_cycle cpu model k) = sim_top st" using less.prems(1) by (simp add: tracks_def prod_eq_iff)
  then have fin: "got_finish cpu (sim_top st) = finished_at cpu model k" by (simp add: finished_at_def)
  show ?case
  proof (cases "\<not> finished_at cpu model k \<and> cycle_count st < max_cycles opts")
    case False
    then have "sim_loop cpu opts st = st" by (subst sim_loop.simps) (auto simp: fin)
    moreover have "finished_at cpu model k \<or> k = unat (max_cycles opts)"
      using False less.prems(1,3) by (auto simp: tracks_def word_less_nat_alt)
    ultimately show ?thesis using less.prems by (intro exI [of _ k]) (auto simp: ends_at_def)
  next
    case True
    let ?st = "sim_step cpu opts st"
    note st = step_tracks [OF less.prems(1) True [THEN conjunct2]]
    have k: "k < unat (max_cycles opts)" using True less.prems(1) by (simp add: tracks_def word_less_nat_alt)
    have fin': "\<forall>j < Suc k. \<not> finished_at cpu model j" using True less.prems(5) by (auto simp: less_Suc_eq)
    show ?thesis
    proof (cases "tohost_at cpu model (Suc k) = 0")
      case False
      then have "sim_loop cpu opts st = ?st" using True st(2) by (subst sim_loop.simps) (simp add: fin)
      then show ?thesis using st False k fin' less.prems(4)
        by (intro exI [of _ "Suc k"]) (auto simp: ends_at_def)
    next
      case True': True
      have "sim_loop cpu opts st = sim_loop cpu opts ?st" using True True' st(2) by (subst sim_loop.simps) (simp add: fin)
      moreover have "\<forall>j. 0 < j \<and> j \<le> Suc k \<longrightarrow> tohost_at cpu model j = 0" using True' less.prems(4) by (auto simp: le_Suc_eq)
      ultimately show ?thesis using less.hyps [of "Suc k" ?st] st True' k fin' less.prems(2) by auto
    qed
  qed
qed

lemma sim_run_ends: "\<exists>n. ends_at cpu opts model n (sim_loop cpu opts (start_sim cpu opts model))"
  by (rule sim_loop_ends [OF start_tracks]) (auto simp: start_sim_def Let_def split: prod.splits)

text \<open>The processor signals \<open>v\<close> after \<open>n\<close> cycles, and nothing before.\<close>

definition signals_first :: "'d verilated \<Rightarrow> 'd \<Rightarrow> nat \<Rightarrow> 32 word \<Rightarrow> bool" where
  "signals_first cpu model n v \<longleftrightarrow> 0 < n \<and> tohost_at cpu model n = v \<and> v \<noteq> 0
     \<and> (\<forall>j. 0 < j \<and> j < n \<longrightarrow> tohost_at cpu model j = 0) \<and> (\<forall>j < n. \<not> finished_at cpu model j)"

lemma signals_first_unique: "signals_first cpu model n v \<Longrightarrow> signals_first cpu model n' v' \<Longrightarrow> n = n' \<and> v = v'"
  unfolding signals_first_def by (metis linorder_neqE_nat)

lemma ends_at_signal:
  assumes "ends_at cpu opts model n st"
  shows "\<not> timed_out st \<longleftrightarrow> (\<exists>k v. k \<le> unat (max_cycles opts) \<and> signals_first cpu model k v)"
    "signals_first cpu model k v \<Longrightarrow> k \<le> unat (max_cycles opts) \<Longrightarrow> n = k \<and> tohost st = v"
proof -
  show 2: "signals_first cpu model k v \<Longrightarrow> k \<le> unat (max_cycles opts) \<Longrightarrow> n = k \<and> tohost st = v"
    using assms unfolding ends_at_def signals_first_def by (metis le_neq_implies_less linorder_neqE_nat)
  show "\<not> timed_out st \<longleftrightarrow> (\<exists>k v. k \<le> unat (max_cycles opts) \<and> signals_first cpu model k v)"
  proof
    assume "\<not> timed_out st"
    then have "signals_first cpu model n (tohost_at cpu model n)"
      using assms by (auto simp: ends_at_def signals_first_def split: if_splits)
    then show "\<exists>k v. k \<le> unat (max_cycles opts) \<and> signals_first cpu model k v" using assms by (auto simp: ends_at_def)
  next
    assume "\<exists>k v. k \<le> unat (max_cycles opts) \<and> signals_first cpu model k v"
    then obtain k v where kv: "k \<le> unat (max_cycles opts)" "signals_first cpu model k v" by blast
    have nk: "n = k"
      using assms kv unfolding ends_at_def signals_first_def by (metis le_neq_implies_less linorder_neqE_nat)
    then show "\<not> timed_out st" using assms kv by (auto simp: ends_at_def signals_first_def)
  qed
qed

end
