(* ===== verification/SimReport.thy ===== *)
theory SimReport
  imports SimLoop
begin

text \<open>
  What \<^verbatim>\<open>sim/verilator/sim_main.cpp\<close> prints when its loop has ended: the final state, the performance
  counters of the processor, the derived rates and the counters of the branch predictors.

  The lemmas bound the errors of the printed rates.
\<close>

section \<open>Rates\<close>

definition measured_ipc :: "64 word \<Rightarrow> 64 word \<Rightarrow> double" where
  "measured_ipc retired cycles = (if cycles \<noteq> 0 then ddiv (dbl (unat retired)) (dbl (unat cycles)) else 0)"

definition retired_for_mpki :: "64 word \<Rightarrow> double" where
  "retired_for_mpki retired = (if retired \<noteq> 0 then dbl (unat retired) else 1)"

definition mpki :: "64 word \<Rightarrow> 64 word \<Rightarrow> double" where
  "mpki misses retired = ddiv (dmul 1000 (dbl (unat misses))) (retired_for_mpki retired)"

definition load_miss_rate :: "64 word \<Rightarrow> 64 word \<Rightarrow> double" where
  "load_miss_rate hits misses =
     (let accesses = hits + misses
      in if accesses \<noteq> 0 then ddiv (dmul 100 (dbl (unat misses))) (dbl (unat accesses)) else 0)"

section \<open>The report\<close>

definition sq :: "signals \<Rightarrow> string \<Rightarrow> string \<Rightarrow> field" where
  "sq s k n = U k (unat (s n))"

definition finish_lines :: "signals \<Rightarrow> 64 word \<Rightarrow> 32 word \<Rightarrow> 64 word \<Rightarrow> line list" where
  "finish_lines s cycles host retired =
     [Line [] [], Line ''***** Verilator simulation finished *****'' [],
      Line [] [U ''cycles'' (unat cycles), X8 ''toHost'' host, sx s ''pc'' ''checkPC'', sx s ''instruction'' ''check'',
        su s ''rob'' ''dbg_robCount'', su s ''issue'' ''dbg_issueCount'', su s ''lsq'' ''dbg_lsqCount''],
      Line [] [U ''retired'' (unat retired), F ''measured_ipc'' 4 (measured_ipc retired cycles)]]"

definition perf_lines :: "signals \<Rightarrow> line list" where
  "perf_lines s =
     [Line ''PERF'' [sq s ''issue_dual'' ''dbg_perfDualIssueCycles'', sq s ''issue_single'' ''dbg_perfSingleIssueCycles'',
        sq s ''iq_no_ready'' ''dbg_perfIqNoReadyCycles'', sq s ''lsu_blocked'' ''dbg_perfPort0LsuBlockedCycles'',
        sq s ''branch_candidate_blocked'' ''dbg_perfPort0BranchBlockedCycles''],
      Line ''PERF'' [sq s ''lsu_lsq_order'' ''dbg_perfLsqOrderBlockedCycles'', sq s ''lsu_sb_alias'' ''dbg_perfStoreBufferAliasBlockedCycles'',
        sq s ''lsu_mmio_order'' ''dbg_perfMmioOrderBlockedCycles'', sq s ''lsu_dcache_request'' ''dbg_perfDcacheRequestBlockedCycles'',
        sq s ''lsu_internal'' ''dbg_perfLsuInternalBlockedCycles'', sq s ''lsu_fallback'' ''dbg_perfLsuFallbackCycles''],
      Line ''PERF'' [sq s ''rob_full'' ''dbg_perfRobFullCycles'', sq s ''iq_full'' ''dbg_perfIqFullCycles'',
        sq s ''lsq_full'' ''dbg_perfLsqFullCycles'', sq s ''prf_empty'' ''dbg_perfPrfEmptyCycles'', sq s ''branches'' ''dbg_perfBranchCount'',
        sq s ''mispredicts'' ''dbg_perfBranchMispredictCount'', sq s ''jump_serialize'' ''dbg_perfJumpSerializationCycles'']]"

definition bpu_line :: "signals \<Rightarrow> line" where
  "bpu_line s = Line ''BPU''
     [sq s ''conditional'' ''dbg_perfConditionalCount'', sq s ''conditional_misp'' ''dbg_perfConditionalMispredictCount'',
      sq s ''direction_misp'' ''dbg_perfDirectionMispredictCount'', sq s ''target_misp'' ''dbg_perfTargetMispredictCount'',
      sq s ''btb_miss'' ''dbg_perfBtbMissCount'', sq s ''jal_misp'' ''dbg_perfJalMispredictCount'',
      sq s ''jalr_misp'' ''dbg_perfJalrMispredictCount'', sq s ''ras_miss'' ''dbg_perfRasMissCount'']"

definition icache_line :: "signals \<Rightarrow> 64 word \<Rightarrow> line" where
  "icache_line s retired = Line ''CACHE I''
     [sq s ''req'' ''dbg_perfIcacheRequests'', sq s ''hit'' ''dbg_perfIcacheHits'', sq s ''miss'' ''dbg_perfIcacheMisses'',
      sq s ''line_miss'' ''dbg_perfIcacheLineMisses'', sq s ''miss_stall'' ''dbg_perfIcacheMissStallCycles'',
      sq s ''refill_lines'' ''dbg_perfIcacheRefillLines'', sq s ''refill_cycles'' ''dbg_perfIcacheRefillCycles'',
      sq s ''crossline_miss'' ''dbg_perfIcacheCrosslineMisses'',
      sq s ''response_backpressure'' ''dbg_perfIcacheResponseBackpressureCycles'',
      F ''mpki'' 3 (mpki (s ''dbg_perfIcacheLineMisses'') retired)]"

definition dcache_line :: "signals \<Rightarrow> 64 word \<Rightarrow> line" where
  "dcache_line s retired = Line ''CACHE D''
     [sq s ''req'' ''dbg_perfDcacheRequests'', sq s ''load_hit'' ''dbg_perfDcacheLoadHits'', sq s ''load_miss'' ''dbg_perfDcacheLoadMisses'',
      Percent ''load_miss_rate'' 3 (load_miss_rate (s ''dbg_perfDcacheLoadHits'') (s ''dbg_perfDcacheLoadMisses'')),
      sq s ''store_hit'' ''dbg_perfDcacheStoreHits'', sq s ''store_miss'' ''dbg_perfDcacheStoreMisses'',
      sq s ''mmio'' ''dbg_perfDcacheMmioRequests'', sq s ''busy'' ''dbg_perfDcacheBusyCycles'',
      sq s ''refill_lines'' ''dbg_perfDcacheRefillLines'', sq s ''refill_cycles'' ''dbg_perfDcacheRefillCycles'',
      sq s ''request_backpressure'' ''dbg_perfDcacheRequestBackpressureCycles'',
      sq s ''store_commit_stall'' ''dbg_perfStoreCommitStallCycles'', F ''mpki'' 3 (mpki (s ''dbg_perfDcacheLoadMisses'') retired)]"

definition sc_lines :: "event_counts \<Rightarrow> line list" where
  "sc_lines c =
     Line ''SC'' [U ''overrides'' (unat (sc_overrides c)), U ''corrections'' (unat (sc_corrections c)), U ''harms'' (unat (sc_harms c)),
       I ''net'' (net (sc_corrections c) (sc_harms c))] #
     map (\<lambda>(name, good, bad). Line (''SC_FAMILY '' @ name)
         [U ''correction_support'' (unat good), U ''harm_support'' (unat bad), I ''net'' (net good bad)])
       (zip [''bias'', ''global'', ''local'', ''imli'', ''path''] (zip (sc_family_correct_support c) (sc_family_harm_support c)))"

definition loop_line :: "event_counts \<Rightarrow> line" where
  "loop_line c = Line ''LOOP''
     [U ''hits'' (unat (loop_hits c)), U ''confident'' (unat (loop_confident c)), U ''overrides'' (unat (loop_overrides c)),
      U ''corrections'' (unat (loop_corrections c)), U ''harms'' (unat (loop_harms c)),
      I ''net'' (net (loop_corrections c) (loop_harms c)), U ''trip_mismatch'' (unat (loop_trip_mismatches c))]"

definition final_report :: "'d verilated \<Rightarrow> 'd sim_state \<Rightarrow> line list" where
  "final_report cpu st =
     (let s = signal_of cpu (sim_top st); retired = retired_instructions (events st)
      in finish_lines s (cycle_count st) (tohost st) retired @ perf_lines s @
         [bpu_line s, icache_line s retired, dcache_line s retired] @ sc_lines (events st) @ [loop_line (events st)])"

definition kTohostPassValue :: "32 word" where "kTohostPassValue = 1"

definition result_line :: "'d sim_state \<Rightarrow> string" where
  "result_line st =
     (if timed_out st then ''***** simulation result: TIMEOUT *****'' @ [LF]
      else if tohost st = kTohostPassValue then ''***** simulation result: SUCCESS *****'' @ [LF]
      else ''***** simulation result: FAIL (toHost=0x'' @ hex 8 (unat (tohost st)) @ '') *****'' @ [LF])"

definition exit_code :: "'d sim_state \<Rightarrow> int" where
  "exit_code st = (if timed_out st then 1 else if tohost st = kTohostPassValue then 0 else 1)"

definition finish_sim :: "'d verilated \<Rightarrow> 'd sim_state \<Rightarrow> 'd sim_state" where
  "finish_sim cpu st = log_both (result_line st) (log_both (concat (map show_line (final_report cpu st))) st)"

section \<open>Accuracy\<close>

lemma dbl_exact: "n < 2 ^ 53 \<Longrightarrow> dbl n = of_nat n"
  unfolding dbl_def by (rule to_double_exact)

lemma dbl_small: "dbl 1000 = 1000" "dbl 100 = 100"
  by (simp_all add: dbl_exact)

lemma ddiv_nonneg: "0 \<le> a \<Longrightarrow> 0 \<le> b \<Longrightarrow> 0 \<le> ddiv a b"
  by (simp add: ddiv_def to_double_nonneg)

lemma dbl_nonneg [simp]: "0 \<le> dbl n"
  by (simp add: dbl_def to_double_nonneg)

lemma dmul_nonneg: "0 \<le> a \<Longrightarrow> 0 \<le> b \<Longrightarrow> 0 \<le> dmul a b"
  by (simp add: dmul_def to_double_nonneg)

lemma printed_error:
  assumes "\<bar>x - r\<bar> \<le> r * d" "0 \<le> x" "0 < k"
  shows "\<bar>decimal (fixed k x) - r\<bar> \<le> 1 / (2 * 10 ^ k) + r * d"
proof -
  have "\<bar>decimal (fixed k x) - r\<bar> \<le> \<bar>decimal (fixed k x) - x\<bar> + \<bar>x - r\<bar>" by linarith
  also have "\<dots> \<le> 1 / (2 * 10 ^ k) + r * d" using fixed_error [OF assms(2,3)] assms(1) by linarith
  finally show ?thesis .
qed

lemma unat_nonzero: "(b :: 64 word) \<noteq> 0 \<Longrightarrow> unat b \<noteq> 0"
  by (simp add: unat_eq_0)

text \<open>
  C24: the rates in the report are what they are named. Read as decimal numbers, the printed
  instructions per cycle are within half a unit of the fourth digit of the quotient of the two
  counters, and the misses per thousand instructions and the miss rate in percent within half a
  unit of the third digit of theirs, up to five relative rounding errors of \<open>2^-53\<close> each.
\<close>

theorem printed_rates_accurate:
  assumes "b \<noteq> 0" "unat h + unat a < 2 ^ 64" "unat h + unat a \<noteq> 0"
  shows "\<bar>decimal (fixed 4 (measured_ipc a b)) - of_nat (unat a) / of_nat (unat b)\<bar>
       \<le> 1 / 20000 + of_nat (unat a) / of_nat (unat b) * (4 / 2 ^ 53)
     \<and> \<bar>decimal (fixed 3 (mpki a b)) - of_nat (1000 * unat a) / of_nat (unat b)\<bar>
       \<le> 1 / 2000 + of_nat (1000 * unat a) / of_nat (unat b) * (5 / 2 ^ 53)
     \<and> \<bar>decimal (fixed 3 (load_miss_rate h a)) - of_nat (100 * unat a) / of_nat (unat h + unat a)\<bar>
       \<le> 1 / 2000 + of_nat (100 * unat a) / of_nat (unat h + unat a) * (5 / 2 ^ 53)"
proof (intro conjI)
  have ha: "unat (h + a) = unat h + unat a" using assms(2) by (simp add: unat_word_ariths)
  then have ha0: "h + a \<noteq> 0" using assms(3) by (metis unat_0)
  note nz = unat_nonzero [OF assms(1)]
  have 4: "(4 :: rat) / 2 ^ 53 = 4 * unit_roundoff" "(5 :: rat) / 2 ^ 53 = 5 * unit_roundoff" by (simp_all add: unit_roundoff_def)
  have 10: "1 / 20000 = (1 / (2 * 10 ^ 4) :: rat)" "1 / 2000 = (1 / (2 * 10 ^ 3) :: rat)" by simp_all
  show "\<bar>decimal (fixed 4 (measured_ipc a b)) - of_nat (unat a) / of_nat (unat b)\<bar>
       \<le> 1 / 20000 + of_nat (unat a) / of_nat (unat b) * (4 / 2 ^ 53)"
    unfolding 4 10 measured_ipc_def if_P [OF assms(1)]
    by (intro printed_error ratio_error nz ddiv_nonneg) simp_all
  show "\<bar>decimal (fixed 3 (mpki a b)) - of_nat (1000 * unat a) / of_nat (unat b)\<bar>
       \<le> 1 / 2000 + of_nat (1000 * unat a) / of_nat (unat b) * (5 / 2 ^ 53)"
    unfolding 4 10 mpki_def retired_for_mpki_def if_P [OF assms(1)] dbl_small(1) [symmetric]
    by (intro printed_error scaled_ratio_error nz ddiv_nonneg dmul_nonneg) (simp_all add: dbl_small)
  show "\<bar>decimal (fixed 3 (load_miss_rate h a)) - of_nat (100 * unat a) / of_nat (unat h + unat a)\<bar>
       \<le> 1 / 2000 + of_nat (100 * unat a) / of_nat (unat h + unat a) * (5 / 2 ^ 53)"
    unfolding 4 10 load_miss_rate_def Let_def if_P [OF ha0] dbl_small(2) [symmetric] ha
    by (intro printed_error scaled_ratio_error assms(3) ddiv_nonneg dmul_nonneg) (simp_all add: dbl_small)
qed

text \<open>For seven instructions in three cycles the report shows \<^verbatim>\<open>2.3333\<close>.\<close>

lemma seven_thirds: "ddiv (dbl 7) (dbl 3) = 5254199565265579 / 2251799813685248"
proof -
  have a: "ilog2 (7 / 3) = 1" by code_simp
  have "round_even (7 / 3 / 2 powi (1 - 52)) = 5254199565265579" by (rule round_even_eq) (simp add: power_int_def power_one_over)
  then show ?thesis by (simp add: dbl_exact ddiv_def to_double_def a power_int_def power_one_over)
qed

lemma printed_seven_thirds: "fixed 4 (measured_ipc 7 3) = ''2.3333''"
proof -
  have "round_even (5254199565265579 / 2251799813685248 * 10 ^ 4) = 23333" by (rule round_even_eq) simp
  moreover have "render 10 2 = ''2''" "render 10 3333 = ''3333''" by code_simp+
  ultimately show ?thesis by (simp add: measured_ipc_def seven_thirds fixed_def pad_to_def)
qed

theorem printed_rates_accurate_witness:
  "fixed 4 (measured_ipc 7 3) = ''2.3333'' \<and> \<bar>decimal (fixed 4 (measured_ipc 7 3)) - 7 / 3\<bar> \<le> 1 / 20000 + 7 / 3 * (4 / 2 ^ 53)"
  using printed_seven_thirds printed_rates_accurate [of 3 0 7] by simp

end
