(* ===== verification/SimMain.thy ===== *)
theory SimMain
  imports SimReport
begin

text \<open>
  The whole of \<^verbatim>\<open>main\<close> of \<^verbatim>\<open>sim/verilator/sim_main.cpp\<close>: options, files, the simulation loop, the report
  and the exit code. The properties relate the exit code, the console and the files to what the
  processor does.
\<close>

section \<open>The program\<close>

definition kSimulationLogFileName :: string where "kSimulationLogFileName = ''build/traces/simulation_output.txt''"

definition branch_trace_path :: "environment \<Rightarrow> string" where
  "branch_trace_path getenv = (case getenv ''SIM_BRANCH_TRACE'' of Some p \<Rightarrow> p | None \<Rightarrow> [])"

definition sim_opts :: "environment \<Rightarrow> string list \<Rightarrow> sim_options" where
  "sim_opts getenv args = \<lparr>max_cycles = get_max_cycles getenv args, trace_on = trace_enabled getenv args,
     pipe_dump = pipe_dump_enabled getenv args, branch_trace = branch_trace_path getenv \<noteq> []\<rparr>"

text \<open>The files that can be opened are a parameter; when one it needs cannot be opened, the program
  ends with a message on the error output.\<close>

definition sim_main ::
  "'d verilated \<Rightarrow> 'd \<Rightarrow> environment \<Rightarrow> (string \<Rightarrow> bool) \<Rightarrow> string list \<Rightarrow> int \<times> (string + 'd sim_state)" where
  "sim_main cpu model getenv can_open args =
     (if \<not> can_open kSimulationLogFileName
      then (1, Inl (''Failed to open '' @ kSimulationLogFileName @ '' for writing.'' @ [LF]))
      else let opts = sim_opts getenv args; path = branch_trace_path getenv
      in if branch_trace opts \<and> \<not> can_open path then (1, Inl (''Failed to open branch trace '' @ path @ ''.'' @ [LF]))
         else if pipe_dump opts \<and> \<not> can_open kPipeDumpFileName
         then (1, Inl (''Failed to open '' @ kPipeDumpFileName @ '' for writing.'' @ [LF]))
         else let st = timeout_event cpu opts (sim_loop cpu opts (start_sim cpu opts model))
              in (exit_code st, Inr (finish_sim cpu st)))"

section \<open>Properties\<close>

text \<open>All the files the run needs can be opened.\<close>

definition files_open :: "environment \<Rightarrow> (string \<Rightarrow> bool) \<Rightarrow> string list \<Rightarrow> bool" where
  "files_open getenv can_open args \<longleftrightarrow> can_open kSimulationLogFileName
     \<and> (branch_trace (sim_opts getenv args) \<longrightarrow> can_open (branch_trace_path getenv))
     \<and> (pipe_dump (sim_opts getenv args) \<longrightarrow> can_open kPipeDumpFileName)"

lemma sim_opts_simps [simp]:
  "max_cycles (sim_opts getenv args) = get_max_cycles getenv args" "trace_on (sim_opts getenv args) = trace_enabled getenv args"
  "pipe_dump (sim_opts getenv args) = pipe_dump_enabled getenv args"
  "branch_trace (sim_opts getenv args) \<longleftrightarrow> branch_trace_path getenv \<noteq> []"
  by (simp_all add: sim_opts_def)

lemma timeout_event_fields [simp]:
  "timed_out (timeout_event cpu opts st) = timed_out st" "tohost (timeout_event cpu opts st) = tohost st"
  "console (timeout_event cpu opts st) = console st" "cycle_count (timeout_event cpu opts st) = cycle_count st"
  "events (timeout_event cpu opts st) = events st" "log_file (timeout_event cpu opts st) = log_file st"
  "wave (timeout_event cpu opts st) = wave st" "branches (timeout_event cpu opts st) = branches st"
  "sim_top (timeout_event cpu opts st) = sim_top st"
  by (simp_all add: timeout_event_def Let_def)

lemma finish_sim_fields [simp]:
  "timed_out (finish_sim cpu st) = timed_out st" "tohost (finish_sim cpu st) = tohost st" "sim_top (finish_sim cpu st) = sim_top st"
  "cycle_count (finish_sim cpu st) = cycle_count st" "events (finish_sim cpu st) = events st"
  "wave (finish_sim cpu st) = wave st" "branches (finish_sim cpu st) = branches st" "dump (finish_sim cpu st) = dump st"
  "final_report cpu (finish_sim cpu st) = final_report cpu st" "result_line (finish_sim cpu st) = result_line st"
  by (simp_all add: finish_sim_def final_report_def result_line_def)

text \<open>The state the loop leaves, and the program without the files it needs.\<close>

definition loop_result :: "'d verilated \<Rightarrow> 'd \<Rightarrow> environment \<Rightarrow> string list \<Rightarrow> 'd sim_state" where
  "loop_result cpu model getenv args = sim_loop cpu (sim_opts getenv args) (start_sim cpu (sim_opts getenv args) model)"

lemma sim_main_eq:
  "files_open getenv can_open args \<Longrightarrow> sim_main cpu model getenv can_open args
     = (exit_code (loop_result cpu model getenv args),
        Inr (finish_sim cpu (timeout_event cpu (sim_opts getenv args) (loop_result cpu model getenv args))))"
  "\<not> files_open getenv can_open args \<Longrightarrow> \<exists>msg. sim_main cpu model getenv can_open args = (1, Inl msg)"
  by (auto simp: sim_main_def files_open_def loop_result_def exit_code_def Let_def)

lemma loop_result_ends: "\<exists>n. ends_at cpu (sim_opts getenv args) model n (loop_result cpu model getenv args)"
  unfolding loop_result_def by (rule sim_run_ends)

lemma sim_main_exit:
  "fst (sim_main cpu model getenv can_open args) = (if files_open getenv can_open args
     \<and> (\<exists>n \<le> unat (get_max_cycles getenv args). signals_first cpu model n kTohostPassValue) then 0 else 1)"
proof (cases "files_open getenv can_open args")
  case False
  with sim_main_eq(2) [of getenv can_open args cpu model] show ?thesis by auto
next
  case True
  let ?st = "loop_result cpu model getenv args"
  obtain n where e: "ends_at cpu (sim_opts getenv args) model n ?st" using loop_result_ends [of cpu getenv args model] by (rule exE)
  note sig = ends_at_signal [OF e, unfolded sim_opts_simps]
  have "exit_code ?st = 0 \<longleftrightarrow> (\<exists>n \<le> unat (get_max_cycles getenv args). signals_first cpu model n kTohostPassValue)"
    unfolding exit_code_def using sig by (simp split: if_split) (metis zero_neq_one)
  moreover have "exit_code ?st \<in> {0, 1}" by (simp add: exit_code_def)
  ultimately show ?thesis using True sim_main_eq(1) [OF True, of cpu model] by auto
qed

text \<open>
  C18: the simulation reports success exactly when the processor does. Its exit code is 0 if and
  only if the files it needs can be opened and the processor, before it executes \<^verbatim>\<open>$finish\<close> and within
  the limit of cycles, writes 1 to \<^verbatim>\<open>tohost\<close> as its first non-zero value; a time-out, another value
  and a file that cannot be opened all give 1.
\<close>

theorem sim_exit_code:
  "fst (sim_main cpu model getenv can_open args) = (if files_open getenv can_open args
     \<and> (\<exists>n \<le> unat (get_max_cycles getenv args). signals_first cpu model n kTohostPassValue) then 0 else 1)"
  by (rule sim_main_exit)

lemma retired_fold: "retired_instructions (fold (\<lambda>i. count_events (s i)) xs c)
    = retired_instructions c + sum_list (map (\<lambda>i. s i ''dbg_retireCount'') xs)"
  by (induction xs arbitrary: c) (simp_all add: count_events_def add.assoc)

lemma console_finish:
  assumes "tracks cpu opts model n st"
  shows "console (finish_sim cpu (timeout_event cpu opts st)) = map of_char (start_banner opts)
      @ concat (map (\<lambda>i. uart_byte (shows_at cpu model i)) [1..<Suc n])
      @ map of_char (concat (map show_line (final_report cpu st)) @ result_line st)"
    "log_file (finish_sim cpu (timeout_event cpu opts st)) = console (finish_sim cpu (timeout_event cpu opts st))"
proof -
  have "final_report cpu (timeout_event cpu opts st) = final_report cpu st" "result_line (timeout_event cpu opts st) = result_line st"
    by (simp_all add: final_report_def result_line_def)
  then show "console (finish_sim cpu (timeout_event cpu opts st)) = map of_char (start_banner opts)
      @ concat (map (\<lambda>i. uart_byte (shows_at cpu model i)) [1..<Suc n])
      @ map of_char (concat (map show_line (final_report cpu st)) @ result_line st)"
    "log_file (finish_sim cpu (timeout_event cpu opts st)) = console (finish_sim cpu (timeout_event cpu opts st))"
    using assms by (simp_all add: finish_sim_def tracks_def)
qed

text \<open>
  C21: what the simulation prints. It always ends, after some number of cycles within the
  limit, because of the limit, of \<^verbatim>\<open>$finish\<close> or of \<^verbatim>\<open>tohost\<close>. Console and log file then hold the same
  bytes: the banner, the bytes the processor sent to the UART in these cycles, in order and without
  carriage returns, the report on the final state and the line with the result. The number of
  retired instructions in the report is the sum over the cycles (modulo \<open>2^64\<close>), and the last line
  says \<^verbatim>\<open>SUCCESS\<close> exactly when the exit code is 0.
\<close>

theorem sim_output:
  assumes "files_open getenv can_open args"
  shows "\<exists>code n st. sim_main cpu model getenv can_open args = (code, Inr st) \<and> unat (cycle_count st) = n
     \<and> n \<le> unat (get_max_cycles getenv args)
     \<and> (n = unat (get_max_cycles getenv args) \<or> finished_at cpu model n \<or> tohost_at cpu model n \<noteq> 0)
     \<and> console st = map of_char (start_banner (sim_opts getenv args))
         @ concat (map (\<lambda>i. uart_byte (shows_at cpu model i)) [1..<Suc n])
         @ map of_char (concat (map show_line (final_report cpu st)) @ result_line st)
     \<and> log_file st = console st
     \<and> retired_instructions (events st) = sum_list (map (\<lambda>i. shows_at cpu model i ''dbg_retireCount'') [1..<Suc n])
     \<and> (result_line st = ''***** simulation result: SUCCESS *****'' @ [LF] \<longleftrightarrow> code = 0)"
proof -
  let ?st = "loop_result cpu model getenv args" and ?o = "sim_opts getenv args"
  obtain n where e: "ends_at cpu ?o model n ?st" using loop_result_ends [of cpu getenv args model] by (rule exE)
  then have t: "tracks cpu ?o model n ?st" by (simp add: ends_at_def)
  let ?f = "finish_sim cpu (timeout_event cpu ?o ?st)"
  have same: "final_report cpu ?f = final_report cpu ?st" "result_line ?f = result_line ?st"
    by (simp_all add: final_report_def result_line_def)
  have code: "result_line ?st = ''***** simulation result: SUCCESS *****'' @ [LF] \<longleftrightarrow> exit_code ?st = 0"
    by (simp add: result_line_def exit_code_def)
  have ret: "retired_instructions (events ?st) = sum_list (map (\<lambda>i. shows_at cpu model i ''dbg_retireCount'') [1..<Suc n])"
    using t by (simp add: tracks_def retired_fold) (simp add: no_events_def)
  have stop: "n \<le> unat (get_max_cycles getenv args)"
    "n = unat (get_max_cycles getenv args) \<or> finished_at cpu model n \<or> tohost_at cpu model n \<noteq> 0"
    using e by (auto simp: ends_at_def split: if_splits)
  have n: "unat (cycle_count ?st) = n" using t by (simp add: tracks_def)
  show ?thesis
    unfolding sim_main_eq(1) [OF assms]
    using stop code ret n console_finish [OF t] same
    by (intro exI [of _ "exit_code ?st"] exI [of _ n] exI [of _ ?f]) simp
qed

text \<open>A processor that does nothing.\<close>

definition idle_cpu :: "unit verilated" where
  "idle_cpu = \<lparr>set_input = (\<lambda>n v s. s), eval_model = (\<lambda>s. s), signal_of = (\<lambda>s n. 0), got_finish = (\<lambda>s. False)\<rparr>"

lemma idle_run:
  "files_open (\<lambda>_. None) (\<lambda>_. True) args" "finished_at idle_cpu () n = False" "tohost_at idle_cpu () n = 0"
  "shows_at idle_cpu () n = (\<lambda>_. 0)" "uart_byte (\<lambda>_. 0) = []"
  by (simp_all add: files_open_def finished_at_def tohost_at_def shows_at_def uart_byte_def idle_cpu_def u32_def)

lemma idle_cycles:
  assumes "snd (sim_main idle_cpu () (\<lambda>_. None) (\<lambda>_. True) args) = Inr st"
  shows "unat (cycle_count st) = unat (get_max_cycles (\<lambda>_. None) args)"
  using assms sim_main_eq(1) [OF idle_run(1), of idle_cpu "()" args] loop_result_ends [of idle_cpu "\<lambda>_. None" args "()"]
  by (auto simp: ends_at_def tracks_def idle_run split: if_splits)

theorem sim_output_witness:
  "\<exists>st text. sim_main idle_cpu () (\<lambda>_. None) (\<lambda>_. True) [''+max-cycles=3''] = (1, Inr st) \<and> cycle_count st = 3
     \<and> console st = map of_char (''***** Verilator simulation started *****'' @ [LF] @
          ''max_cycles=3 trace=off pipe_dump=build/traces/topCPU_tb_output.txt'' @ [LF] @ text) \<and> log_file st = console st"
proof -
  have m: "get_max_cycles (\<lambda>_. None) [''+max-cycles=3''] = 3" by code_simp
  have b: "start_banner (sim_opts (\<lambda>_. None) [''+max-cycles=3'']) = ''***** Verilator simulation started *****'' @ [LF] @
          ''max_cycles=3 trace=off pipe_dump=build/traces/topCPU_tb_output.txt'' @ [LF]" by code_simp
  have z: "fst (sim_main idle_cpu () (\<lambda>_. None) (\<lambda>_. True) [''+max-cycles=3'']) = 1"
  proof -
    have "\<not> signals_first idle_cpu () n kTohostPassValue" for n by (simp add: signals_first_def idle_run kTohostPassValue_def)
    with sim_main_eq(1) [OF idle_run(1), of idle_cpu "()"] loop_result_ends [of idle_cpu "\<lambda>_. None" "[''+max-cycles=3'']" "()"]
    show ?thesis by (auto simp: exit_code_def ends_at_def idle_run)
  qed
  from sim_output [OF idle_run(1), of idle_cpu "()" "[''+max-cycles=3'']"] obtain code st where
    st: "sim_main idle_cpu () (\<lambda>_. None) (\<lambda>_. True) [''+max-cycles=3''] = (code, Inr st)" "unat (cycle_count st) = 3"
    "console st = map of_char (''***** Verilator simulation started *****'' @ [LF] @
          ''max_cycles=3 trace=off pipe_dump=build/traces/topCPU_tb_output.txt'' @ [LF]) @
          map of_char (concat (map show_line (final_report idle_cpu st)) @ result_line st)" "log_file st = console st"
    unfolding m b idle_run by (auto simp: map_replicate_const)
  have "cycle_count st = 3" using st(2) by (metis of_nat_numeral of_nat_unat ucast_id)
  with st z show ?thesis
    by (intro exI [of _ st] exI [of _ "concat (map show_line (final_report idle_cpu st)) @ result_line st"]) simp
qed



end
