(* ===== verification/HostPort.thy ===== *)
theory HostPort
  imports SimMain Portme
begin

text \<open>
  How programs meet the simulator. A program prints by stores to the address of the UART and ends by
  a store to \<^verbatim>\<open>tohost\<close>; the processor shows these stores at its ports, where the simulation driver sees
  them. The two addresses differ between the builds of the repository, so that what follows from
  them is a locale, interpreted for the benchmark here and for the compliance tests with them.
\<close>

section \<open>Stores at the ports\<close>

text \<open>The stores to \<open>ua\<close>, the UART, and to \<open>ta\<close>, \<^verbatim>\<open>tohost\<close>, that the processor shows in a cycle.\<close>

definition bus_writes :: "addr \<Rightarrow> addr \<Rightarrow> signals \<Rightarrow> mmio_trace" where
  "bus_writes ua ta s = (if s ''uartValid_o'' \<noteq> 0 then [(ua, ucast (s ''uartData_o''))] else []) @
     (if u32 (s ''toHost_o'') \<noteq> 0 then [(ta, u32 (s ''toHost_o''))] else [])"

text \<open>The processor makes the stores of a program in its first \<open>n\<close> cycles, the last one in cycle \<open>n\<close>;
  its UART port has 8 bits.\<close>

definition performs :: "addr \<Rightarrow> addr \<Rightarrow> 'd verilated \<Rightarrow> 'd \<Rightarrow> nat \<Rightarrow> mmio_trace \<Rightarrow> bool" where
  "performs ua ta cpu model n tr \<longleftrightarrow> concat (map (\<lambda>i. bus_writes ua ta (shows_at cpu model i)) [1..<Suc n]) = tr
     \<and> 0 < n \<and> bus_writes ua ta (shows_at cpu model n) \<noteq> [] \<and> (\<forall>i. shows_at cpu model i ''uartData_o'' < 256)
     \<and> (\<forall>j < n. \<not> finished_at cpu model j)"

text \<open>The text a sequence of stores to the UART stands for.\<close>

definition printed :: "addr \<Rightarrow> mmio_trace \<Rightarrow> ee_u8 list" where
  "printed ua tr = filter (\<lambda>b. b \<noteq> of_char CR) (map (\<lambda>w. ucast (snd w)) (filter (\<lambda>w. fst w = ua) tr))"

text \<open>A program that prints and then signals \<open>v\<close>.\<close>

definition prints_then_signals :: "addr \<Rightarrow> addr \<Rightarrow> mmio_trace \<Rightarrow> 32 word \<Rightarrow> mmio_trace \<Rightarrow> bool" where
  "prints_then_signals ua ta text v tr \<longleftrightarrow> tr = text @ [(ta, v)] \<and> (\<forall>w \<in> set text. fst w = ua \<and> snd w < 256)"

lemma printed_simps [simp]:
  "printed ua [] = []" "printed ua (a @ b) = printed ua a @ printed ua b"
  by (simp_all add: printed_def)

lemma printed_concat: "printed ua (concat xss) = concat (map (printed ua) xss)"
  by (induction xss) simp_all

lemma byte_is_CR:
  assumes "d < (256 :: 64 word)"
  shows "(ucast d :: 8 word) = of_char CR \<longleftrightarrow> d = of_char CR"
proof -
  have u: "unat (ucast d :: 8 word) = unat d"
    using assms by (simp add: word_less_nat_alt unsigned_ucast_eq take_bit_nat_eq_self)
  then show ?thesis unfolding word_unat_eq_iff u by simp
qed

section \<open>The console of a program\<close>

locale host_port =
  fixes ua ta :: addr
  assumes ports_differ: "ua \<noteq> ta"
begin

lemma printed_bus: "s ''uartData_o'' < 256 \<Longrightarrow> printed ua (bus_writes ua ta s) = uart_byte s"
proof -
  assume "s ''uartData_o'' < 256"
  note byte_is_CR [OF this]
  moreover have "(ucast (ucast (s ''uartData_o'') :: 32 word) :: 8 word) = ucast (s ''uartData_o'')"
    by (rule bit_word_eqI) (auto simp: bit_simps)
  ultimately show ?thesis using ports_differ by (auto simp: printed_def bus_writes_def uart_byte_def)
qed

lemma bus_tohost: "(ta, v) \<in> set (bus_writes ua ta s) \<longleftrightarrow> u32 (s ''toHost_o'') = v \<and> v \<noteq> 0"
  using ports_differ by (auto simp: bus_writes_def)

lemma performs_signals:
  assumes "performs ua ta cpu model n tr" "prints_then_signals ua ta text v tr"
  shows "signals_first cpu model n v" "concat (map (\<lambda>i. uart_byte (shows_at cpu model i)) [1..<Suc n]) = printed ua text"
proof -
  let ?w = "\<lambda>i. bus_writes ua ta (shows_at cpu model i)"
  from assms have p: "concat (map ?w [1..<Suc n]) = text @ [(ta, v)]" "0 < n" "?w n \<noteq> []"
    "\<forall>i. shows_at cpu model i ''uartData_o'' < 256" "\<forall>j < n. \<not> finished_at cpu model j"
    by (auto simp: performs_def prints_then_signals_def)
  have split: "concat (map ?w [1..<n]) @ ?w n = text @ [(ta, v)]" using p(1,2) by simp
  obtain a where a: "?w n = a @ [(ta, v)]" using split p(3) by (metis append_butlast_last_id last_appendR last_snoc)
  then have before: "text = concat (map ?w [1..<n]) @ a" using split by simp
  have "tohost_at cpu model n = v \<and> v \<noteq> 0" using bus_tohost [of v "shows_at cpu model n"] a by (simp add: tohost_at_def)
  moreover have "tohost_at cpu model j = 0" if j: "0 < j" "j < n" for j
  proof (rule ccontr)
    assume "tohost_at cpu model j \<noteq> 0"
    then have "(ta, tohost_at cpu model j) \<in> set (?w j)" by (simp add: bus_tohost tohost_at_def)
    then have "(ta, tohost_at cpu model j) \<in> set text" using j by (auto simp: before)
    then show False using assms(2) ports_differ by (auto simp: prints_then_signals_def)
  qed
  ultimately show "signals_first cpu model n v" using p(2,5) by (simp add: signals_first_def)
  have "concat (map (\<lambda>i. uart_byte (shows_at cpu model i)) [1..<Suc n]) = printed ua (concat (map ?w [1..<Suc n]))"
    using p(4) by (simp add: printed_concat comp_def printed_bus)
  also have "\<dots> = printed ua text" unfolding p(1) using ports_differ by (simp add: printed_def)
  finally show "concat (map (\<lambda>i. uart_byte (shows_at cpu model i)) [1..<Suc n]) = printed ua text" .
qed

text \<open>What the simulation makes of the program.\<close>

lemma simulated:
  assumes "performs ua ta cpu model n tr" "prints_then_signals ua ta text v tr" "files_open getenv can_open args"
    "n \<le> unat (get_max_cycles getenv args)"
  shows "\<exists>st. sim_main cpu model getenv can_open args = (if v = kTohostPassValue then 0 else 1, Inr st)
     \<and> unat (cycle_count st) = n \<and> tohost st = v \<and> \<not> timed_out st
     \<and> console st = map of_char (start_banner (sim_opts getenv args)) @ printed ua text
         @ map of_char (concat (map show_line (final_report cpu st)) @ result_line st)"
proof -
  note sig = performs_signals [OF assms(1,2)]
  let ?st = "loop_result cpu model getenv args" and ?o = "sim_opts getenv args"
  obtain k where e: "ends_at cpu ?o model k ?st" using loop_result_ends [of cpu getenv args model] by (rule exE)
  have k: "k = n" "tohost ?st = v" "\<not> timed_out ?st"
    using ends_at_signal [OF e, unfolded sim_opts_simps] sig(1) assms(4) by blast+
  have t: "tracks cpu ?o model n ?st" using e k(1) by (simp add: ends_at_def)
  have "exit_code ?st = (if v = kTohostPassValue then 0 else 1)" using k by (simp add: exit_code_def)
  moreover have "unat (cycle_count ?st) = n" using t by (simp add: tracks_def)
  moreover have "final_report cpu (timeout_event cpu ?o ?st) = final_report cpu ?st" "result_line (timeout_event cpu ?o ?st) = result_line ?st"
    by (simp_all add: final_report_def result_line_def)
  ultimately show ?thesis
    unfolding sim_main_eq(1) [OF assms(3)] using console_finish(1) [OF t] sig(2) k
    by (intro exI [of _ "finish_sim cpu (timeout_event cpu ?o ?st)"]) simp
qed

text \<open>Out of time.\<close>

lemma simulated_late:
  assumes "performs ua ta cpu model n tr" "prints_then_signals ua ta text v tr" "unat (get_max_cycles getenv args) < n"
  shows "fst (sim_main cpu model getenv can_open args) = 1"
proof -
  note sig = performs_signals(1) [OF assms(1,2)]
  have "\<not> signals_first cpu model k w" if "k \<le> unat (get_max_cycles getenv args)" for k w
    using signals_first_unique [OF sig, of k w] that assms(3) by auto
  then show ?thesis by (auto simp: sim_main_exit)
qed

end

interpretation benchmark_port: host_port UART_TX_ADDR TOHOST_ADDR
  by unfold_locales (simp add: UART_TX_ADDR_def TOHOST_ADDR_def)

section \<open>A processor that replays a program\<close>

text \<open>It makes one given store after the other, one in each cycle.\<close>

definition replay :: "addr \<Rightarrow> addr \<Rightarrow> mmio_trace \<Rightarrow> (bool \<times> nat) verilated" where
  "replay ua ta tr = \<lparr>set_input = (\<lambda>n v s. if n = ''clk'' then (v \<noteq> 0, snd s) else s),
     eval_model = (\<lambda>s. if fst s then (False, snd s + 1) else s),
     signal_of = (\<lambda>s n. let i = snd s - 3 in
        if i < length tr then
          (if n = ''uartValid_o'' then of_bool (fst (tr ! i) = ua)
           else if n = ''uartData_o'' then take_bit 8 (ucast (snd (tr ! i)))
           else if n = ''toHost_o'' then (if fst (tr ! i) = ta then ucast (snd (tr ! i)) else 0) else 0)
        else 0),
     got_finish = (\<lambda>s. False)\<rparr>"

lemma replay_at: "fst (at_cycle (replay ua ta tr) (False, 0) k) = (False, k + 2)"
proof (induction k)
  case 0
  show ?case by (simp add: at_cycle_def reset_cpu_def eval_cycle_def eval_half_cycle_def dump_trace_def replay_def)
next
  case (Suc k)
  then obtain t where "at_cycle (replay ua ta tr) (False, 0) k = ((False, k + 2), t)" by (metis prod.collapse)
  then have "clocked ((False, k + 2), t, []) = at_cycle (replay ua ta tr) (False, 0) k" by (simp add: clocked_def)
  from at_cycle_clocked(2) [OF this, of False, symmetric] show ?case
    by (simp add: clocked_def eval_cycle_def eval_half_cycle_def dump_trace_def replay_def)
qed

lemma replay_byte: "signal_of (replay ua ta tr) s ''uartData_o'' < 256"
proof -
  have "unat (take_bit 8 w :: 64 word) < 256" for w
    using take_bit_nat_less_exp [of 8 "unat w"] by (simp add: unsigned_take_bit_eq)
  then show ?thesis by (simp add: replay_def Let_def word_less_nat_alt)
qed

lemma ucast_byte: "v < (256 :: 32 word) \<Longrightarrow> ucast (take_bit 8 (ucast v :: 64 word)) = v"
proof -
  assume "v < 256"
  then have "take_bit 8 v = v" by (simp add: word_unat_eq_iff word_less_nat_alt unsigned_take_bit_eq take_bit_nat_eq_self)
  moreover have "(ucast (take_bit 8 (ucast v :: 64 word)) :: 32 word) = take_bit 8 v" by (rule bit_word_eqI) (auto simp: bit_simps)
  ultimately show ?thesis by simp
qed

lemma replay_signals:
  assumes "i < length tr"
  shows "signal_of (replay ua ta tr) (False, i + 3) ''uartValid_o'' = of_bool (fst (tr ! i) = ua)"
    "signal_of (replay ua ta tr) (False, i + 3) ''uartData_o'' = take_bit 8 (ucast (snd (tr ! i)))"
    "signal_of (replay ua ta tr) (False, i + 3) ''toHost_o'' = (if fst (tr ! i) = ta then ucast (snd (tr ! i)) else 0)"
  using assms by (simp_all add: replay_def Let_def)

lemma replay_performs:
  assumes "prints_then_signals ua ta text v tr" "v \<noteq> 0" "ua \<noteq> ta"
  shows "performs ua ta (replay ua ta tr) (False, 0) (length tr) tr"
proof -
  have s: "shows_at (replay ua ta tr) (False, 0) i = signal_of (replay ua ta tr) (False, i + 2)" for i
    by (simp add: shows_at_def replay_at)
  have w: "bus_writes ua ta (shows_at (replay ua ta tr) (False, 0) (Suc i)) = [tr ! i]" if "i < length tr" for i
  proof -
    have i: "Suc i + 2 = i + 3" by simp
    note b = bus_writes_def [of ua ta] s [of "Suc i", unfolded i] replay_signals [OF that] u32_def
    have "tr ! i \<in> set tr" using that by simp
    then have "fst (tr ! i) = ua \<and> snd (tr ! i) < 256 \<or> tr ! i = (ta, v)" using assms(1) by (auto simp: prints_then_signals_def)
    then show ?thesis
    proof (elim disjE conjE)
      assume a: "fst (tr ! i) = ua" "snd (tr ! i) < 256"
      then have "tr ! i = (ua, snd (tr ! i))" by (simp add: prod_eq_iff)
      with a assms(3) that show ?thesis by (simp add: b ucast_byte)
    next
      assume "tr ! i = (ta, v)"
      moreover have "(ucast (ucast v :: 64 word) :: 32 word) = v" by (rule bit_word_eqI) (auto simp: bit_simps)
      ultimately show ?thesis using assms(2,3) that by (simp add: b)
    qed
  qed
  have ne: "0 < length tr" using assms(1) by (simp add: prints_then_signals_def)
  have "concat (map (\<lambda>i. bus_writes ua ta (shows_at (replay ua ta tr) (False, 0) i)) [1..<Suc (length tr)])
      = concat (map (\<lambda>i. [tr ! i]) [0..<length tr])"
    unfolding One_nat_def map_Suc_upt [symmetric] map_map comp_def using w by (intro arg_cong [where f = concat] map_cong) auto
  also have "\<dots> = tr" by (simp add: map_nth)
  finally have c: "concat (map (\<lambda>i. bus_writes ua ta (shows_at (replay ua ta tr) (False, 0) i)) [1..<Suc (length tr)]) = tr" .
  have "bus_writes ua ta (shows_at (replay ua ta tr) (False, 0) (length tr)) \<noteq> []" using w [of "length tr - 1"] ne by simp
  moreover have "shows_at (replay ua ta tr) (False, 0) i ''uartData_o'' < 256" for i unfolding s by (rule replay_byte)
  moreover have "\<not> finished_at (replay ua ta tr) (False, 0) i" for i by (simp add: finished_at_def) (simp add: replay_def)
  ultimately show ?thesis using ne c by (simp only: performs_def) blast
qed

end
