(* ===== verification/RvModel.thy ===== *)
theory RvModel
  imports Uart
begin

text \<open>
  The macros of \<^verbatim>\<open>compliance/act4/rvmodel_macros.h\<close>, with which an architectural test prints and
  ends. They are assembler text; the model has the instructions they use, the numbered local
  labels of the assembler, and a step relation. Every store is recorded, since the memory-mapped
  UART and \<^verbatim>\<open>tohost\<close> see it.

  The lemmas show that the printing macro ends and sends exactly the string, and that the two
  macros for the end make one store and then stay in their loop.
\<close>

section \<open>Instructions\<close>

type_synonym reg = "5 word"

text \<open>A reference \<^verbatim>\<open>1b\<close> or \<^verbatim>\<open>3f\<close> to the next label of this number backwards or forwards.\<close>

datatype label_ref = Back nat | Fwd nat

datatype instr =
    Lbl nat
  | LI reg "32 word"
  | LBU reg "32 word" reg
  | SB reg "32 word" reg
  | SW reg "32 word" reg
  | ADDI reg reg "32 word"
  | BEQZ reg label_ref
  | J label_ref

fun position :: "instr list \<Rightarrow> nat \<Rightarrow> label_ref \<Rightarrow> nat option" where
  "position P i (Back n) = find (\<lambda>j. P ! j = Lbl n) (rev [0..<Suc i])"
| "position P i (Fwd n) = find (\<lambda>j. P ! j = Lbl n) [Suc i..<length P]"

record machine =
  pc :: nat
  regs :: "reg \<Rightarrow> 32 word"
  ram :: "addr \<Rightarrow> 8 word"
  stores :: mmio_trace

text \<open>Register 0 is constant.\<close>

definition set_reg :: "reg \<Rightarrow> 32 word \<Rightarrow> machine \<Rightarrow> machine" where
  "set_reg r v s = (if r = 0 then s else s\<lparr>regs := (regs s)(r := v)\<rparr>)"

definition goto :: "nat \<Rightarrow> machine \<Rightarrow> machine" where
  "goto i s = s\<lparr>pc := i\<rparr>"

definition store8 :: "addr \<Rightarrow> 32 word \<Rightarrow> machine \<Rightarrow> machine" where
  "store8 a v s = s\<lparr>ram := (ram s)(a := ucast v), stores := stores s @ [(a, v AND 0xff)]\<rparr>"

definition store32 :: "addr \<Rightarrow> 32 word \<Rightarrow> machine \<Rightarrow> machine" where
  "store32 a v s = s\<lparr>ram := (ram s)(a := ucast v, a + 1 := ucast (drop_bit 8 v), a + 2 := ucast (drop_bit 16 v), a + 3 := ucast (drop_bit 24 v)),
     stores := stores s @ [(a, v)]\<rparr>"

fun exec_instr :: "instr list \<Rightarrow> instr \<Rightarrow> machine \<Rightarrow> machine option" where
  "exec_instr P (Lbl n) s = Some (goto (Suc (pc s)) s)"
| "exec_instr P (LI r v) s = Some (goto (Suc (pc s)) (set_reg r v s))"
| "exec_instr P (LBU r off b) s = Some (goto (Suc (pc s)) (set_reg r (ucast (ram s (regs s b + off))) s))"
| "exec_instr P (SB r off b) s = Some (goto (Suc (pc s)) (store8 (regs s b + off) (regs s r) s))"
| "exec_instr P (SW r off b) s = Some (goto (Suc (pc s)) (store32 (regs s b + off) (regs s r) s))"
| "exec_instr P (ADDI r a v) s = Some (goto (Suc (pc s)) (set_reg r (regs s a + v) s))"
| "exec_instr P (BEQZ r l) s =
     (if regs s r = 0 then map_option (\<lambda>i. goto i s) (position P (pc s) l) else Some (goto (Suc (pc s)) s))"
| "exec_instr P (J l) s = map_option (\<lambda>i. goto i s) (position P (pc s) l)"

inductive step :: "instr list \<Rightarrow> machine \<Rightarrow> machine \<Rightarrow> bool" for P where
  "pc s < length P \<Longrightarrow> exec_instr P (P ! pc s) s = Some s' \<Longrightarrow> step P s s'"

inductive_cases stepE: "step P s s'"
inductive_simps step_iff: "step P s s'"

inductive steps :: "instr list \<Rightarrow> machine \<Rightarrow> machine \<Rightarrow> bool" for P where
  refl: "steps P s s"
| step: "steps P s t \<Longrightarrow> step P t u \<Longrightarrow> steps P s u"

section \<open>Macros\<close>

definition reg_t0 :: reg where "reg_t0 = 5"
definition reg_t1 :: reg where "reg_t1 = 6"

definition ACT4_TOHOST :: addr where "ACT4_TOHOST = 0x000ffff8"
definition ACT4_UART :: addr where "ACT4_UART = 0x000fffe0"

definition RVMODEL_HALT_PASS :: "instr list" where
  "RVMODEL_HALT_PASS = [LI reg_t0 ACT4_TOHOST, LI reg_t1 1, SW reg_t1 0 reg_t0, Lbl 1, J (Back 1)]"

definition RVMODEL_HALT_FAIL :: "instr list" where
  "RVMODEL_HALT_FAIL = [LI reg_t0 ACT4_TOHOST, LI reg_t1 3, SW reg_t1 0 reg_t0, Lbl 1, J (Back 1)]"

definition RVMODEL_IO_WRITE_STR :: "reg \<Rightarrow> reg \<Rightarrow> reg \<Rightarrow> reg \<Rightarrow> instr list" where
  "RVMODEL_IO_WRITE_STR R1 R2 R3 STR_PTR =
     [Lbl 1, LBU R1 0 STR_PTR, BEQZ R1 (Fwd 3), LI R2 ACT4_UART, SB R1 0 R2, ADDI STR_PTR STR_PTR 1, J (Back 1), Lbl 3]"

section \<open>Code inside a program\<close>

lemma steps_trans: "steps P t u \<Longrightarrow> steps P s t \<Longrightarrow> steps P s u"
  by (induction rule: steps.induct) (auto intro: steps.step)

lemma step_deterministic: "step P s t \<Longrightarrow> step P s u \<Longrightarrow> t = u"
  by (auto simp: step_iff)

text \<open>The code \<open>Q\<close> starts at position \<open>k\<close> of the program.\<close>

definition code_at :: "instr list \<Rightarrow> nat \<Rightarrow> instr list \<Rightarrow> bool" where
  "code_at P k Q \<longleftrightarrow> take (length Q) (drop k P) = Q \<and> k \<le> length P"

lemma code_at_append: "code_at (pre @ Q @ post) (length pre) Q"
  by (simp add: code_at_def)

lemma code_at_nth: "code_at P k Q \<Longrightarrow> i < length Q \<Longrightarrow> P ! (k + i) = Q ! i \<and> k + i < length P"
proof -
  assume a: "code_at P k Q" "i < length Q"
  then have "length Q \<le> length P - k" by (metis code_at_def length_drop length_take min.absorb_iff2 min.commute)
  then show ?thesis using a by (metis code_at_def add.commute less_diff_conv nth_drop nth_take order_less_le_trans)
qed

lemma step_at:
  assumes "code_at P k Q" "i < length Q" "pc s = k + i" "exec_instr P (Q ! i) s = Some s'"
  shows "step P s s'"
  using code_at_nth [OF assms(1,2)] assms(3,4) by (simp add: step_iff)

lemma find_append_Some: "find p xs = Some y \<Longrightarrow> find p (xs @ ys) = Some y"
  by (induction xs) (auto split: if_splits)

lemma find_shifted:
  assumes "code_at P k Q" "\<forall>x \<in> set xs. x < length Q"
  shows "find (\<lambda>j. P ! j = Lbl n) (map ((+) k) xs) = map_option ((+) k) (find (\<lambda>j. Q ! j = Lbl n) xs)"
  using assms(2)
proof (induction xs)
  case (Cons x xs)
  then show ?case using code_at_nth [OF assms(1), of x] by auto
qed simp

lemma upt_shift: "[k + a..<k + b] = map ((+) k) [a..<b]"
  by (rule nth_equalityI) simp_all

lemma position_back:
  assumes "code_at P k Q" "i < length Q" "position Q i (Back n) = Some j"
  shows "position P (k + i) (Back n) = Some (k + j)"
proof -
  have "[0..<Suc (k + i)] = [0..<k] @ map ((+) k) [0..<Suc i]"
    using upt_add_eq_append [of 0 k "Suc i"] upt_shift [of k 0 "Suc i"] by simp
  moreover have "find (\<lambda>j. P ! j = Lbl n) (map ((+) k) (rev [0..<Suc i])) = Some (k + j)"
    using assms find_shifted [OF assms(1), of "rev [0..<Suc i]" n] by auto
  ultimately show ?thesis by (simp add: rev_map find_append_Some del: upt_Suc)
qed

lemma code_at_length: "code_at P k Q \<Longrightarrow> Q \<noteq> [] \<Longrightarrow> k + length Q \<le> length P"
  using code_at_nth [of P k Q "length Q - 1"] by (cases Q) auto

lemma position_fwd:
  assumes "code_at P k Q" "i < length Q" "position Q i (Fwd n) = Some j"
  shows "position P (k + i) (Fwd n) = Some (k + j)"
proof -
  have "k + length Q \<le> length P" using code_at_length [OF assms(1)] assms(2) by (cases "Q = []") simp_all
  then have "[Suc (k + i)..<length P] = map ((+) k) [Suc i..<length Q] @ [k + length Q..<length P]"
    using upt_add_eq_append [of "Suc (k + i)" "k + length Q" "length P - (k + length Q)"] upt_shift [of k "Suc i" "length Q"] assms(2) by simp
  moreover have "find (\<lambda>j. P ! j = Lbl n) (map ((+) k) [Suc i..<length Q]) = Some (k + j)"
    using assms find_shifted [OF assms(1), of "[Suc i..<length Q]" n] by auto
  ultimately show ?thesis by (simp add: find_append_Some del: upt_Suc)
qed

section \<open>Printing\<close>

text \<open>A string in memory that ends with a zero byte and does not lie over the UART.\<close>

fun cstring_at :: "(addr \<Rightarrow> 8 word) \<Rightarrow> addr \<Rightarrow> 8 word list \<Rightarrow> bool" where
  "cstring_at m a [] \<longleftrightarrow> m a = 0 \<and> a \<noteq> ACT4_UART"
| "cstring_at m a (b # bs) \<longleftrightarrow> m a = b \<and> b \<noteq> 0 \<and> a \<noteq> ACT4_UART \<and> cstring_at m (a + 1) bs"

lemma cstring_at_upd: "cstring_at m a bs \<Longrightarrow> cstring_at (m(ACT4_UART := v)) a bs"
  by (induction m a bs rule: cstring_at.induct) auto

lemma machine_simps [simp]:
  "pc (goto i s) = i" "regs (goto i s) = regs s" "ram (goto i s) = ram s" "stores (goto i s) = stores s"
  "pc (set_reg r v s) = pc s" "ram (set_reg r v s) = ram s" "stores (set_reg r v s) = stores s"
  "r \<noteq> 0 \<Longrightarrow> regs (set_reg r v s) = (regs s)(r := v)"
  "pc (store8 a v s) = pc s" "regs (store8 a v s) = regs s" "pc (store32 a v s) = pc s" "regs (store32 a v s) = regs s"
  "ram (store8 a v s) = (ram s)(a := ucast v)" "stores (store8 a v s) = stores s @ [(a, v AND 0xff)]"
  "stores (store32 a v s) = stores s @ [(a, v)]"
  by (simp_all add: goto_def set_reg_def store8_def store32_def)

lemma byte_word: "ucast (b :: 8 word) AND 0xff = (ucast b :: 32 word)" "ucast (ucast b :: 32 word) = b"
  "(ucast b :: 32 word) = 0 \<longleftrightarrow> b = 0"
proof -
  have m: "(0xff :: 32 word) = mask 8" by (simp add: mask_eq_exp_minus_1)
  show "ucast b AND 0xff = (ucast b :: 32 word)" unfolding m
    by (rule bit_word_eqI) (auto simp: bit_simps dest: bit_imp_le_length simp del: mask_numeral)
  show u: "ucast (ucast b :: 32 word) = b" by (rule bit_word_eqI) (auto simp: bit_simps)
  show "(ucast b :: 32 word) = 0 \<longleftrightarrow> b = 0" using u by (metis ucast_0)
qed

text \<open>One pass of the loop.\<close>

lemma write_str_pass:
  assumes "code_at P k (RVMODEL_IO_WRITE_STR R1 R2 R3 p)" "distinct [0, R1, R2, p]" "pc s = k" "ram s (regs s p) \<noteq> 0"
  shows "\<exists>s'. steps P s s' \<and> pc s' = k \<and> stores s' = stores s @ [(ACT4_UART, ucast (ram s (regs s p)))]
     \<and> ram s' = (ram s)(ACT4_UART := ram s (regs s p)) \<and> regs s' p = regs s p + 1 \<and> (\<forall>r. r \<notin> {R1, R2, p} \<longrightarrow> regs s' r = regs s r)"
proof -
  let ?Q = "RVMODEL_IO_WRITE_STR R1 R2 R3 p"
  note at = step_at [OF assms(1)]
  have r: "R1 \<noteq> 0" "R2 \<noteq> 0" "p \<noteq> 0" "R1 \<noteq> R2" "R1 \<noteq> p" "R2 \<noteq> p" using assms(2) by auto
  let ?b = "ram s (regs s p)"
  let ?s1 = "goto (Suc (pc s)) s" let ?s2 = "goto (k + 2) (set_reg R1 (ucast ?b) ?s1)" let ?s3 = "goto (k + 3) ?s2"
  let ?s4 = "goto (k + 4) (set_reg R2 ACT4_UART ?s3)" let ?s5 = "goto (k + 5) (store8 ACT4_UART (ucast ?b) ?s4)"
  let ?s6 = "goto (k + 6) (set_reg p (regs s p + 1) ?s5)" let ?s7 = "goto k ?s6"
  have b: "position P (k + 6) (Back 1) = Some (k + 0)"
    by (rule position_back [OF assms(1)]) (simp_all add: RVMODEL_IO_WRITE_STR_def upt_rec)
  have "step P s ?s1" by (rule at [of 0]) (simp_all add: RVMODEL_IO_WRITE_STR_def assms(3))
  moreover have "step P ?s1 ?s2" by (rule at [of 1]) (simp_all add: RVMODEL_IO_WRITE_STR_def assms(3))
  moreover have "step P ?s2 ?s3" using r assms(4) by (intro at [of 2]) (simp_all add: RVMODEL_IO_WRITE_STR_def byte_word)
  moreover have "step P ?s3 ?s4" by (rule at [of 3]) (simp_all add: RVMODEL_IO_WRITE_STR_def)
  moreover have "step P ?s4 ?s5" using r by (intro at [of 4]) (simp_all add: RVMODEL_IO_WRITE_STR_def)
  moreover have "step P ?s5 ?s6" using r by (intro at [of 5]) (simp_all add: RVMODEL_IO_WRITE_STR_def)
  moreover have "step P ?s6 ?s7" using b by (intro at [of 6]) (simp_all add: RVMODEL_IO_WRITE_STR_def)
  ultimately have "steps P s ?s7" by (meson steps.intros)
  then show ?thesis using r by (intro exI [of _ ?s7]) (simp add: byte_word)
qed

lemma write_str_end:
  assumes "code_at P k (RVMODEL_IO_WRITE_STR R1 R2 R3 p)" "distinct [0, R1, R2, p]" "pc s = k" "ram s (regs s p) = 0"
  shows "\<exists>s'. steps P s s' \<and> pc s' = k + 8 \<and> stores s' = stores s \<and> regs s' p = regs s p \<and> (\<forall>r. r \<notin> {R1, R2, p} \<longrightarrow> regs s' r = regs s r)"
proof -
  note at = step_at [OF assms(1)]
  have r: "R1 \<noteq> 0" "R1 \<noteq> p" using assms(2) by auto
  let ?s1 = "goto (Suc (pc s)) s" let ?s2 = "goto (k + 2) (set_reg R1 0 ?s1)" let ?s3 = "goto (k + 7) ?s2" let ?s4 = "goto (k + 8) ?s3"
  have b: "position P (k + 2) (Fwd 3) = Some (k + 7)"
    by (rule position_fwd [OF assms(1)]) (simp_all add: RVMODEL_IO_WRITE_STR_def upt_rec)
  have "step P s ?s1" by (rule at [of 0]) (simp_all add: RVMODEL_IO_WRITE_STR_def assms(3))
  moreover have "step P ?s1 ?s2" by (rule at [of 1]) (simp_all add: RVMODEL_IO_WRITE_STR_def assms(3,4))
  moreover have "step P ?s2 ?s3" using r b by (intro at [of 2]) (simp_all add: RVMODEL_IO_WRITE_STR_def)
  moreover have "step P ?s3 ?s4" by (rule at [of 7]) (simp_all add: RVMODEL_IO_WRITE_STR_def)
  ultimately have "steps P s ?s4" by (meson steps.intros)
  then show ?thesis using r by (intro exI [of _ ?s4]) simp
qed

lemma write_str_runs:
  assumes "code_at P k (RVMODEL_IO_WRITE_STR R1 R2 R3 p)" "distinct [0, R1, R2, p]" "pc s = k" "cstring_at (ram s) (regs s p) bs"
  shows "\<exists>s'. steps P s s' \<and> pc s' = k + 8 \<and> stores s' = stores s @ map (\<lambda>b. (ACT4_UART, ucast b)) bs
     \<and> regs s' p = regs s p + word_of_nat (length bs) \<and> (\<forall>r. r \<notin> {R1, R2, p} \<longrightarrow> regs s' r = regs s r)"
  using assms(3,4)
proof (induction bs arbitrary: s)
  case Nil
  then show ?case using write_str_end [OF assms(1,2), of s] by simp
next
  case (Cons b bs)
  from write_str_pass [OF assms(1,2) Cons.prems(1)] Cons.prems(2) obtain t where
    t: "steps P s t" "pc t = k" "stores t = stores s @ [(ACT4_UART, ucast b)]" "ram t = (ram s)(ACT4_UART := b)"
    "regs t p = regs s p + 1" "\<forall>r. r \<notin> {R1, R2, p} \<longrightarrow> regs t r = regs s r" by auto
  have "cstring_at (ram t) (regs t p) bs" using Cons.prems(2) t(4,5) by (simp add: cstring_at_upd)
  from Cons.IH [OF t(2) this] obtain u where
    u: "steps P t u" "pc u = k + 8" "stores u = stores t @ map (\<lambda>b. (ACT4_UART, ucast b)) bs"
    "regs u p = regs t p + word_of_nat (length bs)" "\<forall>r. r \<notin> {R1, R2, p} \<longrightarrow> regs u r = regs t r" by blast
  from steps_trans [OF u(1) t(1)] u(2-5) t(3,5,6) show ?case by (intro exI [of _ u]) simp
qed

text \<open>
  C25: \<^verbatim>\<open>RVMODEL_IO_WRITE_STR\<close>, wherever it stands in a program and with any three different
  registers, ends behind its last instruction for every string that ends with a zero byte; it
  has stored exactly the bytes of the string to the UART, in order, leaves the pointer at the zero
  byte, and changes no other register.
\<close>

theorem io_write_str_prints:
  assumes "code_at P k (RVMODEL_IO_WRITE_STR R1 R2 R3 p)" "distinct [0, R1, R2, p]" "pc s = k" "cstring_at (ram s) (regs s p) bs"
  shows "\<exists>s'. steps P s s' \<and> pc s' = k + length (RVMODEL_IO_WRITE_STR R1 R2 R3 p)
     \<and> stores s' = stores s @ map (\<lambda>b. (ACT4_UART, ucast b)) bs
     \<and> regs s' p = regs s p + word_of_nat (length bs) \<and> (\<forall>r. r \<notin> {R1, R2, p} \<longrightarrow> regs s' r = regs s r)"
proof -
  have "length (RVMODEL_IO_WRITE_STR R1 R2 R3 p) = 8" by (simp add: RVMODEL_IO_WRITE_STR_def)
  then show ?thesis using write_str_runs [OF assms] by (simp only:)
qed

definition greeting :: machine where
  "greeting = \<lparr>pc = 0, regs = (\<lambda>r. if r = 10 then 0x200 else 0), ram = (\<lambda>a. if a = 0x200 then 72 else if a = 0x201 then 105 else 0), stores = []\<rparr>"

theorem io_write_str_prints_witness:
  "\<exists>s'. steps (RVMODEL_IO_WRITE_STR 5 6 7 10) greeting s' \<and> pc s' = 8 \<and> stores s' = [(ACT4_UART, 72), (ACT4_UART, 105)]"
proof -
  have "cstring_at (ram greeting) (regs greeting 10) [72, 105]" by (simp add: greeting_def ACT4_UART_def)
  moreover have "code_at (RVMODEL_IO_WRITE_STR 5 6 7 10) 0 (RVMODEL_IO_WRITE_STR 5 6 7 10)" by (simp add: code_at_def)
  moreover have "distinct [0, 5, 6, 10 :: reg]" "pc greeting = 0" by (simp_all add: greeting_def)
  ultimately show ?thesis
    using io_write_str_prints [of "RVMODEL_IO_WRITE_STR 5 6 7 10" 0 5 6 7 10 greeting "[72, 105]"]
    by (auto simp: RVMODEL_IO_WRITE_STR_def greeting_def)
qed

section \<open>The end of a test\<close>

definition halt_code :: "32 word \<Rightarrow> instr list" where
  "halt_code v = [LI reg_t0 ACT4_TOHOST, LI reg_t1 v, SW reg_t1 0 reg_t0, Lbl 1, J (Back 1)]"

lemma halt_loop:
  assumes "code_at P k (halt_code v)" "steps P s u" "pc s \<in> {k + 3, k + 4}"
  shows "pc u \<in> {k + 3, k + 4} \<and> stores u = stores s"
  using assms(2,3)
proof (induction rule: steps.induct)
  case (step s t u)
  then have t: "pc t \<in> {k + 3, k + 4}" "stores t = stores s" by simp_all
  have n: "P ! (k + 3) = Lbl 1" "P ! (k + 4) = J (Back 1)"
    using code_at_nth [OF assms(1), of 3] code_at_nth [OF assms(1), of 4] by (simp_all add: halt_code_def)
  have b: "position P (k + 4) (Back 1) = Some (k + 3)"
    by (rule position_back [OF assms(1)]) (simp_all add: halt_code_def upt_rec)
  from step.hyps(2) t n b show ?case by (auto simp: step_iff)
qed simp

lemma halt_steps:
  assumes "code_at P k (halt_code v)" "pc s = k"
  shows "\<exists>s'. steps P s s' \<and> pc s' = k + 3 \<and> stores s' = stores s @ [(ACT4_TOHOST, v)]"
proof -
  note at = step_at [OF assms(1)]
  let ?s1 = "goto (Suc k) (set_reg reg_t0 ACT4_TOHOST s)" let ?s2 = "goto (k + 2) (set_reg reg_t1 v ?s1)"
  let ?s3 = "goto (k + 3) (store32 ACT4_TOHOST v ?s2)"
  have "step P s ?s1" by (rule at [of 0]) (simp_all add: halt_code_def assms(2))
  moreover have "step P ?s1 ?s2" by (rule at [of 1]) (simp_all add: halt_code_def)
  moreover have "step P ?s2 ?s3" by (rule at [of 2]) (simp_all add: halt_code_def reg_t0_def reg_t1_def)
  ultimately have "steps P s ?s3" by (meson steps.intros)
  then show ?thesis by (intro exI [of _ ?s3]) simp
qed

lemma halt_goes_on:
  assumes "code_at P k (halt_code v)" "pc s \<in> {k + 3, k + 4}"
  shows "\<exists>s'. step P s s'"
proof (cases "pc s = k + 3")
  case True
  then show ?thesis using step_at [OF assms(1), of 3 s "goto (Suc (pc s)) s"] by (auto simp: halt_code_def)
next
  case False
  have "position P (k + 4) (Back 1) = Some (k + 3)"
    by (rule position_back [OF assms(1)]) (simp_all add: halt_code_def upt_rec)
  then show ?thesis using False assms(2) step_at [OF assms(1), of 4 s "goto (k + 3) s"] by (auto simp: halt_code_def)
qed

lemma halt_macros: "RVMODEL_HALT_PASS = halt_code 1" "RVMODEL_HALT_FAIL = halt_code 3"
  by (simp_all add: RVMODEL_HALT_PASS_def RVMODEL_HALT_FAIL_def halt_code_def)

lemma halt_run:
  assumes "code_at P k (halt_code v)" "pc s = k"
  shows "\<exists>s'. steps P s s' \<and> stores s' = stores s @ [(ACT4_TOHOST, v)]
     \<and> (\<forall>u. steps P s' u \<longrightarrow> stores u = stores s' \<and> (\<exists>w. step P u w))"
proof -
  obtain s' where s': "steps P s s'" "pc s' = k + 3" "stores s' = stores s @ [(ACT4_TOHOST, v)]"
    using halt_steps [OF assms] by blast
  have "stores u = stores s' \<and> (\<exists>w. step P u w)" if "steps P s' u" for u
    using halt_loop [OF assms(1) that] s'(2) halt_goes_on [OF assms(1), of u] by simp
  with s' show ?thesis by blast
qed

text \<open>
  \<^verbatim>\<open>RVMODEL_HALT_PASS\<close> stores 1 and \<^verbatim>\<open>RVMODEL_HALT_FAIL\<close> 3 to \<^verbatim>\<open>tohost\<close>; from then on the program
  always has a next step, and never stores anything again.
\<close>

theorem halt_signals_once:
  assumes "code_at P k (if pass then RVMODEL_HALT_PASS else RVMODEL_HALT_FAIL)" "pc s = k"
  shows "\<exists>s'. steps P s s' \<and> stores s' = stores s @ [(ACT4_TOHOST, if pass then 1 else 3)]
     \<and> (\<forall>u. steps P s' u \<longrightarrow> stores u = stores s' \<and> (\<exists>w. step P u w))"
  using halt_run [of P k "if pass then 1 else 3" s] assms by (cases pass) (simp_all add: halt_macros)

theorem halt_signals_once_witness:
  "\<exists>s'. steps RVMODEL_HALT_FAIL greeting s' \<and> stores s' = [(ACT4_TOHOST, 3)] \<and> (\<forall>u. steps RVMODEL_HALT_FAIL s' u \<longrightarrow> stores u = stores s')"
proof -
  have "code_at RVMODEL_HALT_FAIL 0 RVMODEL_HALT_FAIL" "pc greeting = 0" "stores greeting = []" by (simp_all add: code_at_def greeting_def)
  then show ?thesis using halt_signals_once [of RVMODEL_HALT_FAIL 0 False greeting] by auto
qed

end
