(* ===== verification/CbpHarness.thy ===== *)
theory CbpHarness
  imports Verilated ReportLines
begin

text \<open>
  The harness \<^verbatim>\<open>verification/perf/cbp/cbp_rtl_interface.cc\<close> that connects the predictor of the
  processor to a branch prediction simulator: the calls of the simulator as operations on the
  state of the file, a failed assertion or an endless wait as \<^term>\<open>None\<close>.

  The lemmas show invariants of all states the calls can lead to.
\<close>

section \<open>Data\<close>

record PredictionContext =
  rtl_pc :: "32 word"
  meta_slot :: "16 word"
  final_prediction :: bool
  raw_tage_prediction :: bool
  pre_sc_prediction :: bool
  provider_valid :: bool
  loop_used :: bool
  sc_low_confidence :: bool
  actual_known :: bool
  actual_taken :: bool
  next_pc :: "64 word"

text \<open>The variables of the file, with the generated predictor \<^verbatim>\<open>dut\<close>.\<close>

record 'd harness =
  dut :: 'd
  predictions :: "64 word \<rightharpoonup> PredictionContext"
  known_taken_targets :: "64 word \<rightharpoonup> 64 word"
  internal_ticks :: "64 word"
  conditional_predictions :: "64 word"
  final_mispredictions :: "64 word"
  raw_tage_mispredictions :: "64 word"
  pre_sc_mispredictions :: "64 word"
  n_sc_overrides :: "64 word"
  n_sc_corrections :: "64 word"
  n_sc_harms :: "64 word"
  n_loop_overrides :: "64 word"
  n_loop_corrections :: "64 word"
  n_loop_harms :: "64 word"

text \<open>What the simulator tells about an executed instruction; the instruction classes and their
  tests \<^verbatim>\<open>is_br\<close> and \<^verbatim>\<open>is_cond_br\<close> belong to the simulator and are parameters.\<close>

record 'i exec_info =
  insn_class :: 'i
  taken :: "bool option"
  exec_next_pc :: "64 word"
  taken_target :: "64 word option"

record 'i classes =
  is_br :: "'i \<Rightarrow> bool"
  is_cond_br :: "'i \<Rightarrow> bool"

section \<open>Helpers\<close>

definition kMetaSlotMask :: "32 word" where "kMetaSlotMask = 4095"

definition unique_id :: "64 word \<Rightarrow> 8 word \<Rightarrow> 64 word option" where
  "unique_id seq_no piece = (if piece < 16 then Some (push_bit 4 seq_no OR ucast piece) else None)"

definition fold_pc :: "64 word \<Rightarrow> 32 word" where
  "fold_pc pc =
     (let low = (ucast pc :: 32 word); high = (ucast (drop_bit 32 pc) :: 32 word)
      in ((low XOR high) AND NOT 3) OR (low AND 3))"

definition set_dut :: "'d verilated \<Rightarrow> (string \<times> 64 word) list \<Rightarrow> 'd harness \<Rightarrow> 'd harness" where
  "set_dut v ws h = h\<lparr>dut := fold (\<lambda>(n, x). set_input v n x) ws (dut h)\<rparr>"

definition flag :: "bool \<Rightarrow> 64 word" where "flag b = of_bool b"

definition clear_commands :: "'d verilated \<Rightarrow> 'd harness \<Rightarrow> 'd harness" where
  "clear_commands v = set_dut v
     [(''saveMetaValid_i'', 0), (''historyUpdateValid_i'', 0), (''historyConditional_i'', 0), (''historyTaken_i'', 0),
      (''historyBackward_i'', 0), (''commitValid_i'', 0), (''commitConditional_i'', 0), (''commitTaken_i'', 0)]"

definition tick :: "'d verilated \<Rightarrow> 'd harness \<Rightarrow> 'd harness" where
  "tick v h = h\<lparr>dut := eval_model v (set_input v ''clk'' 0 (eval_model v (set_input v ''clk'' 1
                   (eval_model v (set_input v ''clk'' 0 (dut h)))))),
                internal_ticks := internal_ticks h + 1\<rparr>"

definition branch_is_backward :: "64 word \<Rightarrow> bool \<Rightarrow> 64 word \<Rightarrow> 'd harness \<Rightarrow> bool \<times> 'd harness" where
  "branch_is_backward pc tkn nxt h =
     (if tkn then (nxt < pc, h\<lparr>known_taken_targets := (known_taken_targets h)(pc \<mapsto> nxt)\<rparr>)
      else (case known_taken_targets h pc of Some target \<Rightarrow> target < pc | None \<Rightarrow> False, h))"

definition synthetic_target :: "32 word \<Rightarrow> bool \<Rightarrow> 32 word" where
  "synthetic_target pc backward = (if backward then pc - 4 else pc + 4)"

definition out :: "'d verilated \<Rightarrow> 'd harness \<Rightarrow> string \<Rightarrow> bool" where
  "out v h n \<longleftrightarrow> signal_of v (dut h) n \<noteq> 0"

partial_function (option) wait_ready :: "'d verilated \<Rightarrow> 'd harness \<Rightarrow> 'd harness option" where
  "wait_ready v h = (if \<not> out v h ''commitReady_o'' then wait_ready v (tick v h) else Some h)"

declare wait_ready.simps [code]

definition wait_for_commit_port :: "'d verilated \<Rightarrow> 'd harness \<Rightarrow> 'd harness option" where
  "wait_for_commit_port v h = wait_ready v (clear_commands v h)"

section \<open>The interface functions\<close>

definition empty_harness :: "'d \<Rightarrow> 'd harness" where
  "empty_harness d = \<lparr>dut = d, predictions = Map.empty, known_taken_targets = Map.empty, internal_ticks = 0,
     conditional_predictions = 0, final_mispredictions = 0, raw_tage_mispredictions = 0, pre_sc_mispredictions = 0,
     n_sc_overrides = 0, n_sc_corrections = 0, n_sc_harms = 0, n_loop_overrides = 0, n_loop_corrections = 0, n_loop_harms = 0\<rparr>"

definition beginCondDirPredictor :: "'d verilated \<Rightarrow> 'd \<Rightarrow> 'd harness" where
  "beginCondDirPredictor v d =
     (let h = clear_commands v (set_dut v [(''clk'', 0), (''rst'', 0), (''queryPc_i'', 0), (''saveMetaSlot_i'', 0),
                (''commitMetaSlot_i'', 0), (''commitPc_i'', 0), (''commitTarget_i'', 4)] (empty_harness d));
          h = (tick v ^^ 4) h
      in tick v (set_dut v [(''rst'', 1)] h))"

definition saved_context :: "'d verilated \<Rightarrow> 16 word \<Rightarrow> 64 word \<Rightarrow> 'd harness \<Rightarrow> PredictionContext" where
  "saved_context v slot pc h =
     \<lparr>rtl_pc = fold_pc pc, meta_slot = slot, final_prediction = out v h ''prediction_o'',
      raw_tage_prediction = out v h ''rawTagePrediction_o'', pre_sc_prediction = out v h ''preScPrediction_o'',
      provider_valid = out v h ''providerValid_o'', loop_used = out v h ''loopUsed_o'',
      sc_low_confidence = out v h ''scLowConfidence_o'', actual_known = False, actual_taken = False, next_pc = 0\<rparr>"

definition get_cond_dir_prediction ::
  "'d verilated \<Rightarrow> 64 word \<Rightarrow> 8 word \<Rightarrow> 64 word \<Rightarrow> 'd harness \<Rightarrow> (bool \<times> 'd harness) option" where
  "get_cond_dir_prediction v seq_no piece pc h = do {
     i \<leftarrow> unique_id seq_no piece;
     let slot = (ucast (seq_no AND ucast kMetaSlotMask) :: 16 word);
     let h = tick v (set_dut v [(''queryPc_i'', ucast (fold_pc pc))] (clear_commands v h));
     let saved = saved_context v slot pc h;
     let h = h\<lparr>predictions := (predictions h)(i \<mapsto> saved)\<rparr>;
     let h = tick v (set_dut v [(''saveMetaValid_i'', 1), (''saveMetaSlot_i'', ucast slot)] h);
     let h = clear_commands v h;
     Some (final_prediction saved, h\<lparr>conditional_predictions := conditional_predictions h + 1\<rparr>) }"

definition resolve :: "64 word \<Rightarrow> bool \<Rightarrow> 64 word \<Rightarrow> 'd harness \<Rightarrow> 'd harness option" where
  "resolve i tkn nxt h = do {
     found \<leftarrow> predictions h i;
     Some (h\<lparr>predictions := (predictions h)(i \<mapsto> found\<lparr>actual_known := True, actual_taken := tkn, next_pc := nxt\<rparr>)\<rparr>) }"

definition spec_update ::
  "'d verilated \<Rightarrow> 'i classes \<Rightarrow> 64 word \<Rightarrow> 8 word \<Rightarrow> 64 word \<Rightarrow> 'i \<Rightarrow> bool \<Rightarrow> 64 word \<Rightarrow> 'd harness \<Rightarrow> 'd harness option" where
  "spec_update v cls seq_no piece pc inst_class resolve_dir nxt h = do {
     h \<leftarrow> (if is_br cls inst_class then Some h else None);
     h \<leftarrow> (if is_cond_br cls inst_class then do {
         i \<leftarrow> unique_id seq_no piece;
         resolve i resolve_dir nxt h }
       else Some (tick v (set_dut v [(''queryPc_i'', ucast (fold_pc pc))] (clear_commands v h))));
     let h = set_dut v [(''historyUpdateValid_i'', 1), (''historyConditional_i'', flag (is_cond_br cls inst_class)),
           (''historyTaken_i'', flag resolve_dir)] (clear_commands v h);
     let (backward, h) = (if is_cond_br cls inst_class then branch_is_backward pc resolve_dir nxt h else (False, h));
     let h = tick v (set_dut v [(''historyBackward_i'', flag backward)] h);
     Some (clear_commands v h) }"

definition learn_target :: "64 word \<Rightarrow> 64 word option \<Rightarrow> 'd harness \<Rightarrow> 'd harness" where
  "learn_target pc target h =
     (case target of Some x \<Rightarrow> h\<lparr>known_taken_targets := (known_taken_targets h)(pc \<mapsto> x)\<rparr> | None \<Rightarrow> h)"

definition notify_instr_execute_resolve ::
  "'i classes \<Rightarrow> 64 word \<Rightarrow> 8 word \<Rightarrow> 64 word \<Rightarrow> 'i exec_info \<Rightarrow> 'd harness \<Rightarrow> 'd harness option" where
  "notify_instr_execute_resolve cls seq_no piece pc info h =
     (if \<not> is_cond_br cls (insn_class info) then Some h
      else do {
        i \<leftarrow> unique_id seq_no piece;
        _ \<leftarrow> predictions h i;
        tkn \<leftarrow> taken info;
        h \<leftarrow> resolve i tkn (exec_next_pc info) h;
        Some (learn_target pc (taken_target info) h) })"

definition count_commit :: "PredictionContext \<Rightarrow> bool \<Rightarrow> 'd harness \<Rightarrow> 'd harness" where
  "count_commit p tkn h =
     (let h = h\<lparr>final_mispredictions := final_mispredictions h + flag (final_prediction p \<noteq> tkn),
               raw_tage_mispredictions := raw_tage_mispredictions h + flag (raw_tage_prediction p \<noteq> tkn),
               pre_sc_mispredictions := pre_sc_mispredictions h + flag (pre_sc_prediction p \<noteq> tkn)\<rparr>;
          h = (if final_prediction p \<noteq> pre_sc_prediction p
               then let h = h\<lparr>n_sc_overrides := n_sc_overrides h + 1\<rparr>
                    in if final_prediction p = tkn then h\<lparr>n_sc_corrections := n_sc_corrections h + 1\<rparr>
                       else h\<lparr>n_sc_harms := n_sc_harms h + 1\<rparr>
               else h)
      in if pre_sc_prediction p \<noteq> raw_tage_prediction p
         then let h = h\<lparr>n_loop_overrides := n_loop_overrides h + 1\<rparr>
              in if pre_sc_prediction p = tkn then h\<lparr>n_loop_corrections := n_loop_corrections h + 1\<rparr>
                 else h\<lparr>n_loop_harms := n_loop_harms h + 1\<rparr>
         else h)"

definition book_commit :: "64 word \<Rightarrow> 8 word \<Rightarrow> bool \<Rightarrow> 'd harness \<Rightarrow> (16 word \<times> 'd harness) option" where
  "book_commit seq_no piece tkn h = do {
     i \<leftarrow> unique_id seq_no piece;
     saved \<leftarrow> predictions h i;
     if actual_known saved then Some (meta_slot saved, count_commit saved tkn h) else None }"

definition send_commit ::
  "'d verilated \<Rightarrow> bool \<Rightarrow> 16 word \<Rightarrow> 64 word \<Rightarrow> bool \<Rightarrow> bool \<Rightarrow> 'd harness \<Rightarrow> 'd harness option" where
  "send_commit v conditional slot pc backward tkn h = do {
     h \<leftarrow> wait_for_commit_port v h;
     let h = tick v (set_dut v [(''commitValid_i'', 1), (''commitConditional_i'', flag conditional),
           (''commitMetaSlot_i'', ucast slot), (''commitPc_i'', ucast (fold_pc pc)),
           (''commitTarget_i'', ucast (synthetic_target (fold_pc pc) backward)), (''commitTaken_i'', flag tkn)] h);
     Some (tick v (clear_commands v h)) }"

definition erase :: "64 word \<Rightarrow> 8 word \<Rightarrow> 'd harness \<Rightarrow> 'd harness option" where
  "erase seq_no piece h = do {
     i \<leftarrow> unique_id seq_no piece;
     Some (h\<lparr>predictions := (predictions h)(i := None)\<rparr>) }"

definition notify_instr_commit ::
  "'d verilated \<Rightarrow> 'i classes \<Rightarrow> 64 word \<Rightarrow> 8 word \<Rightarrow> 64 word \<Rightarrow> 'i exec_info \<Rightarrow> 'd harness \<Rightarrow> 'd harness option" where
  "notify_instr_commit v cls seq_no piece pc info h =
     (if \<not> is_br cls (insn_class info) then Some h
      else do {
        let conditional = is_cond_br cls (insn_class info);
        tkn \<leftarrow> (if conditional then taken info else Some True);
        let actual_target = (case taken_target info of Some x \<Rightarrow> x | None \<Rightarrow> exec_next_pc info);
        let backward = (conditional \<and> actual_target < pc);
        let h = (if conditional then learn_target pc (taken_target info) h else h);
        (slot, h) \<leftarrow> (if conditional then book_commit seq_no piece tkn h else Some (0, h));
        h \<leftarrow> send_commit v conditional slot pc backward tkn h;
        if conditional then erase seq_no piece h else Some h })"

text \<open>The final report: its numbers, in the order they are printed.\<close>

text \<open>The three lines of the final report, after the commands in flight have drained.\<close>

definition override_line :: "string \<Rightarrow> 64 word \<Rightarrow> 64 word \<Rightarrow> 64 word \<Rightarrow> line" where
  "override_line w overrides corrections harms = Line w
     [U ''overrides'' (unat overrides), U ''corrections'' (unat corrections), U ''harms'' (unat harms), I ''net'' (net corrections harms)]"

definition endCondDirPredictor :: "'d verilated \<Rightarrow> 'd harness \<Rightarrow> line list" where
  "endCondDirPredictor v h =
     (let h = (tick v ^^ 8) (clear_commands v h)
      in [Line ''RTL_CBP'' [U ''full_conditional'' (unat (conditional_predictions h)), U ''final_misp'' (unat (final_mispredictions h)),
            U ''raw_tage_misp'' (unat (raw_tage_mispredictions h)), U ''pre_sc_misp'' (unat (pre_sc_mispredictions h)),
            U ''internal_ticks'' (unat (internal_ticks h))],
          override_line ''RTL_CBP_SC'' (n_sc_overrides h) (n_sc_corrections h) (n_sc_harms h),
          override_line ''RTL_CBP_LOOP'' (n_loop_overrides h) (n_loop_corrections h) (n_loop_harms h)])"

text \<open>The interface functions with an empty body.\<close>

definition notify_instr_fetch :: "64 word \<Rightarrow> 8 word \<Rightarrow> 64 word \<Rightarrow> 64 word \<Rightarrow> 'd harness \<Rightarrow> 'd harness" where
  "notify_instr_fetch seq_no piece pc fetch_cycle h = h"

definition notify_instr_decode :: "64 word \<Rightarrow> 8 word \<Rightarrow> 64 word \<Rightarrow> 'i \<Rightarrow> 64 word \<Rightarrow> 'd harness \<Rightarrow> 'd harness" where
  "notify_instr_decode seq_no piece pc info decode_cycle h = h"

definition notify_agen_complete ::
  "64 word \<Rightarrow> 8 word \<Rightarrow> 64 word \<Rightarrow> 'i \<Rightarrow> 64 word \<Rightarrow> 64 word \<Rightarrow> 64 word \<Rightarrow> 'd harness \<Rightarrow> 'd harness" where
  "notify_agen_complete seq_no piece pc info mem_va mem_sz agen_cycle h = h"

section \<open>Bookkeeping\<close>

text \<open>The counters agree: every override is a correction or a harm, and the differences between
  the three misprediction counts are what the overrides account for.\<close>

definition accounts_balance :: "'d harness \<Rightarrow> bool" where
  "accounts_balance h \<longleftrightarrow> n_sc_overrides h = n_sc_corrections h + n_sc_harms h
     \<and> n_loop_overrides h = n_loop_corrections h + n_loop_harms h
     \<and> final_mispredictions h + n_sc_corrections h = pre_sc_mispredictions h + n_sc_harms h
     \<and> pre_sc_mispredictions h + n_loop_corrections h = raw_tage_mispredictions h + n_loop_harms h"

text \<open>A pending prediction has the slot of its sequence number.\<close>

definition slots_match :: "'d harness \<Rightarrow> bool" where
  "slots_match h \<longleftrightarrow> (\<forall>i p. predictions h i = Some p \<longrightarrow> meta_slot p = ucast (drop_bit 4 i AND 4095))"

definition books_ok :: "'d harness \<Rightarrow> bool" where
  "books_ok h \<longleftrightarrow> accounts_balance h \<and> slots_match h"

named_theorems harness_simps \<open>clocking and driving the predictor leave the books alone\<close>

lemma harness_fields [harness_simps]:
  "predictions (set_dut v ws h) = predictions h" "predictions (tick v h) = predictions h" "predictions (clear_commands v h) = predictions h"
  "predictions (learn_target pc t h) = predictions h"
  by (simp_all add: set_dut_def tick_def clear_commands_def learn_target_def split: option.splits)

lemma books_drive [harness_simps]:
  "books_ok (set_dut v ws h) = books_ok h" "books_ok (tick v h) = books_ok h" "books_ok (clear_commands v h) = books_ok h"
  "books_ok (learn_target pc t h) = books_ok h" "books_ok (h\<lparr>known_taken_targets := k\<rparr>) = books_ok h"
  "books_ok (h\<lparr>conditional_predictions := c\<rparr>) = books_ok h"
  by (simp_all add: books_ok_def accounts_balance_def slots_match_def set_dut_def tick_def clear_commands_def learn_target_def
      split: option.splits)

lemma books_backward [harness_simps]: "books_ok (snd (branch_is_backward pc t n h)) = books_ok h"
  by (simp add: branch_is_backward_def harness_simps)

lemma ticks_fields: "predictions ((tick v ^^ n) h) = predictions h \<and> books_ok ((tick v ^^ n) h) = books_ok h"
  by (induction n) (simp_all add: harness_simps)

lemma wait_ready_ticks:
  assumes "wait_ready v h = Some h'"
  shows "\<exists>n. h' = (tick v ^^ n) h \<and> out v h' ''commitReady_o''"
proof (rule wait_ready.raw_induct [OF _ assms])
  fix f :: "'a verilated \<Rightarrow> 'a harness \<Rightarrow> 'a harness option" and v h h'
  assume 1: "\<And>v h h'. f v h = Some h' \<Longrightarrow> \<exists>n. h' = (tick v ^^ n) h \<and> out v h' ''commitReady_o''"
    "(if \<not> out v h ''commitReady_o'' then f v (tick v h) else Some h) = Some h'"
  show "\<exists>n. h' = (tick v ^^ n) h \<and> out v h' ''commitReady_o''"
  proof (cases "out v h ''commitReady_o''")
    case True
    with 1 show ?thesis by (auto intro: exI [of _ 0])
  next
    case False
    with 1(2) have "f v (tick v h) = Some h'" by simp
    from 1(1) [OF this] obtain n where "h' = (tick v ^^ n) (tick v h)" "out v h' ''commitReady_o''" by blast
    then have "h' = (tick v ^^ Suc n) h" by (simp only: funpow_Suc_right comp_apply)
    with \<open>out v h' ''commitReady_o''\<close> show ?thesis by blast
  qed
qed

lemma wait_ready_returns:
  assumes "out v ((tick v ^^ n) h) ''commitReady_o''"
  shows "\<exists>h'. wait_ready v h = Some h'"
  using assms
proof (induction n arbitrary: h)
  case 0
  then show ?case by (subst wait_ready.simps) simp
next
  case (Suc n)
  then have "out v ((tick v ^^ n) (tick v h)) ''commitReady_o''" by (simp only: funpow_Suc_right comp_apply)
  from Suc.IH [OF this] show ?case by (subst wait_ready.simps) simp
qed

lemma wait_fields:
  assumes "wait_for_commit_port v h = Some h'"
  shows "predictions h' = predictions h" "books_ok h' = books_ok h"
proof -
  obtain n where "h' = (tick v ^^ n) (clear_commands v h)"
    using wait_ready_ticks assms unfolding wait_for_commit_port_def by blast
  then show "predictions h' = predictions h" "books_ok h' = books_ok h" by (simp_all add: ticks_fields harness_simps)
qed

lemma count_commit_balance: "accounts_balance h \<Longrightarrow> accounts_balance (count_commit p t h)"
  by (cases "final_prediction p"; cases "pre_sc_prediction p"; cases "raw_tage_prediction p"; cases t)
    (simp_all add: accounts_balance_def count_commit_def flag_def Let_def algebra_simps)

lemma count_commit_predictions [harness_simps]: "predictions (count_commit p t h) = predictions h"
  by (simp add: count_commit_def Let_def)

lemma count_commit_books: "books_ok h \<Longrightarrow> books_ok (count_commit p t h)"
  by (simp add: books_ok_def slots_match_def harness_simps count_commit_balance)

lemma drop_bit_id: "unique_id seq_no piece = Some i \<Longrightarrow> drop_bit 4 i AND 4095 = seq_no AND 4095"
proof -
  assume "unique_id seq_no piece = Some i"
  then have i: "i = push_bit 4 seq_no OR ucast piece" "piece < 16" by (auto simp: unique_id_def split: if_splits)
  have "\<not> bit piece n" if "4 \<le> n" for n
  proof -
    have "unat piece = take_bit 4 (unat piece)" using i(2) by (simp add: take_bit_nat_eq_self word_less_nat_alt)
    then have "\<not> bit (unat piece) n" using that by (metis bit_take_bit_iff not_less)
    then show ?thesis by (cases "n < 8") (auto simp: bit_unsigned_iff)
  qed
  moreover have m: "(4095 :: 64 word) = mask 12" by (simp add: mask_eq_exp_minus_1)
  ultimately show ?thesis unfolding i(1) m
    by (intro bit_word_eqI) (auto simp: bit_simps simp del: mask_numeral)
qed


section \<open>Reachable states\<close>

text \<open>One call of the simulator, and the states that calls in any order lead to.\<close>

inductive harness_step :: "'d verilated \<Rightarrow> 'i classes \<Rightarrow> 'd harness \<Rightarrow> 'd harness \<Rightarrow> bool" for v cls where
  predict: "get_cond_dir_prediction v seq_no piece pc h = Some (p, h') \<Longrightarrow> harness_step v cls h h'"
| update: "spec_update v cls seq_no piece pc c dir nxt h = Some h' \<Longrightarrow> harness_step v cls h h'"
| execute: "notify_instr_execute_resolve cls seq_no piece pc info h = Some h' \<Longrightarrow> harness_step v cls h h'"
| commit: "notify_instr_commit v cls seq_no piece pc info h = Some h' \<Longrightarrow> harness_step v cls h h'"
| fetch: "notify_instr_fetch seq_no piece pc cycle h = h' \<Longrightarrow> harness_step v cls h h'"
| decode: "notify_instr_decode seq_no piece pc (d :: 'i) cycle h = h' \<Longrightarrow> harness_step v cls h h'"
| agen: "notify_agen_complete seq_no piece pc (d :: 'i) va sz cycle h = h' \<Longrightarrow> harness_step v cls h h'"

inductive reachable :: "'d verilated \<Rightarrow> 'i classes \<Rightarrow> 'd harness \<Rightarrow> bool" for v cls where
  start: "reachable v cls (beginCondDirPredictor v d)"
| call: "reachable v cls h \<Longrightarrow> harness_step v cls h h' \<Longrightarrow> reachable v cls h'"

inductive_cases harness_stepE: "harness_step v cls h h'"

lemma books_insert:
  "meta_slot p = ucast (drop_bit 4 i AND 4095) \<Longrightarrow> ps = predictions h \<Longrightarrow> books_ok h
    \<Longrightarrow> books_ok (h\<lparr>predictions := ps(i \<mapsto> p)\<rparr>)"
  by (auto simp: books_ok_def slots_match_def accounts_balance_def)

lemma saved_slot [simp]: "meta_slot (saved_context v slot pc h) = slot"
  by (simp add: saved_context_def)

lemma books_predict:
  assumes "get_cond_dir_prediction v seq_no piece pc h = Some (p, h')" "books_ok h"
  shows "books_ok h'"
proof -
  obtain i where i: "unique_id seq_no piece = Some i" using assms(1) by (auto simp: get_cond_dir_prediction_def bind_eq_Some_conv)
  have slot: "ucast (seq_no AND ucast kMetaSlotMask) = (ucast (drop_bit 4 i AND 4095) :: 16 word)"
    using drop_bit_id [OF i] by (simp add: kMetaSlotMask_def)
  show ?thesis using assms unfolding get_cond_dir_prediction_def i Let_def
    by (auto simp: harness_simps slot books_insert)
qed

lemma books_resolve:
  assumes "resolve i t n h = Some h'" "books_ok h"
  shows "books_ok h'"
proof -
  from assms(1) obtain p where p: "predictions h i = Some p"
    "h' = h\<lparr>predictions := (predictions h)(i \<mapsto> p\<lparr>actual_known := True, actual_taken := t, next_pc := n\<rparr>)\<rparr>"
    by (auto simp: resolve_def bind_eq_Some_conv)
  with assms(2) show ?thesis by (auto simp: books_ok_def slots_match_def accounts_balance_def)
qed

lemma books_update:
  assumes "spec_update v cls seq_no piece pc c dir nxt h = Some h'" "books_ok h"
  shows "books_ok h'"
proof -
  let ?cond = "is_cond_br cls c"
  from assms(1) obtain h1 where h1: "(if ?cond then do { i \<leftarrow> unique_id seq_no piece; resolve i dir nxt h }
      else Some (tick v (set_dut v [(''queryPc_i'', ucast (fold_pc pc))] (clear_commands v h)))) = Some h1"
    by (auto simp: spec_update_def bind_eq_Some_conv split: if_splits)
  have b1: "books_ok h1"
    using h1 assms(2) books_resolve by (auto simp: bind_eq_Some_conv harness_simps split: if_splits)
  let ?h2 = "set_dut v [(''historyUpdateValid_i'', 1), (''historyConditional_i'', flag ?cond), (''historyTaken_i'', flag dir)] (clear_commands v h1)"
  obtain bw h3 where h3: "(if ?cond then branch_is_backward pc dir nxt ?h2 else (False, ?h2)) = (bw, h3)" by fastforce
  have "books_ok h3"
    using h3 b1 books_backward [of pc dir nxt ?h2] by (cases ?cond) (auto simp: books_drive)
  moreover have "h' = clear_commands v (tick v (set_dut v [(''historyBackward_i'', flag bw)] h3))"
    using assms(1) h1 h3 by (auto simp: spec_update_def Let_def split: if_splits)
  ultimately show ?thesis by (simp add: harness_simps)
qed

lemma books_execute:
  assumes "notify_instr_execute_resolve cls seq_no piece pc info h = Some h'" "books_ok h"
  shows "books_ok h'"
  using assms books_resolve
  by (auto simp: notify_instr_execute_resolve_def bind_eq_Some_conv harness_simps split: if_splits)

lemma books_erase: "books_ok h \<Longrightarrow> books_ok (h\<lparr>predictions := (predictions h)(i := None)\<rparr>)"
  by (simp add: books_ok_def slots_match_def accounts_balance_def)

lemma send_commit_fields:
  assumes "send_commit v c slot pc bw tkn h = Some h'"
  shows "predictions h' = predictions h" "books_ok h' = books_ok h"
  using assms wait_fields [of v h] by (auto simp: send_commit_def bind_eq_Some_conv Let_def harness_simps)

lemma books_book:
  "book_commit seq_no piece tkn h = Some (slot, h') \<Longrightarrow> books_ok h \<Longrightarrow> books_ok h' \<and> predictions h' = predictions h"
  by (auto simp: book_commit_def bind_eq_Some_conv count_commit_books harness_simps split: if_splits)

lemma books_commit:
  assumes "notify_instr_commit v cls seq_no piece pc info h = Some h'" "books_ok h"
  shows "books_ok h'"
proof (cases "is_br cls (insn_class info)")
  case False
  with assms show ?thesis by (simp add: notify_instr_commit_def)
next
  case True
  let ?c = "is_cond_br cls (insn_class info)"
  let ?h = "if ?c then learn_target pc (taken_target info) h else h"
  have b: "books_ok ?h" using assms(2) by (simp add: harness_simps)
  from assms(1) True obtain tkn slot h1 h2 bw where
    c: "(if ?c then book_commit seq_no piece tkn ?h else Some (0, ?h)) = Some (slot, h1)"
      "send_commit v ?c slot pc bw tkn h1 = Some h2" "(if ?c then erase seq_no piece h2 else Some h2) = Some h'"
    by (auto simp: notify_instr_commit_def bind_eq_Some_conv Let_def)
  have "books_ok h1" using c(1) b books_book [of seq_no piece tkn ?h slot h1] by (cases ?c) auto
  then have "books_ok h2" using send_commit_fields(2) [OF c(2)] by simp
  then show ?thesis using c(3) books_erase by (auto simp: erase_def bind_eq_Some_conv split: if_splits)
qed

lemma reachable_books: "reachable v cls h \<Longrightarrow> books_ok h"
proof (induction rule: reachable.induct)
  case (start d)
  have "books_ok (empty_harness d)" by (simp add: books_ok_def accounts_balance_def slots_match_def empty_harness_def)
  then show ?case by (simp add: beginCondDirPredictor_def Let_def ticks_fields harness_simps)
next
  case (call h h')
  from call.hyps(2) call.IH show ?case
    by (cases rule: harness_step.cases)
      (auto simp: notify_instr_fetch_def notify_instr_decode_def notify_agen_complete_def
        dest: books_predict books_update books_execute books_commit)
qed

lemma differences_agree: "a + c = p + h \<Longrightarrow> c - h = p - (a :: 64 word)"
  by (simp add: algebra_simps)

lemma balanced_net:
  "accounts_balance h \<Longrightarrow> net (n_sc_corrections h) (n_sc_harms h) = sint (pre_sc_mispredictions h - final_mispredictions h)"
  "accounts_balance h \<Longrightarrow> net (n_loop_corrections h) (n_loop_harms h) = sint (raw_tage_mispredictions h - pre_sc_mispredictions h)"
  by (auto simp: accounts_balance_def net_def intro!: arg_cong [where f = sint] differences_agree)

text \<open>Draining changes nothing the report shows but the number of ticks.\<close>

lemma end_report:
  "endCondDirPredictor v h =
     [Line ''RTL_CBP'' [U ''full_conditional'' (unat (conditional_predictions h)), U ''final_misp'' (unat (final_mispredictions h)),
        U ''raw_tage_misp'' (unat (raw_tage_mispredictions h)), U ''pre_sc_misp'' (unat (pre_sc_mispredictions h)),
        U ''internal_ticks'' (unat (internal_ticks h + 8))],
      override_line ''RTL_CBP_SC'' (n_sc_overrides h) (n_sc_corrections h) (n_sc_harms h),
      override_line ''RTL_CBP_LOOP'' (n_loop_overrides h) (n_loop_corrections h) (n_loop_harms h)]"
  by (simp add: endCondDirPredictor_def tick_def set_dut_def clear_commands_def eval_nat_numeral add.assoc)

section \<open>Properties\<close>

text \<open>
  C19: the counters the harness reports are consistent in every state that calls of the simulator in
  any order can lead to, for any predictor: every override of the statistical corrector and of the
  loop predictor is counted either as a correction or as a harm, and the final mispredictions are
  those before the corrector plus its harms minus its corrections, as are those before the
  corrector from the raw ones with the loop predictor (all modulo \<open>2^64\<close>). The final report shows
  these counters, and as net effect of each of the two the number of mispredictions it saved.
\<close>

theorem harness_accounts_balance:
  assumes "reachable v cls h"
  shows "accounts_balance h \<and> endCondDirPredictor v h =
     [Line ''RTL_CBP'' [U ''full_conditional'' (unat (conditional_predictions h)), U ''final_misp'' (unat (final_mispredictions h)),
        U ''raw_tage_misp'' (unat (raw_tage_mispredictions h)), U ''pre_sc_misp'' (unat (pre_sc_mispredictions h)),
        U ''internal_ticks'' (unat (internal_ticks h + 8))],
      Line ''RTL_CBP_SC'' [U ''overrides'' (unat (n_sc_corrections h + n_sc_harms h)), U ''corrections'' (unat (n_sc_corrections h)),
        U ''harms'' (unat (n_sc_harms h)), I ''net'' (sint (pre_sc_mispredictions h - final_mispredictions h))],
      Line ''RTL_CBP_LOOP'' [U ''overrides'' (unat (n_loop_corrections h + n_loop_harms h)), U ''corrections'' (unat (n_loop_corrections h)),
        U ''harms'' (unat (n_loop_harms h)), I ''net'' (sint (raw_tage_mispredictions h - pre_sc_mispredictions h))]]"
proof -
  have b: "accounts_balance h" using reachable_books [OF assms] by (simp add: books_ok_def)
  then show ?thesis using balanced_net [OF b] by (simp add: end_report override_line_def accounts_balance_def)
qed

text \<open>A predictor that always says yes, except that the raw prediction is no.\<close>

definition yes_predictor :: "unit verilated" where
  "yes_predictor = \<lparr>set_input = (\<lambda>n x s. s), eval_model = (\<lambda>s. s), signal_of = (\<lambda>s n. of_bool (n \<noteq> ''rawTagePrediction_o'')),
     got_finish = (\<lambda>s. False)\<rparr>"

definition branches_only :: "unit classes" where
  "branches_only = \<lparr>is_br = (\<lambda>_. True), is_cond_br = (\<lambda>_. True)\<rparr>"

definition taken_branch :: "unit exec_info" where
  "taken_branch = \<lparr>insn_class = (), taken = Some True, exec_next_pc = 0x80, taken_target = Some 0x80\<rparr>"

lemma yes_ready: "out yes_predictor h n \<longleftrightarrow> n \<noteq> ''rawTagePrediction_o''"
  by (simp add: out_def yes_predictor_def)

lemma yes_wait: "wait_for_commit_port yes_predictor h = Some (clear_commands yes_predictor h)"
  unfolding wait_for_commit_port_def by (subst wait_ready.simps) (simp add: yes_ready)

definition yes_run :: "(unit harness) option" where
  "yes_run = do {
     (_, h) \<leftarrow> get_cond_dir_prediction yes_predictor 5 0 0x100 (beginCondDirPredictor yes_predictor ());
     h \<leftarrow> notify_instr_execute_resolve branches_only 5 0 0x100 taken_branch h;
     notify_instr_commit yes_predictor branches_only 5 0 0x100 taken_branch h }"

lemma begin_fields:
  "predictions (beginCondDirPredictor v d) = Map.empty" "n_loop_corrections (beginCondDirPredictor v d) = 0"
  by (simp_all add: beginCondDirPredictor_def Let_def ticks_fields harness_simps empty_harness_def
      tick_def set_dut_def clear_commands_def eval_nat_numeral)

theorem harness_accounts_balance_witness:
  "\<exists>h. yes_run = Some h \<and> accounts_balance h \<and> n_loop_corrections h = 1"
proof -
  obtain h1 where 1: "get_cond_dir_prediction yes_predictor 5 0 0x100 (beginCondDirPredictor yes_predictor ()) = Some (True, h1)"
    "n_loop_corrections h1 = 0" "\<exists>p. predictions h1 80 = Some p \<and> pre_sc_prediction p \<and> \<not> raw_tage_prediction p"
    by (auto simp: get_cond_dir_prediction_def saved_context_def unique_id_def yes_ready begin_fields harness_simps Let_def
        tick_def set_dut_def clear_commands_def)
  obtain h2 where 2: "notify_instr_execute_resolve branches_only 5 0 0x100 taken_branch h1 = Some h2"
    "n_loop_corrections h2 = 0" "\<exists>p. predictions h2 80 = Some p \<and> pre_sc_prediction p \<and> \<not> raw_tage_prediction p \<and> actual_known p"
    using 1 by (auto simp: notify_instr_execute_resolve_def unique_id_def branches_only_def taken_branch_def resolve_def learn_target_def)
  obtain h3 where 3: "notify_instr_commit yes_predictor branches_only 5 0 0x100 taken_branch h2 = Some h3" "n_loop_corrections h3 = 1"
    using 2 by (auto simp: notify_instr_commit_def unique_id_def branches_only_def taken_branch_def book_commit_def learn_target_def
        send_commit_def erase_def yes_wait Let_def count_commit_def tick_def set_dut_def clear_commands_def)
  have "reachable yes_predictor branches_only h3"
    by (rule reachable.call [OF reachable.call [OF reachable.call [OF reachable.start harness_step.predict [OF 1(1)]]
        harness_step.execute [OF 2(1)]] harness_step.commit [OF 3(1)]])
  from harness_accounts_balance [OF this] 1 2 3 show ?thesis by (simp add: yes_run_def)
qed

lemma low12_distinct:
  fixes s t :: "64 word"
  assumes "s < t" "unat t - unat s < 4096"
  shows "(ucast (s AND 4095) :: 16 word) \<noteq> ucast (t AND 4095)"
proof
  assume eq: "(ucast (s AND 4095) :: 16 word) = ucast (t AND 4095)"
  have m: "(4095 :: 64 word) = mask 12" by (simp add: mask_eq_exp_minus_1)
  have un: "unat (ucast (w AND 4095) :: 16 word) = unat w mod 4096" for w :: "64 word"
    unfolding m take_bit_eq_mask [symmetric] by (simp add: unsigned_ucast_eq unsigned_take_bit_eq take_bit_take_bit take_bit_eq_mod unat_mod)
  have "unat s mod 4096 = unat t mod 4096" using arg_cong [OF eq, of unat] by (simp add: un)
  moreover have "unat s < unat t" using assms(1) by (simp add: word_less_nat_alt)
  ultimately have "4096 dvd unat t - unat s" by (metis mod_eq_dvd_iff_nat less_imp_le)
  with \<open>unat s < unat t\<close> assms(2) show False by (auto dest: dvd_imp_le)
qed

text \<open>
  C26: two predictions that are pending at the same time use different slots of the metadata memory,
  when their sequence numbers are different and less than 4096 apart; the sequence number of a
  pending prediction is its identifier without the piece.
\<close>

theorem pending_slots_distinct:
  assumes "reachable v cls h" "predictions h i = Some p" "predictions h j = Some q"
    "drop_bit 4 i < drop_bit 4 j" "unat (drop_bit 4 j) - unat (drop_bit 4 i) < 4096"
  shows "meta_slot p \<noteq> meta_slot q"
  using reachable_books [OF assms(1)] low12_distinct [OF assms(4,5)] assms(2,3)
  by (simp add: books_ok_def slots_match_def)


lemma predict_eq:
  assumes "unique_id seq_no piece = Some i"
  obtains b h' p where "get_cond_dir_prediction v seq_no piece pc h = Some (b, h')" "predictions h' = (predictions h)(i \<mapsto> p)"
    "final_prediction p = b"
  using assms by (simp add: get_cond_dir_prediction_def Let_def harness_simps)

theorem pending_slots_distinct_witness:
  "\<exists>h p q. predictions h 80 = Some p \<and> predictions h 65600 = Some q \<and> reachable yes_predictor branches_only h \<and> meta_slot p \<noteq> meta_slot q"
proof -
  have i: "unique_id 5 0 = Some 80" "unique_id 4100 0 = Some 65600" by (simp_all add: unique_id_def)
  obtain b1 h1 p where 1: "get_cond_dir_prediction yes_predictor 5 0 0x100 (beginCondDirPredictor yes_predictor ()) = Some (b1, h1)"
    "predictions h1 80 = Some p" by (rule predict_eq [OF i(1), of yes_predictor "0x100" "beginCondDirPredictor yes_predictor ()"]) auto
  obtain b2 h2 q where 2: "get_cond_dir_prediction yes_predictor 4100 0 0x104 h1 = Some (b2, h2)"
    "predictions h2 65600 = Some q" "predictions h2 80 = predictions h1 80"
    by (rule predict_eq [OF i(2), of yes_predictor "0x104" h1]) auto
  have r: "reachable yes_predictor branches_only h2"
    by (rule reachable.call [OF reachable.call [OF reachable.start harness_step.predict [OF 1(1)]] harness_step.predict [OF 2(1)]])
  have "meta_slot p \<noteq> meta_slot q"
    by (rule pending_slots_distinct [OF r, of 80 p 65600 q]) (use 1(2) 2(2,3) in \<open>simp_all add: drop_bit_eq_div word_less_nat_alt unat_div\<close>)
  with r 1(2) 2 show ?thesis by auto
qed

lemma piece_bits: "piece < (16 :: 8 word) \<Longrightarrow> 4 \<le> n \<Longrightarrow> \<not> bit piece n"
proof -
  assume "piece < 16" "4 \<le> n"
  then have "unat piece = take_bit 4 (unat piece)" by (simp add: take_bit_nat_eq_self word_less_nat_alt)
  then have "\<not> bit (unat piece) n" using \<open>4 \<le> n\<close> by (metis bit_take_bit_iff not_less)
  then show "\<not> bit piece n" by (cases "n < 8") (auto simp: bit_unsigned_iff)
qed

lemma unat_id:
  assumes "piece < (16 :: 8 word)" "unat seq_no < 2 ^ 60"
  shows "unat (push_bit 4 seq_no OR ucast piece :: 64 word) = 16 * unat seq_no + unat piece"
proof -
  have "push_bit 4 seq_no OR ucast piece = push_bit 4 seq_no + (ucast piece :: 64 word)"
    by (rule disjunctive_add [symmetric]) (use piece_bits [OF assms(1)] in \<open>auto simp: bit_simps not_le\<close>)
  moreover have "unat (push_bit 4 seq_no) = 16 * unat seq_no"
    using assms(2) by (simp add: push_bit_eq_mult unat_word_ariths)
  moreover have "unat piece < 16" using assms(1) by (simp add: word_less_nat_alt)
  ultimately show ?thesis using assms(2) by (simp add: unat_word_ariths unsigned_ucast_eq take_bit_nat_eq_self)
qed

lemma digits16_eq_iff:
  fixes a b s t :: nat
  assumes "a < 16" "b < 16"
  shows "16 * s + a = 16 * t + b \<longleftrightarrow> s = t \<and> a = b"
proof
  assume eq: "16 * s + a = 16 * t + b"
  have "(16 * s + a) div 16 = s" "(16 * s + a) mod 16 = a" using assms(1) by simp_all
  moreover have "(16 * t + b) div 16 = t" "(16 * t + b) mod 16 = b" using assms(2) by simp_all
  ultimately show "s = t \<and> a = b" using eq by metis
qed simp

text \<open>
  identifiers of instructions are different for different sequence numbers below \<open>2^60\<close> or different
  pieces; a piece number of 16 or more fails the assertion.
\<close>

theorem unique_id_injective:
  assumes "unat s < 2 ^ 60" "unat t < 2 ^ 60"
  shows "unique_id s a = unique_id t b \<longleftrightarrow> (s = t \<and> a = b) \<or> (16 \<le> a \<and> 16 \<le> b)"
proof (cases "a < 16 \<and> b < 16")
  case True
  have lt: "unat a < 16" "unat b < 16" using True by (simp_all add: word_less_nat_alt)
  have "unique_id s a = unique_id t b \<longleftrightarrow> 16 * unat s + unat a = 16 * unat t + unat b"
    using True unat_id [of a s] unat_id [of b t] assms by (auto simp: unique_id_def word_unat_eq_iff)
  also have "\<dots> \<longleftrightarrow> unat s = unat t \<and> unat a = unat b" by (rule digits16_eq_iff [OF lt])
  finally show ?thesis using True by (auto simp: word_unat_eq_iff not_le)
qed (auto simp: unique_id_def not_le)

theorem unique_id_injective_witness:
  "unique_id 7 3 = unique_id 7 4 \<longleftrightarrow> (7 :: 64 word) = 7 \<and> (3 :: 8 word) = 4 \<or> (16 :: 8 word) \<le> 3 \<and> (16 :: 8 word) \<le> 4"
  by (rule unique_id_injective) simp_all


lemma fold_pc_halves:
  "fold_pc (push_bit 32 (ucast h) OR ucast l) = ((l XOR h) AND NOT 3) OR (l AND 3)"
proof -
  have l: "(ucast (push_bit 32 (ucast h) OR ucast l :: 64 word) :: 32 word) = l" by (rule bit_word_eqI) (auto simp: bit_simps)
  have h: "(ucast (drop_bit 32 (push_bit 32 (ucast h) OR ucast l :: 64 word)) :: 32 word) = h"
    by (rule bit_word_eqI) (auto simp: bit_simps dest: bit_imp_le_length)
  show ?thesis unfolding fold_pc_def Let_def l h by (rule refl)
qed

text \<open>
  C27: what the folding of program counters keeps. Two program counters with the same lower half are
  folded to the same 32-bit value exactly when their upper halves agree except in their two lowest
  bits; the two lowest bits of the lower half are kept as they are, and an address below \<open>2^32\<close> is
  not changed.
\<close>

theorem fold_pc_collisions:
  fixes h h' l :: "32 word"
  shows "(fold_pc (push_bit 32 (ucast h) OR ucast l) = fold_pc (push_bit 32 (ucast h') OR ucast l) \<longleftrightarrow> h AND NOT 3 = h' AND NOT 3)
     \<and> fold_pc (push_bit 32 (ucast h) OR ucast l) AND 3 = l AND 3 \<and> fold_pc (ucast l) = l"
proof (intro conjI)
  have 3: "(3 :: 32 word) = mask 2" by (simp add: mask_eq_exp_minus_1)
  show "fold_pc (push_bit 32 (ucast h) OR ucast l) = fold_pc (push_bit 32 (ucast h') OR ucast l) \<longleftrightarrow> h AND NOT 3 = h' AND NOT 3"
    unfolding fold_pc_halves 3 by (auto simp: bit_eq_iff bit_simps simp del: mask_numeral)
  show "fold_pc (push_bit 32 (ucast h) OR ucast l) AND 3 = l AND 3"
    unfolding fold_pc_halves 3 by (rule bit_word_eqI) (auto simp: bit_simps simp del: mask_numeral)
  have "fold_pc (push_bit 32 (ucast (0 :: 32 word)) OR ucast l) = l"
    unfolding fold_pc_halves 3 by (rule bit_word_eqI) (auto simp: bit_simps simp del: mask_numeral)
  then show "fold_pc (ucast l) = l" by simp
qed

section \<open>Commit\<close>

text \<open>The commit port becomes ready after some ticks with no command.\<close>

definition eventually_ready :: "'d verilated \<Rightarrow> 'd harness \<Rightarrow> bool" where
  "eventually_ready v h \<longleftrightarrow> (\<exists>n. out v ((tick v ^^ n) (clear_commands v h)) ''commitReady_o'')"

lemma dut_cong: "dut h = dut h' \<Longrightarrow> dut ((tick v ^^ n) (clear_commands v h)) = dut ((tick v ^^ n) (clear_commands v h'))"
  by (induction n) (simp_all add: tick_def clear_commands_def set_dut_def)

lemma eventually_ready_waits:
  assumes "eventually_ready v h" "dut h' = dut h"
  shows "\<exists>h''. wait_for_commit_port v h' = Some h''"
proof -
  obtain n where "out v ((tick v ^^ n) (clear_commands v h)) ''commitReady_o''" using assms(1) by (auto simp: eventually_ready_def)
  then have "out v ((tick v ^^ n) (clear_commands v h')) ''commitReady_o''" using dut_cong [OF assms(2), where v = v and n = n] by (simp add: out_def)
  then show ?thesis unfolding wait_for_commit_port_def by (rule wait_ready_returns)
qed

lemma count_commit_dut [simp]: "dut (count_commit p t h) = dut h" "dut (learn_target pc x h) = dut h"
  by (simp_all add: count_commit_def learn_target_def Let_def split: option.splits)

lemma misses_drive [simp]:
  "final_mispredictions (set_dut v ws h) = final_mispredictions h" "final_mispredictions (tick v h) = final_mispredictions h"
  "final_mispredictions (clear_commands v h) = final_mispredictions h" "final_mispredictions (learn_target pc x h) = final_mispredictions h"
  "final_mispredictions (count_commit p t h) = final_mispredictions h + flag (final_prediction p \<noteq> t)"
  by (simp_all add: set_dut_def tick_def clear_commands_def learn_target_def count_commit_def Let_def split: option.splits)

lemma misses_ticks: "final_mispredictions ((tick v ^^ n) h) = final_mispredictions h"
  by (induction n) simp_all

lemma send_commit_runs:
  assumes "eventually_ready v h" "dut h1 = dut h"
  shows "\<exists>h2. send_commit v c slot pc bw tkn h1 = Some h2 \<and> predictions h2 = predictions h1 \<and> final_mispredictions h2 = final_mispredictions h1"
proof -
  obtain h' where w: "wait_for_commit_port v h1 = Some h'" using eventually_ready_waits [OF assms] by blast
  then obtain n where "h' = (tick v ^^ n) (clear_commands v h1)"
    using wait_ready_ticks unfolding wait_for_commit_port_def by blast
  then have "final_mispredictions h' = final_mispredictions h1" by (simp add: misses_ticks)
  with w wait_fields(1) [OF w] show ?thesis by (simp add: send_commit_def Let_def harness_simps)
qed

text \<open>
  C20: the commit of a conditional branch. If the branch was never resolved, the assertion fails. If
  it was, and the commit port becomes ready at some time, the commit ends, removes exactly this
  prediction from the pending ones, and counts a misprediction exactly when the final prediction
  was not the direction taken.
\<close>

theorem commit_of_prediction:
  assumes "is_br cls (insn_class info)" "is_cond_br cls (insn_class info)" "taken info = Some t"
    "unique_id seq_no piece = Some i" "predictions h i = Some p" "eventually_ready v h"
  shows "if actual_known p
    then \<exists>h'. notify_instr_commit v cls seq_no piece pc info h = Some h' \<and> predictions h' = (predictions h)(i := None)
       \<and> final_mispredictions h' = final_mispredictions h + (if final_prediction p = t then 0 else 1)
    else notify_instr_commit v cls seq_no piece pc info h = None"
proof -
  let ?h = "learn_target pc (taken_target info) h"
  have b: "book_commit seq_no piece t ?h = (if actual_known p then Some (meta_slot p, count_commit p t ?h) else None)"
    using assms(4,5) by (simp add: book_commit_def harness_simps)
  show ?thesis
  proof (cases "actual_known p")
    case False
    with assms(1-3) b show ?thesis by (simp add: notify_instr_commit_def)
  next
    case True
    let ?bw = "(case taken_target info of Some x \<Rightarrow> x | None \<Rightarrow> exec_next_pc info) < pc"
    obtain h2 where "send_commit v True (meta_slot p) pc ?bw t (count_commit p t ?h) = Some h2"
      "predictions h2 = predictions h" "final_mispredictions h2 = final_mispredictions h + flag (final_prediction p \<noteq> t)"
      using send_commit_runs [OF assms(6), of "count_commit p t ?h" True "meta_slot p" pc ?bw t] by (auto simp: harness_simps)
    with True assms(1-4) b show ?thesis by (simp add: notify_instr_commit_def erase_def flag_def Let_def)
  qed
qed

theorem commit_of_prediction_witness:
  "\<exists>h p. predictions h 80 = Some p \<and> \<not> actual_known p \<and> notify_instr_commit yes_predictor branches_only 5 0 0x100 taken_branch h = None"
proof -
  let ?h = "(empty_harness ())\<lparr>predictions := [80 \<mapsto> saved_context yes_predictor 5 0x100 (empty_harness ())]\<rparr>"
  have "eventually_ready yes_predictor ?h" by (simp add: eventually_ready_def yes_ready)
  moreover have "\<not> actual_known (saved_context yes_predictor 5 0x100 (empty_harness ()))" by (simp add: saved_context_def)
  ultimately have "notify_instr_commit yes_predictor branches_only 5 0 0x100 taken_branch ?h = None"
    using commit_of_prediction [of branches_only taken_branch True 5 0 80 ?h "saved_context yes_predictor 5 0x100 (empty_harness ())" yes_predictor "0x100"]
    by (simp add: branches_only_def taken_branch_def unique_id_def)
  then show ?thesis by (intro exI [of _ ?h]) (simp add: saved_context_def)
qed

end
