(* ===== verification/MatrixPrint.thy ===== *)
theory MatrixPrint
  imports Matrix
begin

text \<open>
  The functions \<^verbatim>\<open>printmat\<close> and \<^verbatim>\<open>printmatC\<close> of \<^verbatim>\<open>core_matrix.c\<close>, which print a matrix of 16-bit and one of
  32-bit numbers when \<^verbatim>\<open>CORE_DEBUG\<close> is set, and the text they print.
\<close>

section \<open>Printing\<close>

definition print_cell :: "ee_u32 \<Rightarrow> 32 word \<Rightarrow> mmio_trace \<Rightarrow> mmio_trace option" where
  "print_cell j v out = do {
     sep \<leftarrow> (if j \<noteq> 0 then ee_printf '','' [] else Some []);
     num \<leftarrow> ee_printf ''%d'' [VInt v];
     Some (out @ sep @ num) }"

definition print_rows :: "ee_u32 \<Rightarrow> (nat \<Rightarrow> 32 word option) \<Rightarrow> mmio_trace \<Rightarrow> mmio_trace option" where
  "print_rows N cell = for_u32 0 N (\<lambda>i out. do {
     out \<leftarrow> for_u32 0 N (\<lambda>j out. do {
       v \<leftarrow> cell (unat (i * N + j));
       print_cell j v out }) out;
     nl \<leftarrow> ee_printf [LF] [];
     Some (out @ nl) })"

definition print_title :: "string \<Rightarrow> ee_u32 \<Rightarrow> mmio_trace option" where
  "print_title name N = ee_printf (''Matrix %s [%dx%d]:'' @ [LF]) [VStr (Some name), VInt N, VInt N]"

definition printmat :: "addr \<Rightarrow> ee_u32 \<Rightarrow> string \<Rightarrow> cmem \<Rightarrow> mmio_trace option" where
  "printmat A N name m = do {
     title \<leftarrow> print_title name N;
     a \<leftarrow> arr16 m A;
     print_rows N (\<lambda>k. map_option promote_s16 (rd a k)) title }"

definition printmatC :: "addr \<Rightarrow> ee_u32 \<Rightarrow> string \<Rightarrow> cmem \<Rightarrow> mmio_trace option" where
  "printmatC C N name m = do {
     title \<leftarrow> print_title name N;
     c \<leftarrow> arr32 m C;
     print_rows N (rd c) title }"

section \<open>The text\<close>

text \<open>A number in decimal, a row of numbers, and the whole matrix.\<close>

definition decimal_text :: "32 word \<Rightarrow> string" where
  "decimal_text v = (if sint v < 0 then ''-'' else []) @ render 10 (nat \<bar>sint v\<bar>)"

fun commas :: "string list \<Rightarrow> string" where
  "commas [] = []"
| "commas (w # ws) = w @ concat (map (\<lambda>w. '','' @ w) ws)"

definition matrix_text :: "string \<Rightarrow> ee_u32 \<Rightarrow> (nat \<Rightarrow> 32 word) \<Rightarrow> mmio_trace" where
  "matrix_text name N f =
     uart_puts ''Matrix '' @ uart_puts name @ uart_puts '' ['' @ uart_text (decimal_text N) @ uart_puts ''x'' @ uart_text (decimal_text N) @
     uart_puts ('']:'' @ [LF]) @
     concat (map (\<lambda>i. uart_text (commas (map (\<lambda>j. decimal_text (f (i * unat N + j))) [0..<unat N])) @ uart_puts [LF]) [0..<unat N])"

lemma commas_snoc: "ws \<noteq> [] \<Longrightarrow> commas (ws @ [w]) = commas ws @ '','' @ w"
  by (cases ws) simp_all

lemma printf_pieces:
  "ee_printf '','' [] = Some (uart_text '','')" "ee_printf [LF] [] = Some (uart_puts [LF])"
  "ee_printf ''%d'' [VInt v] = Some (uart_text (decimal_text v))"
  using ee_printf_items [of "[Text '','']"] ee_printf_items [of "[Text [LF]]"] ee_printf_items [of "[Num Dec False 0 False v]"]
  by (simp_all add: flags_text_def conv_char_def decimal_text_def pad_to_def del: ee_printf.simps)

lemma print_cell_eq: "print_cell j v out = Some (out @ uart_text ((if j \<noteq> 0 then '','' else []) @ decimal_text v))"
  by (simp add: print_cell_def printf_pieces del: ee_printf.simps)

lemma commas_upto: "commas (map g [0..<Suc j]) = commas (map g [0..<j]) @ (if j \<noteq> 0 then '','' else []) @ g j"
proof (cases "j = 0")
  case False
  then have "map g [0..<j] \<noteq> []" by simp
  from commas_snoc [OF this, of "g j"] False show ?thesis by simp
qed simp

lemma word_of_nat_0_iff: "j < unat (N :: 32 word) \<Longrightarrow> word_of_nat j = (0 :: 32 word) \<longleftrightarrow> j = 0"
proof -
  assume "j < unat N"
  then have "unat (word_of_nat j :: 32 word) = j" using unsigned_less [where 'a = nat, of N] by (simp add: unat_of_nat take_bit_nat_eq_self)
  then show ?thesis by (metis unat_eq_0)
qed

lemma print_row:
  assumes "dim_ok N" "\<And>k. k < unat N * unat N \<Longrightarrow> cell k = Some (f k)" "i < unat N"
  shows "for_u32 0 N (\<lambda>j out. do { v \<leftarrow> cell (unat (word_of_nat i * N + j)); print_cell j v out }) out
    = Some (out @ uart_text (commas (map (\<lambda>j. decimal_text (f (i * unat N + j))) [0..<unat N])))"
proof -
  let ?row = "\<lambda>j. uart_text (commas (map (\<lambda>j. decimal_text (f (i * unat N + j))) [0..<j]))"
  have "\<exists>s'. for_u32 0 N (\<lambda>j out. do { v \<leftarrow> cell (unat (word_of_nat i * N + j)); print_cell j v out }) out = Some s'
      \<and> s' = out @ ?row (unat N)"
    by (rule for_u32_rule [where I = "\<lambda>j s'. s' = out @ ?row j"])
      (simp_all add: print_cell_eq assms unat_index index_less word_of_nat_0_iff commas_upto del: upt_Suc)
  then show ?thesis by simp
qed

lemma print_rows_eq:
  assumes "dim_ok N" "\<And>k. k < unat N * unat N \<Longrightarrow> cell k = Some (f k)"
  shows "print_rows N cell out = Some (out @ concat (map (\<lambda>i.
    uart_text (commas (map (\<lambda>j. decimal_text (f (i * unat N + j))) [0..<unat N])) @ uart_puts [LF]) [0..<unat N]))"
proof -
  let ?rows = "\<lambda>n. concat (map (\<lambda>i.
    uart_text (commas (map (\<lambda>j. decimal_text (f (i * unat N + j))) [0..<unat N])) @ uart_puts [LF]) [0..<n])"
  have "\<exists>s'. print_rows N cell out = Some s' \<and> s' = out @ ?rows (unat N)"
    unfolding print_rows_def
    by (rule for_u32_rule [where I = "\<lambda>i s'. s' = out @ ?rows i"])
      (simp_all add: print_row [OF assms(1), of cell f] assms(2) printf_pieces del: ee_printf.simps)
  then show ?thesis by simp
qed

lemma print_title_eq:
  "print_title name N = Some (uart_puts ''Matrix '' @ uart_puts name @ uart_puts '' ['' @ uart_text (decimal_text N) @ uart_puts ''x'' @
     uart_text (decimal_text N) @ uart_puts ('']:'' @ [LF]))"
  using ee_printf_items [of "[Text ''Matrix '', Str name, Text '' ['', Num Dec False 0 False N, Text ''x'', Num Dec False 0 False N, Text ('']:'' @ [LF])]"]
  by (simp add: print_title_def flags_text_def conv_char_def decimal_text_def pad_to_def del: ee_printf.simps)

text \<open>
  What \<^verbatim>\<open>printmat\<close> and \<^verbatim>\<open>printmatC\<close> print: the name, the dimensions, and one line for every row with the
  numbers of the row in decimal, separated by commas; they stay inside the matrix.
\<close>

theorem printmat_text:
  assumes "dim_ok N" "arr16 m A = Some a" "unat N * unat N \<le> length a" "arr32 m C = Some c" "unat N * unat N \<le> length c"
  shows "printmat A N name m = Some (matrix_text name N (\<lambda>k. promote_s16 (a ! k)))
     \<and> printmatC C N name m = Some (matrix_text name N (\<lambda>k. c ! k))"
proof
  have a: "map_option promote_s16 (rd a k) = Some (promote_s16 (a ! k))" if "k < unat N * unat N" for k
    using that assms(3) by (simp add: rd_def)
  have c: "rd c k = Some (c ! k)" if "k < unat N * unat N" for k using that assms(5) by (simp add: rd_def)
  show "printmat A N name m = Some (matrix_text name N (\<lambda>k. promote_s16 (a ! k)))"
    by (simp add: printmat_def print_title_eq assms(2) print_rows_eq [OF assms(1) a] matrix_text_def)
  show "printmatC C N name m = Some (matrix_text name N (\<lambda>k. c ! k))"
    by (simp add: printmatC_def print_title_eq assms(4) print_rows_eq [OF assms(1) c] matrix_text_def)
qed

end
