(* ===== verification/Spec2Isabelle.thy ===== *)
theory Spec2Isabelle
  imports MainReport SeedArgs HostPort RvModel CbpHarness MatrixPrint
begin

text \<open>
  A verification of the C and C++ programs of this repository: the CoreMark benchmark with its
  bare-metal port (\<^verbatim>\<open>src/coremark\<close>), the driver of the Verilator simulation that runs it
  (\<^verbatim>\<open>src/sim/verilator/sim_main.cpp\<close>), the macros of the compliance tests that run on it too
  (\<^verbatim>\<open>src/compliance/act4/rvmodel_macros.h\<close>) and the harness that measures the branch predictor
  (\<^verbatim>\<open>src/verification/perf/cbp/cbp_rtl_interface.cc\<close>).

  The parts and their interplay. \<^verbatim>\<open>main\<close> of the benchmark reads seeds, cuts one static block of
  memory into three pieces, lets the list, matrix and state-machine benchmarks initialise theirs,
  and runs the list benchmark, whose comparison function runs the other two. All of them fold
  their results into check sums, which \<^verbatim>\<open>main\<close> compares with known ones. Output goes through a
  small \<^verbatim>\<open>printf\<close> to a memory-mapped UART; the last write signals \<^verbatim>\<open>tohost\<close>. The simulation driver clocks the
  processor, copies UART bytes to the console and turns \<^verbatim>\<open>tohost\<close> into an exit code.

  The theories, in the order they build on each other:

  \<^item> \<^verbatim>\<open>Prelude\<close>: integer types as words, promotions, checked array accesses, the counting loop and
    its rules. An operation that can leave its memory, fail an assertion or never end has an
    option type; the value \<^term>\<open>None\<close> stands for each of these.
  \<^item> \<^verbatim>\<open>CoreUtil\<close> (\<^verbatim>\<open>core_util.c\<close>): \<^verbatim>\<open>crcu8\<close>, \<^verbatim>\<open>crcu16\<close>, \<^verbatim>\<open>crcu32\<close>, the seeds in the three
    variants of \<^verbatim>\<open>SEED_METHOD\<close>, \<^verbatim>\<open>parseval\<close>. The check sums are the
    reflected CRC-16; the laws of check sums are a locale, interpreted for each of the widths. \<^verbatim>\<open>SeedArgs\<close> shows
    that \<^verbatim>\<open>parseval\<close> reads the number that was written, and that the variants agree.
  \<^item> \<^verbatim>\<open>Uart\<close> and \<^verbatim>\<open>Portme\<close> (\<^verbatim>\<open>core_portme.c\<close>, \<^verbatim>\<open>hello.c\<close>): UART output, number printing and \<^verbatim>\<open>ee_printf\<close> against
    a reference rendering; timing, \<^verbatim>\<open>align_mem\<close>, the bump allocator (an interface of allocators,
    interpreted for it), \<^verbatim>\<open>portable_init\<close> and \<^verbatim>\<open>portable_fini\<close>. The values of the cycle and instruction
    counters are arguments.
  \<^item> \<^verbatim>\<open>Memory\<close> (\<^verbatim>\<open>coremark.h\<close>): list cells, matrix parameters, results, and the memory, split by the type
    of the objects.
  \<^item> \<^verbatim>\<open>Matrix\<close> (\<^verbatim>\<open>core_matrix.c\<close>): every kernel, \<^verbatim>\<open>matrix_test\<close>, \<^verbatim>\<open>core_bench_matrix\<close>, \<^verbatim>\<open>core_init_matrix\<close>, against
    reference products and sums, with the layout of the three matrices; \<^verbatim>\<open>MatrixPrint\<close> has the debug output of
    matrices, \<^verbatim>\<open>printmat\<close> and \<^verbatim>\<open>printmatC\<close>, and its text.
  \<^item> \<^verbatim>\<open>StateMachine\<close> (\<^verbatim>\<open>core_state.c\<close>): the scanner against a grammar of numbers, the passes over the block,
    the corruption and when it is undone, \<^verbatim>\<open>core_init_state\<close>.
  \<^item> \<^verbatim>\<open>ListHeap\<close> and \<^verbatim>\<open>MergeSort\<close> (\<^verbatim>\<open>core_list_join.c\<close>): the list operations on a heap of cells, and
    the in-place merge sort, which is the stable sort for every comparison that satisfies the
    locale \<^verbatim>\<open>list_comparison\<close>.
  \<^item> \<^verbatim>\<open>ListCmp\<close>, \<^verbatim>\<open>ListBench\<close>, \<^verbatim>\<open>ListInit\<close> (\<^verbatim>\<open>core_list_join.c\<close>): the comparisons \<^verbatim>\<open>cmp_idx\<close> and \<^verbatim>\<open>cmp_complex\<close>, for which
    that locale is interpreted, \<^verbatim>\<open>core_bench_list\<close>, which leaves the list as it was, and
    \<^verbatim>\<open>core_list_init\<close>, which builds the list it expects.
  \<^item> \<^verbatim>\<open>CoreMain\<close> and \<^verbatim>\<open>MainReport\<close> (\<^verbatim>\<open>core_main.c\<close>): seeds, set-up, \<^verbatim>\<open>iterate\<close>, the automatic number of
    iterations, validation, report, \<^verbatim>\<open>main\<close>. The set-up makes every benchmark ready, iterations keep them so for
    all seeds (the locale \<^verbatim>\<open>bench_contract\<close>, interpreted for lists that are restored and for lists that stay usable),
    and \<^verbatim>\<open>main\<close> comes to its last write.
  \<^item> \<^verbatim>\<open>Verilated\<close>, \<^verbatim>\<open>SimOptions\<close>, \<^verbatim>\<open>Doubles\<close>, \<^verbatim>\<open>ReportLines\<close>, \<^verbatim>\<open>SimLoop\<close>, \<^verbatim>\<open>SimReport\<close>, \<^verbatim>\<open>SimMain\<close> (\<^verbatim>\<open>sim_main.cpp\<close>): the classes that
    Verilator generates are a parameter, as are the environment and the files that can be opened.
    \<^verbatim>\<open>SimOptions\<close> has the options with \<^verbatim>\<open>strtoull\<close>, \<^verbatim>\<open>Doubles\<close> the rounding of double arithmetic and \<^verbatim>\<open>%.<k>f\<close>, \<^verbatim>\<open>ReportLines\<close> the
    lines of the reports and their text,
    \<^verbatim>\<open>SimLoop\<close> clocking, pipeline dump, branch trace, counters and the loop, \<^verbatim>\<open>SimReport\<close> the report and its
    rates, \<^verbatim>\<open>SimMain\<close> the whole program. A run is the sequence of what the processor shows after each
    cycle; exit code, console, log and the other files are described by it, and the error of the
    printed rates is bounded.
  \<^item> \<^verbatim>\<open>HostPort\<close>: a program on the simulator. For a UART and a \<^verbatim>\<open>tohost\<close> at different addresses (the locale
    \<^verbatim>\<open>host_port\<close>, interpreted for the port of the benchmark and for the compliance tests), a processor that
    makes the stores of a program that prints and then signals gives the exit code and the text on
    the console.
  \<^item> \<^verbatim>\<open>RvModel\<close> (\<^verbatim>\<open>compliance/act4/rvmodel_macros.h\<close>): the assembler macros of the compliance tests as
    instruction sequences with a step relation; the printing loop ends and sends the string, the two
    final loops store once and stay.
  \<^item> \<^verbatim>\<open>CbpHarness\<close> (\<^verbatim>\<open>cbp_rtl_interface.cc\<close>): the calls of the branch simulator as a step relation with
    invariants of all reachable states, and the final report.

  This theory adds what spans components: CoreMark and the compliance tests on the simulator.

  The interfaces are locales: check sums and their widths (\<^verbatim>\<open>CoreUtil\<close>), allocators (\<^verbatim>\<open>Portme\<close>), comparisons
  (\<^verbatim>\<open>MergeSort\<close>, for which the sort refines the library's stable \<^verbatim>\<open>sort_key\<close>), operations that keep an
  invariant and can be repeated (\<^verbatim>\<open>run_contract\<close> and \<^verbatim>\<open>repeatable\<close> of \<^verbatim>\<open>Prelude\<close>, and \<^verbatim>\<open>bench_contract\<close> of
  \<^verbatim>\<open>CoreMain\<close>, a sublocale of the latter), and the memory-mapped ports. Each is interpreted on the definitions of the model.

  Bounds. Loops are recursive functions with a termination proof where they always end, and
  partial functions otherwise; there is no fuel. The list must have fewer than \<open>2^29\<close> nodes, so that
  the run length of the merge sort does not overflow; the block of the benchmark has room for 30.
  \<^verbatim>\<open>main\<close> is treated for 2000 bytes and all three algorithms, 666 bytes each, and any seeds. That the
  list comes back exactly is shown for seeds that give its nodes different indices, such as those
  of the port; for the others, that it stays usable. Doubles are
  rationals rounded to 53 bits; counters of 64 bits never leave the normal range.

  Not modelled: the calls of the debug output under \<^verbatim>\<open>CORE_DEBUG\<close>, the configurations the port does not select
  (several contexts, \<^verbatim>\<open>malloc\<close>, floating point in the benchmark), the encoding of the wave form file (the
  model has its samples), and the hardware description itself, which is not a C program; so that the processor
  makes the stores of the program it runs is a hypothesis of the theorems on the simulator. The
  memory model has no alignment and no aliasing between objects of different type; that the pieces
  of the block do not overlap is a theorem about their addresses.
\<close>

section \<open>The benchmark on the simulator\<close>

text \<open>The text of a string on the console: carriage returns are left out.\<close>

lemma printed_putc: "printed UART_TX_ADDR (uart_putc c) = (if c = CR then [] else [of_char c])"
proof -
  have "(ucast (of_char c :: 32 word) :: 8 word) = of_char c" by (simp add: of_char_def)
  moreover have "unat (of_char d :: 8 word) = of_char d" for d
  proof -
    have "(of_char d :: 8 word) = word_of_nat (of_char d)" by (rule of_nat_of_char [symmetric])
    then show ?thesis by (simp only: unat_of_nat) (simp add: take_bit_nat_eq_self)
  qed
  then have "(of_char c :: 8 word) = of_char CR \<longleftrightarrow> c = CR" unfolding word_unat_eq_iff by (simp only: of_char_eq_iff)
  ultimately show ?thesis by (simp add: printed_def uart_putc_def mmio_write32_def)
qed

lemma printed_puts: "CR \<notin> set s \<Longrightarrow> printed UART_TX_ADDR (uart_puts s) = map of_char s"
  by (induction s) (auto simp: printed_putc)

lemma only_uart_signals: "only_uart text \<Longrightarrow> prints_then_signals UART_TX_ADDR TOHOST_ADDR text v (text @ [(TOHOST_ADDR, v)])"
  by (auto simp: prints_then_signals_def only_uart_def)

text \<open>The number of errors the benchmark counts, in the results and the time of its last timed run.\<close>

definition counted_errors :: "counters \<Rightarrow> seed_vars \<Rightarrow> addr \<Rightarrow> core_results \<Rightarrow> cmem \<Rightarrow> ee_s16 \<Rightarrow> bool" where
  "counted_errors clk sv blk re m e \<longleftrightarrow> (\<exists>re1 m1 s2 s3. set_up sv blk (re\<lparr>r_port := \<lparr>portable_id = 1\<rparr>\<rparr>) m = Some (re1, m1)
     \<and> set_iterations clk (start_state re1 m1) = Some s2 \<and> timed_iterate clk s2 = Some s3
     \<and> sint e = error_count (get_time (rs_timer s3)) (rs_res s3))"

lemma main_signals:
  assumes "static_block blk m" "length (r_memblock re) = 4" "all_algorithms (run_execs sv)" "seed4_volatile sv \<noteq> 0 \<or> (\<exists>n. run_secs clk n \<noteq> 0)"
  obtains before e after where "main clk version sv blk re m = Some ((before @ uart_puts (verdict e) @ after) @ [(TOHOST_ADDR, 1)])"
    "only_uart (before @ uart_puts (verdict e) @ after)" "counted_errors clk sv blk re m e"
proof -
  obtain trace e summary where "main clk version sv blk re m = Some (trace @ uart_puts (verdict e) @ summary @ [(TOHOST_ADDR, 1)])"
    "only_uart trace" "only_uart summary" "counted_errors clk sv blk re m e"
    using main_run [OF assms, of version] unfolding counted_errors_def by blast
  with that [of trace e summary] show thesis by simp
qed



section \<open>Compliance tests on the simulator\<close>

interpretation act4_port: host_port ACT4_UART ACT4_TOHOST
  by unfold_locales (simp add: ACT4_UART_def ACT4_TOHOST_def)

text \<open>A test that prints a string and ends with a verdict.\<close>

definition act4_test :: "reg \<Rightarrow> reg \<Rightarrow> reg \<Rightarrow> reg \<Rightarrow> bool \<Rightarrow> instr list" where
  "act4_test R1 R2 R3 p pass = RVMODEL_IO_WRITE_STR R1 R2 R3 p @ (if pass then RVMODEL_HALT_PASS else RVMODEL_HALT_FAIL)"

lemma act4_test_runs:
  assumes "distinct [0, R1, R2, p]" "pc s = 0" "cstring_at (ram s) (regs s p) bs"
  shows "\<exists>h. steps (act4_test R1 R2 R3 p pass) s h
     \<and> stores h = stores s @ map (\<lambda>b. (ACT4_UART, ucast b)) bs @ [(ACT4_TOHOST, if pass then 1 else 3)]
     \<and> (\<forall>u. steps (act4_test R1 R2 R3 p pass) h u \<longrightarrow> stores u = stores h \<and> (\<exists>w. step (act4_test R1 R2 R3 p pass) u w))"
proof -
  let ?P = "act4_test R1 R2 R3 p pass" and ?Q = "RVMODEL_IO_WRITE_STR R1 R2 R3 p" and ?h = "halt_code (if pass then 1 else 3)"
  have P: "?P = ?Q @ ?h" by (simp add: act4_test_def halt_macros)
  have 8: "length ?Q = 8" by (simp add: RVMODEL_IO_WRITE_STR_def)
  have c: "code_at ?P 0 ?Q" "code_at ?P 8 ?h" using code_at_append [of "[]" ?Q ?h] code_at_append [of ?Q ?h "[]"] by (simp_all add: P 8)
  obtain t where t: "steps ?P s t" "pc t = 8" "stores t = stores s @ map (\<lambda>b. (ACT4_UART, ucast b)) bs"
    using write_str_runs [OF c(1) assms] by auto
  obtain h where h: "steps ?P t h" "stores h = stores t @ [(ACT4_TOHOST, if pass then 1 else 3)]"
    "\<forall>u. steps ?P h u \<longrightarrow> stores u = stores h \<and> (\<exists>w. step ?P u w)"
    using halt_run [OF c(2) t(2)] by blast
  then show ?thesis using t steps_trans [OF h(1) t(1)] by (intro exI [of _ h]) simp
qed

text \<open>
  C22: a compliance test on the simulator. A test that prints a string with \<^verbatim>\<open>RVMODEL_IO_WRITE_STR\<close> and
  ends with \<^verbatim>\<open>RVMODEL_HALT_PASS\<close> or \<^verbatim>\<open>RVMODEL_HALT_FAIL\<close> comes to a state after which it stores nothing
  more; and when the processor makes the stores it has made by then within the limit of cycles,
  the simulation ends with exit code 0 for a pass and 1 for a failure, and the string, without
  carriage returns, stands between banner and report.
\<close>

theorem act4_test_on_simulator:
  assumes "distinct [0, R1, R2, p]" "pc s = 0" "stores s = []" "cstring_at (ram s) (regs s p) bs"
    "files_open getenv can_open args" "n \<le> unat (get_max_cycles getenv args)"
  shows "\<exists>h. steps (act4_test R1 R2 R3 p pass) s h \<and> (\<forall>u. steps (act4_test R1 R2 R3 p pass) h u \<longrightarrow> stores u = stores h)
     \<and> stores h = map (\<lambda>b. (ACT4_UART, ucast b)) bs @ [(ACT4_TOHOST, if pass then 1 else 3)]
     \<and> (performs ACT4_UART ACT4_TOHOST cpu model n (stores h) \<longrightarrow>
          (\<exists>st. sim_main cpu model getenv can_open args = (if pass then 0 else 1, Inr st)
             \<and> console st = map of_char (start_banner (sim_opts getenv args)) @ filter (\<lambda>b. b \<noteq> of_char CR) bs
                 @ map of_char (concat (map show_line (final_report cpu st)) @ result_line st)))"
proof -
  let ?t = "map (\<lambda>b. (ACT4_UART, ucast b)) bs :: mmio_trace" and ?v = "if pass then 1 else 3 :: 32 word"
  obtain h where h: "steps (act4_test R1 R2 R3 p pass) s h" "stores h = ?t @ [(ACT4_TOHOST, ?v)]"
    "\<forall>u. steps (act4_test R1 R2 R3 p pass) h u \<longrightarrow> stores u = stores h"
    using act4_test_runs [OF assms(1,2,4), of R3 pass] assms(3) by auto
  have "(ucast b :: 32 word) < 256" for b :: "8 word"
  proof -
    have "unat b < 256" using unsigned_less [where 'a = nat, of b] by simp
    then show ?thesis by (simp add: word_less_nat_alt unsigned_ucast_eq take_bit_nat_eq_self)
  qed
  then have p: "prints_then_signals ACT4_UART ACT4_TOHOST ?t ?v (stores h)" by (auto simp: prints_then_signals_def h(2))
  have t: "printed ACT4_UART ?t = filter (\<lambda>b. b \<noteq> of_char CR) bs" by (simp add: printed_def filter_map comp_def byte_word)
  have v: "(?v = kTohostPassValue) = pass" by (simp add: kTohostPassValue_def)
  have "\<exists>st. sim_main cpu model getenv can_open args = (if pass then 0 else 1, Inr st)
      \<and> console st = map of_char (start_banner (sim_opts getenv args)) @ filter (\<lambda>b. b \<noteq> of_char CR) bs
          @ map of_char (concat (map show_line (final_report cpu st)) @ result_line st)"
    if pf: "performs ACT4_UART ACT4_TOHOST cpu model n (stores h)"
    using act4_port.simulated [OF pf p assms(5,6), unfolded v t] by (elim exE conjE) (intro exI conjI)
  with h show ?thesis by (intro exI [of _ h]) simp
qed

text \<open>A failing test that prints two letters.\<close>

theorem act4_test_on_simulator_witness:
  "\<exists>h st. steps (act4_test 5 6 7 10 False) greeting h
     \<and> sim_main (replay ACT4_UART ACT4_TOHOST (stores h)) (False, 0) (\<lambda>_. None) (\<lambda>_. True) [] = (1, Inr st)
     \<and> (\<exists>report. console st = map of_char (start_banner (sim_opts (\<lambda>_. None) [])) @ [72, 105] @ report)"
proof -
  let ?tr = "[(ACT4_UART, 72), (ACT4_UART, 105), (ACT4_TOHOST, 3)] :: mmio_trace"
  have d: "distinct [0, 5, 6, 10 :: reg]" "pc greeting = 0" "stores greeting = []" by (simp_all add: greeting_def)
  have s: "cstring_at (ram greeting) (regs greeting 10) [72, 105]" by (simp add: greeting_def ACT4_UART_def)
  have f: "files_open (\<lambda>_. None) (\<lambda>_. True) []" by (simp add: files_open_def)
  have n: "3 \<le> unat (get_max_cycles (\<lambda>_. None) [])" by (simp add: get_max_cycles_def kDefaultMaxCycles_def)
  have cr: "(72 :: 8 word) \<noteq> of_char CR" "(105 :: 8 word) \<noteq> of_char CR" by simp_all
  have p: "performs ACT4_UART ACT4_TOHOST (replay ACT4_UART ACT4_TOHOST ?tr) (False, 0) (length ?tr) ?tr"
    by (rule replay_performs [of _ _ "[(ACT4_UART, 72), (ACT4_UART, 105)]" 3]) (simp_all add: prints_then_signals_def act4_port.ports_differ)
  then have p: "performs ACT4_UART ACT4_TOHOST (replay ACT4_UART ACT4_TOHOST ?tr) (False, 0) 3 ?tr" by (simp add: numeral_3_eq_3)
  have tr: "map (\<lambda>b. (ACT4_UART, ucast b)) [72, 105 :: 8 word] @ [(ACT4_TOHOST, 3)] = ?tr" by simp
  have bs: "filter (\<lambda>b. b \<noteq> of_char CR) [72, 105] = [72, 105 :: 8 word]" by simp
  obtain h where h: "steps (act4_test 5 6 7 10 False) greeting h" "stores h = ?tr"
    "performs ACT4_UART ACT4_TOHOST (replay ACT4_UART ACT4_TOHOST ?tr) (False, 0) 3 (stores h) \<longrightarrow>
       (\<exists>st. sim_main (replay ACT4_UART ACT4_TOHOST ?tr) (False, 0) (\<lambda>_. None) (\<lambda>_. True) [] = (1, Inr st)
          \<and> (\<exists>report. console st = map of_char (start_banner (sim_opts (\<lambda>_. None) [])) @ [72, 105] @ report))"
    using act4_test_on_simulator [OF d s f n, of 7 False "replay ACT4_UART ACT4_TOHOST ?tr" "(False, 0)", unfolded tr bs if_False] by (elim exE conjE) blast
  then show ?thesis using p by (intro exI [of _ h]) (simp only: simp_thms)
qed

end
